(* ===== verification/Prelude.thy ===== *)
theory Prelude
  imports Main "HOL-Library.Sublist"
begin

text \<open>
  What every component shares: the collections of rewrite rules the component proofs draw on,
  the outcome of a piece of JavaScript that may throw, the generic facts on lists and folds, and
  the interfaces (locales) that several components implement.
\<close>

section \<open>Collections of facts\<close>

named_theorems js_simps \<open>equations of the string functions of the language\<close>
named_theorems dom_simps \<open>reading one part of the document after writing another\<close>
named_theorems ui_defs \<open>the definitions of the user interface handlers\<close>

section \<open>Outcomes\<close>

text \<open>
  A handler either runs to its end or throws; the state it leaves behind is kept in both cases,
  because what it wrote before the throw stays written.
\<close>

datatype js_error = TypeError | URIError | StorageError | OutOfModel

datatype 's outcome = Done 's | Throws js_error 's

fun final :: "'s outcome \<Rightarrow> 's" where
  "final (Done s) = s"
| "final (Throws e s) = s"

fun completes :: "'s outcome \<Rightarrow> bool" where
  "completes (Done s) = True"
| "completes (Throws e s) = False"

fun and_then :: "'s outcome \<Rightarrow> ('s \<Rightarrow> 's outcome) \<Rightarrow> 's outcome" where
  "and_then (Done s) f = f s"
| "and_then (Throws e s) f = Throws e s"

lemma completes_iff: "completes o' \<longleftrightarrow> (\<exists>s. o' = Done s)"
  by (cases o') auto

section \<open>Lists and folds\<close>

lemma fold_invariant_list:
  assumes "P s" and "\<And>x s. x \<in> set xs \<Longrightarrow> P s \<Longrightarrow> P (f x s)"
  shows "P (fold f xs s)"
  using assms by (induction xs arbitrary: s) auto

lemma foldl_invariant_list:
  assumes "P s" and "\<And>x s. x \<in> set xs \<Longrightarrow> P s \<Longrightarrow> P (f s x)"
  shows "P (foldl f s xs)"
  using assms by (induction xs arbitrary: s) auto

lemma fold_frame:
  assumes "\<And>x s. g (f x s) = g s"
  shows "g (fold f xs s) = g s"
  using assms by (induction xs arbitrary: s) auto

lemma take_drop_append_same: "take (length w) (drop (length pre) (pre @ w @ post)) = w"
  by simp

lemma find_Some_iff_set: "List.find P xs = Some x \<Longrightarrow> x \<in> set xs \<and> P x"
  by (induction xs) (auto split: if_splits)

lemma find_None_set: "List.find P xs = None \<longleftrightarrow> (\<forall>x \<in> set xs. \<not> P x)"
  by (induction xs) auto

lemma while_app:
  assumes "list_all P w" and "t = [] \<or> \<not> P (hd t)"
  shows "takeWhile P (w @ t) = w" and "dropWhile P (w @ t) = t"
  using assms by (induction w) (auto, (cases t; simp)+)

lemma filter_split:
  "filter P xs = as @ x # bs \<Longrightarrow> \<exists>us vs. xs = us @ x # vs \<and> filter P us = as \<and> P x"
proof (induction as arbitrary: xs)
  case Nil
  then show ?case by (auto simp: filter_eq_Cons_iff)
next
  case (Cons a as)
  then obtain us vs where xs: "xs = us @ a # vs" "\<forall>u \<in> set us. \<not> P u" "P a" "as @ x # bs = filter P vs"
    by (auto simp: filter_eq_Cons_iff)
  then obtain us' vs' where "vs = us' @ x # vs'" "filter P us' = as" "P x" using Cons.IH by metis
  then show ?case using xs by (intro exI [of _ "us @ a # us'"] exI [of _ vs']) simp
qed

lemma member_le_sum_list_int:
  fixes xs :: "int list"
  shows "x \<in> set xs \<Longrightarrow> \<forall>v \<in> set xs. 0 \<le> v \<Longrightarrow> x \<le> sum_list xs"
proof (induction xs)
  case Nil
  then show ?case by simp
next
  case (Cons y ys)
  then have "0 \<le> sum_list ys" by (intro sum_list_nonneg) auto
  with Cons show ?case by fastforce
qed

section \<open>Interfaces\<close>

text \<open>
  A machine driven by events: one operation per event and a condition that each of them keeps.
  Its client lemmas: the condition holds along every run.
\<close>

locale machine =
  fixes step :: "'e \<Rightarrow> 's \<Rightarrow> 's"
    and inv :: "'s \<Rightarrow> bool"
  assumes step_inv: "inv s \<Longrightarrow> inv (step e s)"
begin

lemma run_inv: "inv s \<Longrightarrow> inv (fold step es s)"
  by (rule fold_invariant_list) (auto intro: step_inv)

lemma run_prefix_inv:
  assumes "inv s"
  shows "inv (fold step (take n es) s)"
  by (rule run_inv [OF assms])

end

text \<open>
  A part of the page that is shown and hidden: the search box, the theme list, the sidebar and the
  help popup all promise the same.
\<close>

locale disclosure =
  fixes open_it :: "'s \<Rightarrow> 's"
    and close_it :: "'s \<Rightarrow> 's"
    and is_open :: "'s \<Rightarrow> bool"
  assumes open_opens: "is_open (open_it s)"
    and close_closes: "\<not> is_open (close_it s)"
begin

lemma reopen: "is_open (open_it (close_it s))"
  by (rule open_opens)

lemma toggle_flips:
  "is_open (if is_open s then close_it s else open_it s) \<longleftrightarrow> \<not> is_open s"
  by (simp add: open_opens close_closes)

lemma toggle_twice:
  "(let t = (if is_open s then close_it s else open_it s)
    in is_open (if is_open t then close_it t else open_it t)) = is_open s"
  by (simp add: Let_def open_opens close_closes)

end

text \<open>An encoding that can be undone.\<close>

locale codec =
  fixes enc :: "'a \<Rightarrow> 'b"
    and dec :: "'b \<Rightarrow> 'a option"
  assumes dec_enc: "dec (enc x) = Some x"
begin

lemma enc_inject: "enc x = enc y \<longleftrightarrow> x = y"
  using dec_enc by (metis option.inject)

lemma dec_enc_map: "map (dec \<circ> enc) xs = map Some xs"
  by (simp add: dec_enc)

end

text \<open>A step relation with an invariant: what it reaches from its start satisfies it.\<close>

locale transitions =
  fixes start :: "'s"
    and step :: "'s \<Rightarrow> 's \<Rightarrow> bool"
    and inv :: "'s \<Rightarrow> bool"
  assumes start_inv: "inv start"
    and step_inv: "inv s \<Longrightarrow> step s s' \<Longrightarrow> inv s'"
begin

lemma reachable_inv: "step\<^sup>*\<^sup>* start s \<Longrightarrow> inv s"
  by (induction rule: rtranclp_induct) (auto intro: start_inv step_inv)

end

end
