(* ===== verification/Js.thy ===== *)
theory Js
  imports Prelude
begin

text \<open>
  The string functions of the JavaScript standard library that the scripts use. A string is a
  list of code units below 256 (Latin-1): every code unit is one \<open>char\<close>, so lengths and indices
  are those of the language. A text outside that range is outside the model; where a function of
  the language can leave the range (\<open>decodeURIComponent\<close>), it answers \<open>OutOfModel\<close>.
\<close>

section \<open>Substrings, prefixes, joining\<close>

definition starts_with :: "string \<Rightarrow> string \<Rightarrow> bool" where
  \<comment> \<open>\<open>s.startsWith(p)\<close>\<close>
  "starts_with s p \<longleftrightarrow> take (length p) s = p"

definition ends_with :: "string \<Rightarrow> string \<Rightarrow> bool" where
  \<comment> \<open>\<open>s.endsWith(p)\<close>\<close>
  "ends_with s p \<longleftrightarrow> length p \<le> length s \<and> drop (length s - length p) s = p"

definition substring :: "string \<Rightarrow> nat \<Rightarrow> nat \<Rightarrow> string" where
  \<comment> \<open>\<open>s.substring(i, j)\<close>: both clamped to the length, swapped when out of order\<close>
  "substring s i j =
     (let a = min i (length s); b = min j (length s)
      in take (max a b - min a b) (drop (min a b) s))"

fun js_join :: "string \<Rightarrow> string list \<Rightarrow> string" where
  "js_join sep [] = []"
| "js_join sep [w] = w"
| "js_join sep (w # v # ws) = w @ sep @ js_join sep (v # ws)"

fun contains_str :: "string \<Rightarrow> string \<Rightarrow> bool" where
  \<comment> \<open>\<open>s.indexOf(p) !== -1\<close>\<close>
  "contains_str [] p \<longleftrightarrow> p = []"
| "contains_str (c # s) p \<longleftrightarrow> starts_with (c # s) p \<or> contains_str s p"

lemma substring_le:
  "i \<le> j \<Longrightarrow> j \<le> length s \<Longrightarrow> substring s i j = take (j - i) (drop i s)"
  by (simp add: substring_def Let_def min_def max_def)

lemma substring_append:
  "i \<le> j \<Longrightarrow> j \<le> k \<Longrightarrow> k \<le> length s \<Longrightarrow> substring s i j @ substring s j k = substring s i k"
proof -
  assume a: "i \<le> j" "j \<le> k" "k \<le> length s"
  then obtain m n where mn: "j = i + m" "k = i + m + n"
    by (metis le_iff_add)
  have "take (m + n) (drop i s) = take m (drop i s) @ take n (drop m (drop i s))"
    by (rule take_add)
  with a mn show ?thesis
    by (simp add: substring_le add.commute)
qed

lemma substring_subset: "set (substring s i j) \<subseteq> set s"
  by (auto simp: substring_def Let_def dest!: in_set_takeD in_set_dropD)

lemma starts_with_append [js_simps]: "starts_with (p @ s) p"
  by (simp add: starts_with_def)

section \<open>Splitting\<close>

fun cons_hd :: "char \<Rightarrow> string list \<Rightarrow> string list" where
  "cons_hd c [] = [[c]]"
| "cons_hd c (w # ws) = (c # w) # ws"

text \<open>\<open>s.split(sep)\<close> for a non-empty separator (the scripts use no other).\<close>

function js_split :: "string \<Rightarrow> string \<Rightarrow> string list" where
  "js_split sep s =
     (if s = [] then [[]]
      else if sep \<noteq> [] \<and> starts_with s sep then [] # js_split sep (drop (length sep) s)
      else cons_hd (hd s) (js_split sep (tl s)))"
  by pat_completeness auto
termination
  by (relation "measure (\<lambda>(sep, s). length s)") auto

declare js_split.simps [simp del]

lemma js_split_Nil [simp]: "js_split sep [] = [[]]"
  by (subst js_split.simps) simp

lemma js_split_Cons:
  "js_split sep (c # s) =
     (if sep \<noteq> [] \<and> starts_with (c # s) sep then [] # js_split sep (drop (length sep) (c # s))
      else cons_hd c (js_split sep s))"
  by (subst js_split.simps) simp

lemma js_split_char_Cons [simp]:
  "js_split [a] (c # s) = (if c = a then [] # js_split [a] s else cons_hd c (js_split [a] s))"
  by (simp add: js_split_Cons starts_with_def)

lemma cons_hd_not_Nil [simp]: "cons_hd c ws \<noteq> []"
  by (cases ws) auto

lemma js_split_not_Nil [simp]: "js_split sep s \<noteq> []"
  by (subst js_split.simps) simp

lemma js_join_Cons: "ws \<noteq> [] \<Longrightarrow> js_join sep (w # ws) = w @ sep @ js_join sep ws"
  by (cases ws) auto

lemma js_join_cons_hd: "ws \<noteq> [] \<Longrightarrow> js_join sep (cons_hd c ws) = c # js_join sep ws"
  by (cases ws; cases "tl ws") auto

text \<open>Joining undoes splitting.\<close>

lemma join_split: "js_join sep (js_split sep s) = s"
proof (induction sep s rule: js_split.induct)
  case (1 sep s)
  show ?case
  proof (cases s)
    case Nil
    then show ?thesis by simp
  next
    case (Cons c t)
    show ?thesis
    proof (cases "sep \<noteq> [] \<and> starts_with s sep")
      case True
      with Cons "1.IH"(1) have "js_join sep (js_split sep (drop (length sep) s)) = drop (length sep) s"
        by simp
      with True Cons show ?thesis
        by (simp add: js_split_Cons js_join_Cons starts_with_def)
          (metis append_take_drop_id)
    next
      case False
      with Cons "1.IH"(2) show ?thesis
        by (auto simp: js_split_Cons js_join_cons_hd)
    qed
  qed
qed

lemma set_cons_hd: "w \<in> set (cons_hd c ws) \<Longrightarrow>
    (\<exists>v. w = c # v \<and> (v \<in> set ws \<or> v = [])) \<or> w \<in> set ws"
  by (cases ws) auto

text \<open>No piece holds the separator.\<close>

lemma split_char_no_sep: "w \<in> set (js_split [a] s) \<Longrightarrow> a \<notin> set w"
  by (induction s arbitrary: w) (auto split: if_splits dest!: set_cons_hd)

lemma split_char_single: "a \<notin> set s \<Longrightarrow> js_split [a] s = [s]"
  by (induction s) auto

lemma split_char_append:
  "a \<notin> set w \<Longrightarrow> js_split [a] (w @ a # s) = w # js_split [a] s"
  by (induction w) auto

text \<open>Splitting undoes joining when no piece holds the separator.\<close>

lemma split_join_char:
  "ws \<noteq> [] \<Longrightarrow> (\<forall>w \<in> set ws. a \<notin> set w) \<Longrightarrow> js_split [a] (js_join [a] ws) = ws"
proof (induction ws)
  case Nil
  then show ?case by simp
next
  case (Cons w vs)
  then show ?case
    by (cases vs) (auto simp: split_char_single split_char_append)
qed

section \<open>Replacing\<close>

definition replace_first :: "char \<Rightarrow> string \<Rightarrow> string" where
  \<comment> \<open>\<open>s.replace('c', '')\<close>: the first occurrence only\<close>
  "replace_first c s = remove1 c s"

definition replace_all :: "char \<Rightarrow> string \<Rightarrow> string \<Rightarrow> string" where
  \<comment> \<open>\<open>s.replace(/c/g, r)\<close>\<close>
  "replace_all c r s = concat (map (\<lambda>x. if x = c then r else [x]) s)"

definition strip_leading :: "char \<Rightarrow> string \<Rightarrow> string" where
  \<comment> \<open>\<open>s.replace(/^c/, '')\<close>\<close>
  "strip_leading c s = (case s of [] \<Rightarrow> [] | x # xs \<Rightarrow> if x = c then xs else s)"

lemma replace_first_absent [simp]: "c \<notin> set s \<Longrightarrow> replace_first c s = s"
  by (simp add: replace_first_def remove1_idem)

lemma replace_all_absent [simp]: "c \<notin> set s \<Longrightarrow> replace_all c r s = s"
  by (induction s) (auto simp: replace_all_def)

section \<open>Case and white space\<close>

definition code :: "char \<Rightarrow> nat" where
  "code c = of_char c"

definition lower_char :: "char \<Rightarrow> char" where
  \<comment> \<open>the simple lower-case mapping on Latin-1: A-Z and the accented capitals but the
    multiplication sign\<close>
  "lower_char c =
     (let n = code c
      in if 65 \<le> n \<and> n \<le> 90 \<or> 192 \<le> n \<and> n \<le> 222 \<and> n \<noteq> 215 then char_of (n + 32) else c)"

definition to_lower :: "string \<Rightarrow> string" where
  \<comment> \<open>\<open>s.toLowerCase()\<close>\<close>
  "to_lower s = map lower_char s"

definition is_space :: "char \<Rightarrow> bool" where
  "is_space c \<longleftrightarrow> code c \<in> {9, 10, 11, 12, 13, 32, 160}"

definition trim :: "string \<Rightarrow> string" where
  \<comment> \<open>\<open>s.trim()\<close>\<close>
  "trim s = rev (dropWhile is_space (rev (dropWhile is_space s)))"

lemma length_to_lower [simp]: "length (to_lower s) = length s"
  by (simp add: to_lower_def)

lemma trim_idem: "trim (trim s) = trim s"
proof -
  have tail: "\<not> is_space (last (trim s))" if "trim s \<noteq> []"
  proof -
    from that have "dropWhile is_space (rev (dropWhile is_space s)) \<noteq> []"
      by (simp add: trim_def)
    then have "\<not> is_space (hd (dropWhile is_space (rev (dropWhile is_space s))))"
      by (rule hd_dropWhile)
    with that show ?thesis by (simp add: trim_def last_rev)
  qed
  have head: "\<not> is_space (hd (trim s))" if ne: "trim s \<noteq> []"
  proof -
    let ?d = "dropWhile is_space s"
    obtain zs where z: "?d = trim s @ zs"
      unfolding trim_def by (metis rev_append rev_rev_ident takeWhile_dropWhile_id)
    with ne have "?d \<noteq> []" and "hd ?d = hd (trim s)" by auto
    then show ?thesis by (metis hd_dropWhile)
  qed
  show ?thesis
  proof (cases "trim s = []")
    case True
    have "trim [] = []" by (simp add: trim_def)
    with True show ?thesis by simp
  next
    case False
    then have "dropWhile is_space (trim s) = trim s"
      using head by (cases "trim s") auto
    moreover have "dropWhile is_space (rev (trim s)) = rev (trim s)"
      using tail [OF False] False by (cases "trim s" rule: rev_cases) auto
    ultimately show ?thesis by (simp add: trim_def [of "trim s"])
  qed
qed

section \<open>Numbers in strings\<close>

fun string_of_nat :: "nat \<Rightarrow> string" where
  \<comment> \<open>the decimal form, as string concatenation writes an integer\<close>
  "string_of_nat n =
     (if n < 10 then [char_of (48 + n)] else string_of_nat (n div 10) @ [char_of (48 + n mod 10)])"

declare string_of_nat.simps [simp del]

definition string_of_int :: "int \<Rightarrow> string" where
  "string_of_int i = (if i < 0 then CHR ''-'' # string_of_nat (nat (- i)) else string_of_nat (nat i))"

definition is_digit :: "char \<Rightarrow> bool" where
  "is_digit c \<longleftrightarrow> 48 \<le> code c \<and> code c \<le> 57"

definition digits_value :: "string \<Rightarrow> nat" where
  "digits_value ds = foldl (\<lambda>n c. 10 * n + (code c - 48)) 0 ds"

definition parse_int :: "string \<Rightarrow> int option" where
  \<comment> \<open>\<open>parseInt(s, 10)\<close>: None for NaN\<close>
  "parse_int s =
     (let t = dropWhile is_space s;
          negative = starts_with t ''-'';
          u = (if negative \<or> starts_with t ''+'' then tl t else t);
          ds = takeWhile is_digit u
      in if ds = [] then None
         else Some (if negative then - int (digits_value ds) else int (digits_value ds)))"

definition px :: "int \<Rightarrow> string" where
  \<comment> \<open>\<open>n + 'px'\<close>\<close>
  "px n = string_of_int n @ ''px''"

lemma digit_chars:
  assumes "n < 10"
  shows "is_digit (char_of (48 + n))" "code (char_of (48 + n) :: char) - 48 = n"
  using assms by (simp_all add: is_digit_def code_def)

lemma string_of_nat_digits: "list_all is_digit (string_of_nat n)"
proof (induction n rule: string_of_nat.induct)
  case (1 n)
  then show ?case
    using digit_chars(1) [of n] digit_chars(1) [of "n mod 10"]
    by (subst string_of_nat.simps) simp
qed

lemma digits_value_string_of_nat: "digits_value (string_of_nat n) = n"
proof (induction n rule: string_of_nat.induct)
  case (1 n)
  then show ?case
    using digit_chars(2) [of n] digit_chars(2) [of "n mod 10"]
    by (subst string_of_nat.simps) (simp add: digits_value_def)
qed

lemma string_of_nat_not_Nil [simp]: "string_of_nat n \<noteq> []"
  by (subst string_of_nat.simps) simp

lemma takeWhile_digits:
  "list_all is_digit ds \<Longrightarrow> takeWhile is_digit (ds @ ''px'') = ds"
  by (induction ds) (simp_all add: is_digit_def code_def)

lemma digits_no_sign:
  assumes "list_all is_digit ds"
  shows "dropWhile is_space (ds @ ''px'') = ds @ ''px''"
    "\<not> starts_with (ds @ ''px'') ''-''" "\<not> starts_with (ds @ ''px'') ''+''"
  using assms by (cases ds; auto simp: starts_with_def is_digit_def is_space_def code_def)+

text \<open>A length in pixels written by a script is read again.\<close>

lemma parse_int_px: "parse_int (px n) = Some n"
proof (cases "n < 0")
  case True
  have "dropWhile is_space (CHR ''-'' # xs) = CHR ''-'' # xs" "starts_with (CHR ''-'' # xs) ''-''" for xs
    by (simp_all add: is_space_def code_def starts_with_def)
  then show ?thesis using True string_of_nat_digits [of "nat (- n)"]
    by (simp add: px_def string_of_int_def parse_int_def takeWhile_digits digits_value_string_of_nat)
next
  case False
  then show ?thesis using string_of_nat_digits [of "nat n"]
    by (simp add: px_def string_of_int_def parse_int_def takeWhile_digits digits_value_string_of_nat digits_no_sign)
qed

interpretation pixels: codec px parse_int
  by unfold_locales (rule parse_int_px)

section \<open>Percent encoding\<close>

text \<open>
  \<open>encodeURIComponent\<close>: letters, digits and \<open>- _ . ! ~ * ' ( )\<close> stay; every other code unit
  becomes the percent-escaped bytes of its UTF-8 form, which for Latin-1 is one byte or two.
\<close>

definition uri_unreserved :: "char \<Rightarrow> bool" where
  "uri_unreserved c \<longleftrightarrow>
     (let n = code c
      in 65 \<le> n \<and> n \<le> 90 \<or> 97 \<le> n \<and> n \<le> 122 \<or> 48 \<le> n \<and> n \<le> 57
         \<or> c \<in> set ''-_.!~*()'' \<or> n = 39)"

definition hex_digit :: "nat \<Rightarrow> char" where
  "hex_digit n = (if n < 10 then char_of (48 + n) else char_of (55 + n))"

definition hex_value :: "char \<Rightarrow> nat option" where
  "hex_value c =
     (let n = code c
      in if 48 \<le> n \<and> n \<le> 57 then Some (n - 48)
         else if 65 \<le> n \<and> n \<le> 70 then Some (n - 55)
         else if 97 \<le> n \<and> n \<le> 102 then Some (n - 87)
         else None)"

definition percent_byte :: "nat \<Rightarrow> string" where
  "percent_byte n = [CHR ''%'', hex_digit (n div 16), hex_digit (n mod 16)]"

definition encode_char :: "char \<Rightarrow> string" where
  "encode_char c =
     (if uri_unreserved c then [c]
      else if code c < 128 then percent_byte (code c)
      else percent_byte (192 + code c div 64) @ percent_byte (128 + code c mod 64))"

definition encodeURIComponent :: "string \<Rightarrow> string" where
  "encodeURIComponent s = concat (map encode_char s)"

definition hex_byte :: "char \<Rightarrow> char \<Rightarrow> nat option" where
  "hex_byte h l =
     (case (hex_value h, hex_value l) of
        (Some a, Some b) \<Rightarrow> Some (16 * a + b)
      | _ \<Rightarrow> None)"

text \<open>
  \<open>decodeURIComponent\<close>: a percent sign must be followed by two hexadecimal digits; a byte below
  128 stands for itself, the lead bytes 194 and 195 take one continuation byte, the lead bytes of
  longer code points leave the model, anything else is malformed and throws.
\<close>

function decodeURIComponent :: "string \<Rightarrow> js_error + string" where
  "decodeURIComponent [] = Inr []"
| "c \<noteq> CHR ''%'' \<Longrightarrow> decodeURIComponent (c # s) =
     (case decodeURIComponent s of Inl e \<Rightarrow> Inl e | Inr r \<Rightarrow> Inr (c # r))"
| "decodeURIComponent (CHR ''%'' # h # l # s) =
     (case hex_byte h l of
        None \<Rightarrow> Inl URIError
      | Some b \<Rightarrow>
          if b < 128 then
            (case decodeURIComponent s of Inl e \<Rightarrow> Inl e | Inr r \<Rightarrow> Inr (char_of b # r))
          else if b < 194 \<or> 244 < b then Inl URIError
          else if 195 < b then Inl OutOfModel
          else (case s of
              CHR ''%'' # h' # l' # s' \<Rightarrow>
                (case hex_byte h' l' of
                   None \<Rightarrow> Inl URIError
                 | Some b' \<Rightarrow>
                     if 128 \<le> b' \<and> b' < 192 then
                       (case decodeURIComponent s' of
                          Inl e \<Rightarrow> Inl e
                        | Inr r \<Rightarrow> Inr (char_of (64 * (b - 192) + (b' - 128)) # r))
                     else Inl URIError)
            | _ \<Rightarrow> Inl URIError))"
| "decodeURIComponent [CHR ''%''] = Inl URIError"
| "decodeURIComponent [CHR ''%'', h] = Inl URIError"
  by (atomize_elim, metis list.exhaust) auto
termination
  by (relation "measure length") auto

lemma code_less [simp]: "code c < 256"
  by (simp add: code_def)

lemma code_char_of [simp]: "n < 256 \<Longrightarrow> code (char_of n) = n"
  by (simp add: code_def)

lemma char_of_code [simp]: "char_of (code c) = c"
  by (simp add: code_def)

lemma hex_value_digit: "d < 16 \<Longrightarrow> hex_value (hex_digit d) = Some d"
  by (auto simp: hex_value_def hex_digit_def Let_def)

lemma hex_byte_digits: "n < 256 \<Longrightarrow> hex_byte (hex_digit (n div 16)) (hex_digit (n mod 16)) = Some n"
proof -
  assume "n < 256"
  then have "n div 16 < 16" by simp
  then show ?thesis by (simp add: hex_byte_def hex_value_digit)
qed

lemma unreserved_not_percent: "uri_unreserved c \<Longrightarrow> c \<noteq> CHR ''%''"
  by (auto simp: uri_unreserved_def code_def)

lemma decode_encode_char:
  "decodeURIComponent s = Inr r \<Longrightarrow> decodeURIComponent (encode_char c @ s) = Inr (c # r)"
proof -
  assume s: "decodeURIComponent s = Inr r"
  have "code c < 256" by simp
  consider "uri_unreserved c" | "\<not> uri_unreserved c" "code c < 128"
    | "\<not> uri_unreserved c" "128 \<le> code c" by linarith
  then show ?thesis
  proof cases
    case 1
    with s show ?thesis by (simp add: encode_char_def unreserved_not_percent)
  next
    case 2
    with s show ?thesis
      by (simp add: encode_char_def percent_byte_def hex_byte_digits)
  next
    case 3
    define q m where "q = code c div 64" and "m = code c mod 64"
    have "q < 4" using \<open>code c < 256\<close> unfolding q_def by linarith
    with 3 have q: "2 \<le> q" "q < 4" "m < 64" and c: "code c = 64 * q + m"
      unfolding q_def m_def by auto
    have h1: "hex_byte (hex_digit ((192 + q) div 16)) (hex_digit ((192 + q) mod 16)) = Some (192 + q)"
      using q by (intro hex_byte_digits) simp
    have h2: "hex_byte (hex_digit ((128 + m) div 16)) (hex_digit ((128 + m) mod 16)) = Some (128 + m)"
      using q by (intro hex_byte_digits) simp
    have "char_of (64 * q + m) = c" using c by (metis char_of_code)
    with 3 s q show ?thesis
      by (simp add: encode_char_def percent_byte_def h1 h2 flip: q_def m_def)
  qed
qed

text \<open>Decoding undoes encoding.\<close>

lemma decode_encodeURIComponent: "decodeURIComponent (encodeURIComponent s) = Inr s"
  by (induction s) (simp_all add: encodeURIComponent_def decode_encode_char)

end
