(* ===== verification/Search_Text.thy ===== *)
theory Search_Text
  imports Js
begin

text \<open>
  The text side of the search script (\<open>searcher-c2a407aa.js\<close>): \<open>escapeHTML\<close>,
  \<open>formatSearchMetric\<close>, \<open>makeTeaser\<close> and \<open>formatSearchResult\<close>. The stemmer of the third-party
  index library is a parameter, about which nothing is assumed.
\<close>

section \<open>Escaping\<close>

definition html_escape_char :: "char \<Rightarrow> string" where
  \<comment> \<open>the table \<open>MAP\<close>, applied to the characters of the pattern \<open>[&<>'"]\<close>\<close>
  "html_escape_char c =
     (if c = CHR ''&'' then ''&amp;''
      else if c = CHR ''<'' then ''&lt;''
      else if c = CHR ''>'' then ''&gt;''
      else if c = CHR 0x22 then ''&#34;''
      else if c = CHR 0x27 then ''&#39;''
      else [c])"

definition escapeHTML :: "string \<Rightarrow> string" where
  "escapeHTML s = concat (map html_escape_char s)"

text \<open>What a browser reads back from escaped text, for the five entities in use.\<close>

function unescapeHTML :: "string \<Rightarrow> string option" where
  "unescapeHTML [] = Some []"
| "unescapeHTML (c # s) =
     (if c \<noteq> CHR ''&'' then
        (if c \<in> {CHR ''<'', CHR ''>'', CHR 0x22, CHR 0x27} then None
         else map_option ((#) c) (unescapeHTML s))
      else if starts_with s ''amp;'' then map_option ((#) (CHR ''&'')) (unescapeHTML (drop 4 s))
      else if starts_with s ''lt;'' then map_option ((#) (CHR ''<'')) (unescapeHTML (drop 3 s))
      else if starts_with s ''gt;'' then map_option ((#) (CHR ''>'')) (unescapeHTML (drop 3 s))
      else if starts_with s ''#34;'' then map_option ((#) (CHR 0x22)) (unescapeHTML (drop 4 s))
      else if starts_with s ''#39;'' then map_option ((#) (CHR 0x27)) (unescapeHTML (drop 4 s))
      else None)"
  by pat_completeness auto
termination
  by (relation "measure length") auto

lemma unescape_escape_char:
  "unescapeHTML (html_escape_char c @ s) = map_option ((#) c) (unescapeHTML s)"
  by (simp add: html_escape_char_def starts_with_def)

lemma unescape_escape: "unescapeHTML (escapeHTML s) = Some s"
  by (induction s) (simp_all add: escapeHTML_def unescape_escape_char)

lemma escape_char_markup:
  "x \<in> set (html_escape_char c) \<Longrightarrow> x \<notin> {CHR ''<'', CHR ''>'', CHR 0x22, CHR 0x27}"
  by (auto simp: html_escape_char_def split: if_splits)

lemma escape_no_markup:
  "set (escapeHTML s) \<inter> {CHR ''<'', CHR ''>'', CHR 0x22, CHR 0x27} = {}"
  by (auto simp: escapeHTML_def dest: escape_char_markup)

interpretation html: codec escapeHTML unescapeHTML
  by unfold_locales (rule unescape_escape)

interpretation uri: codec encodeURIComponent
  "\<lambda>s. case decodeURIComponent s of Inl e \<Rightarrow> None | Inr r \<Rightarrow> Some r"
  by unfold_locales (simp add: decode_encodeURIComponent)

section \<open>The line above the results\<close>

definition formatSearchMetric :: "nat \<Rightarrow> string \<Rightarrow> string" where
  "formatSearchMetric count searchterm =
     (if count = 1 then
        string_of_nat count @ '' search result for '' @ [CHR 0x27] @ searchterm @ [CHR 0x27] @ '':''
      else if count = 0 then
        ''No search results for '' @ [CHR 0x27] @ searchterm @ [CHR 0x27] @ ''.''
      else
        string_of_nat count @ '' search results for '' @ [CHR 0x27] @ searchterm @ [CHR 0x27] @ '':'')"

section \<open>Weighing the words\<close>

text \<open>
  The scan's local variables: \<open>index\<close>, \<open>value\<close>, \<open>searchterm_found\<close> and \<open>weighted\<close>, whose entries
  are (word, weight, index in the document).
\<close>

type_synonym entry = "string \<times> nat \<times> nat"

record teaser_scan =
  ts_index :: nat
  ts_value :: nat
  ts_found :: bool
  ts_weighted :: "entry list"

definition searchterm_weight :: nat where
  "searchterm_weight = 40"

definition match_term :: "string \<Rightarrow> string \<Rightarrow> teaser_scan \<Rightarrow> teaser_scan" where
  \<comment> \<open>one round of the loop over the stemmed search terms, for a word whose stem is given\<close>
  "match_term stemmed t st =
     (if starts_with stemmed t then st\<lparr>ts_value := searchterm_weight, ts_found := True\<rparr> else st)"

definition weigh_word :: "(string \<Rightarrow> string) \<Rightarrow> string list \<Rightarrow> string \<Rightarrow> teaser_scan \<Rightarrow> teaser_scan" where
  "weigh_word stemmer terms w st =
     (let st1 =
        (if 0 < length w then
           (let st0 = fold (match_term (stemmer w)) terms st
            in st0\<lparr>ts_weighted := ts_weighted st0 @ [(w, ts_value st0, ts_index st0)],
                   ts_value := 2\<rparr>)
         else st)
      in st1\<lparr>ts_index := ts_index st1 + length w + 1\<rparr>)"

definition weigh_sentence ::
    "(string \<Rightarrow> string) \<Rightarrow> string list \<Rightarrow> string \<Rightarrow> teaser_scan \<Rightarrow> teaser_scan" where
  "weigh_sentence stemmer terms sentence st =
     (let st0 = fold (weigh_word stemmer terms) (js_split '' '' sentence) (st\<lparr>ts_value := 8\<rparr>)
      in st0\<lparr>ts_index := ts_index st0 + 1\<rparr>)"

definition weigh_body :: "(string \<Rightarrow> string) \<Rightarrow> string list \<Rightarrow> string \<Rightarrow> teaser_scan" where
  "weigh_body stemmer terms body =
     fold (weigh_sentence stemmer terms) (js_split ''. '' (to_lower body))
       \<lparr>ts_index = 0, ts_value = 0, ts_found = False, ts_weighted = []\<rparr>"

section \<open>The window\<close>

definition window_sums :: "nat \<Rightarrow> int list \<Rightarrow> int list" where
  \<comment> \<open>the running sum \<open>cur_sum\<close> over the first window, then moved word by word\<close>
  "window_sums n vs =
     (let cur = foldl (\<lambda>c i. c + vs ! i) 0 [0..<n]
      in snd (foldl (\<lambda>(c, acc) i. let c' = c - vs ! i + vs ! (i + n) in (c', acc @ [c']))
               (cur, [cur]) [0..<length vs - n]))"

definition best_window :: "int list \<Rightarrow> nat" where
  \<comment> \<open>the loop over \<open>window_weight\<close> from the last index down to 0, keeping a strictly greater sum\<close>
  "best_window ww =
     snd (foldl (\<lambda>(m, best) i. if ww ! i > m then (ww ! i, i) else (m, best))
           (0, 0) (rev [0..<length ww]))"

section \<open>Marking the terms\<close>

definition mark_word :: "string \<Rightarrow> nat \<times> string list \<Rightarrow> entry \<Rightarrow> nat \<times> string list" where
  \<comment> \<open>one round of the last loop: the text before the word, then the word, enclosed when it is a term\<close>
  "mark_word body st e =
     (case (st, e) of ((index, split), (w, v, p)) \<Rightarrow>
        let gap = (if index < p then [substring body index p] else []);
            word = substring body p (p + length w)
        in (p + length w,
            split @ gap @ (if v = searchterm_weight then [''<em>'', word, ''</em>''] else [word])))"

definition teaser_text :: "string \<Rightarrow> entry list \<Rightarrow> nat \<Rightarrow> nat \<Rightarrow> string" where
  \<comment> \<open>the text from the entry \<open>first\<close> on, \<open>window_size\<close> words long\<close>
  "teaser_text body weighted first window_size =
     (let start = (case weighted ! first of (w, v, p) \<Rightarrow> p)
      in concat (snd (foldl (\<lambda>s i. mark_word body s (weighted ! i)) (start, [])
                       [first..<first + window_size])))"

section \<open>The teaser\<close>

definition choose_window :: "nat \<Rightarrow> teaser_scan \<Rightarrow> nat \<times> nat" where
  \<comment> \<open>\<open>max_sum_window_index\<close> and \<open>window_size\<close>\<close>
  "choose_window teaser_word_count st =
     (let window_size = min (length (ts_weighted st)) teaser_word_count;
          window_weight = window_sums window_size (map (\<lambda>(w, v, p). int v) (ts_weighted st))
      in (if ts_found st then best_window window_weight else 0, window_size))"

definition makeTeaser :: "(string \<Rightarrow> string) \<Rightarrow> nat \<Rightarrow> string \<Rightarrow> string list \<Rightarrow> string" where
  "makeTeaser stemmer teaser_word_count body searchterms =
     (let stemmed = map (\<lambda>w. stemmer (to_lower w)) searchterms;
          st = weigh_body stemmer stemmed body;
          weighted = ts_weighted st
      in if length weighted = 0 then body
         else let (first, window_size) = choose_window teaser_word_count st
              in teaser_text body weighted first window_size)"

section \<open>A result as a list item\<close>

record search_doc =
  doc_body :: string
  doc_breadcrumbs :: string

record search_result =
  sr_ref :: nat
  sr_doc :: search_doc

definition encode_searchterms :: "string list \<Rightarrow> string" where
  "encode_searchterms searchterms =
     replace_all (CHR 0x27) ''%27'' (encodeURIComponent (js_join '' '' searchterms))"

definition formatSearchResult ::
    "(string \<Rightarrow> string) \<Rightarrow> nat \<Rightarrow> string list \<Rightarrow> string \<Rightarrow> nat \<Rightarrow> search_result \<Rightarrow> string list
     \<Rightarrow> js_error + (string \<times> nat)" where
  \<comment> \<open>the HTML and the new \<open>teaser_count\<close>; a reference outside \<open>doc_urls\<close> reads \<open>undefined\<close>, and its
    \<open>.split\<close> throws, after the counter has moved\<close>
  "formatSearchResult stemmer twc doc_urls path_to_root teaser_count result searchterms =
     (let teaser = makeTeaser stemmer twc (escapeHTML (doc_body (sr_doc result))) searchterms;
          count = teaser_count + 1
      in if length doc_urls \<le> sr_ref result then Inl TypeError
         else
           let url0 = js_split ''#'' (doc_urls ! sr_ref result);
               url = (if length url0 = 1 then url0 @ [[]] else url0);
               encoded_search = encode_searchterms searchterms;
               q = [CHR 0x22]
           in Inr (''<a href='' @ q @ path_to_root @ url ! 0 @ ''?highlight='' @ encoded_search
                   @ ''#'' @ url ! 1 @ q @ '' aria-details='' @ q @ ''mdbook-teaser_''
                   @ string_of_nat count @ q @ ''>'' @ doc_breadcrumbs (sr_doc result) @ ''</a>''
                   @ ''<span class='' @ q @ ''teaser'' @ q @ '' id='' @ q @ ''mdbook-teaser_''
                   @ string_of_nat count @ q @ '' aria-label='' @ q @ ''Search Result Teaser'' @ q
                   @ ''>'' @ teaser @ ''</span>'', count))"

section \<open>The words are where the scan says\<close>

lemma match_terms_frame [simp]:
  "ts_index (fold (match_term u) ts st) = ts_index st"
  "ts_weighted (fold (match_term u) ts st) = ts_weighted st"
  by (rule fold_frame, simp add: match_term_def)+

lemma match_terms_value:
  "ts_value (fold (match_term u) ts st) =
     (if \<exists>t \<in> set ts. starts_with u t then searchterm_weight else ts_value st)"
  by (induction ts arbitrary: st) (auto simp: match_term_def)

lemma match_terms_found:
  "ts_found (fold (match_term u) ts st) \<longleftrightarrow> ts_found st \<or> (\<exists>t \<in> set ts. starts_with u t)"
  by (induction ts arbitrary: st) (auto simp: match_term_def)

definition is_term :: "(string \<Rightarrow> string) \<Rightarrow> string list \<Rightarrow> string \<Rightarrow> bool" where
  "is_term stemmer terms w \<longleftrightarrow> (\<exists>t \<in> set terms. starts_with (stemmer w) t)"

text \<open>
  What holds of the entries while the text is scanned: each is a non-empty word that stands in the
  text at its index, before the point reached; its weight is that of a term exactly when it is one;
  the entries come in order and do not touch; \<open>searchterm_found\<close> says whether there is a term.
\<close>

definition entry_ok :: "(string \<Rightarrow> string) \<Rightarrow> string list \<Rightarrow> string \<Rightarrow> entry \<Rightarrow> bool" where
  "entry_ok stemmer terms tx e \<longleftrightarrow>
     (case e of (w, v, p) \<Rightarrow>
        w \<noteq> [] \<and> p + length w \<le> length tx \<and> substring tx p (p + length w) = w
        \<and> v \<in> {2, 8, searchterm_weight}
        \<and> (v = searchterm_weight \<longleftrightarrow> is_term stemmer terms w))"

fun entry_before :: "entry \<Rightarrow> entry \<Rightarrow> bool" where
  "entry_before (w, v, p) (w', v', p') \<longleftrightarrow> p + length w < p'"

definition scan_ok :: "(string \<Rightarrow> string) \<Rightarrow> string list \<Rightarrow> string \<Rightarrow> teaser_scan \<Rightarrow> bool" where
  "scan_ok stemmer terms tx st \<longleftrightarrow>
     (\<forall>e \<in> set (ts_weighted st). entry_ok stemmer terms tx e)
     \<and> sorted_wrt entry_before (ts_weighted st)
     \<and> (\<forall>(w, v, p) \<in> set (ts_weighted st). p + length w < ts_index st)
     \<and> ts_value st \<in> {0, 2, 8}
     \<and> (ts_found st \<longleftrightarrow> (\<exists>(w, v, p) \<in> set (ts_weighted st). v = searchterm_weight))"

lemma substring_here: "substring (pre @ w @ post) (length pre) (length pre + length w) = w"
  by (simp add: substring_le)

lemma weigh_word_ok:
  assumes ok: "scan_ok stemmer terms tx st" and tx: "tx = pre @ w @ post"
    and idx: "ts_index st = length pre" and val: "ts_value st \<in> {2, 8}"
  shows "scan_ok stemmer terms tx (weigh_word stemmer terms w st)
       \<and> ts_index (weigh_word stemmer terms w st) = length pre + length w + 1
       \<and> ts_value (weigh_word stemmer terms w st) \<in> {2, 8}"
proof (cases "w = []")
  case True
  with assms show ?thesis
    by (fastforce simp: weigh_word_def scan_ok_def)
next
  case False
  let ?v = "if is_term stemmer terms w then searchterm_weight else ts_value st"
  have w: "ts_weighted (weigh_word stemmer terms w st) = ts_weighted st @ [(w, ?v, length pre)]"
    "ts_index (weigh_word stemmer terms w st) = length pre + length w + 1"
    "ts_value (weigh_word stemmer terms w st) = 2"
    "ts_found (weigh_word stemmer terms w st) \<longleftrightarrow> ts_found st \<or> is_term stemmer terms w"
    using False idx
    by (simp_all add: weigh_word_def Let_def match_terms_value match_terms_found is_term_def)
  have new: "entry_ok stemmer terms tx (w, ?v, length pre)"
    using False val by (auto simp: entry_ok_def tx substring_here searchterm_weight_def)
  have before: "\<forall>e \<in> set (ts_weighted st). entry_before e (w, ?v, length pre)"
    using ok idx by (auto simp: scan_ok_def)
  have found: "ts_found st \<longleftrightarrow> (\<exists>(w, v, p) \<in> set (ts_weighted st). v = searchterm_weight)"
    using ok by (simp add: scan_ok_def)
  have "scan_ok stemmer terms tx (weigh_word stemmer terms w st)"
    unfolding scan_ok_def w found
    using ok new before idx val
    by (auto simp: scan_ok_def sorted_wrt_append searchterm_weight_def)
  with w show ?thesis by simp
qed

lemma weigh_words_ok:
  assumes "scan_ok stemmer terms tx st" "tx = pre @ js_join '' '' ws @ post" "ws \<noteq> []"
    and "ts_index st = length pre" "ts_value st \<in> {2, 8}"
  shows "scan_ok stemmer terms tx (fold (weigh_word stemmer terms) ws st)
       \<and> ts_index (fold (weigh_word stemmer terms) ws st) = length pre + length (js_join '' '' ws) + 1
       \<and> ts_value (fold (weigh_word stemmer terms) ws st) \<in> {2, 8}"
  using assms
proof (induction ws arbitrary: st pre)
  case Nil
  then show ?case by simp
next
  case (Cons w ws)
  let ?st = "weigh_word stemmer terms w st"
  show ?case
  proof (cases "ws = []")
    case True
    with Cons.prems show ?thesis
      using weigh_word_ok [of stemmer terms tx st pre w post] by simp
  next
    case False
    with Cons.prems(2) have tx: "tx = pre @ w @ '' '' @ js_join '' '' ws @ post"
      by (simp add: js_join_Cons)
    then have one: "scan_ok stemmer terms tx ?st \<and> ts_index ?st = length pre + length w + 1
        \<and> ts_value ?st \<in> {2, 8}"
      using Cons.prems by (intro weigh_word_ok [where post = "'' '' @ js_join '' '' ws @ post"]) auto
    with Cons.IH [of ?st "pre @ w @ '' ''"] tx False show ?thesis
      by (simp add: js_join_Cons)
  qed
qed

lemma weigh_sentence_ok:
  assumes ok: "scan_ok stemmer terms tx st" and tx: "tx = pre @ s @ post"
    and idx: "ts_index st = length pre"
  shows "scan_ok stemmer terms tx (weigh_sentence stemmer terms s st)
       \<and> ts_index (weigh_sentence stemmer terms s st) = length pre + length s + 2"
proof -
  let ?st = "st\<lparr>ts_value := 8\<rparr>"
  let ?r = "fold (weigh_word stemmer terms) (js_split '' '' s) ?st"
  have "scan_ok stemmer terms tx ?st" using ok by (simp add: scan_ok_def)
  then have r: "scan_ok stemmer terms tx ?r \<and> ts_index ?r = length pre + length s + 1
      \<and> ts_value ?r \<in> {2, 8}"
    using weigh_words_ok [of stemmer terms tx ?st pre "js_split '' '' s" post] tx idx
    by (simp add: join_split)
  then show ?thesis
    by (fastforce simp: weigh_sentence_def scan_ok_def Let_def)
qed

lemma weigh_sentences_ok:
  assumes "scan_ok stemmer terms tx st" "tx = pre @ js_join ''. '' ss" "ss \<noteq> []"
    and "ts_index st = length pre"
  shows "scan_ok stemmer terms tx (fold (weigh_sentence stemmer terms) ss st)"
  using assms
proof (induction ss arbitrary: st pre)
  case Nil
  then show ?case by simp
next
  case (Cons s ss)
  let ?st = "weigh_sentence stemmer terms s st"
  show ?case
  proof (cases "ss = []")
    case True
    with Cons.prems show ?thesis
      using weigh_sentence_ok [of stemmer terms tx st pre s "[]"] by simp
  next
    case False
    with Cons.prems(2) have tx: "tx = pre @ s @ ''. '' @ js_join ''. '' ss"
      by (simp add: js_join_Cons)
    then have "scan_ok stemmer terms tx ?st \<and> ts_index ?st = length pre + length s + 2"
      using Cons.prems by (intro weigh_sentence_ok) auto
    with Cons.IH [of ?st "pre @ s @ ''. ''"] tx False show ?thesis by simp
  qed
qed

lemma weigh_body_ok: "scan_ok stemmer terms (to_lower body) (weigh_body stemmer terms body)"
  unfolding weigh_body_def
  by (rule weigh_sentences_ok [where pre = "[]"])
    (simp_all add: join_split scan_ok_def)

section \<open>The window is the heaviest, and the last of those\<close>

lemma first_sum: "n \<le> length vs \<Longrightarrow> foldl (\<lambda>c i. c + vs ! i) 0 [0..<n] = sum_list (take n vs)"
  for vs :: "int list"
  by (induction n) (auto simp: take_Suc_conv_app_nth)

lemma next_sum:
  fixes vs :: "int list"
  assumes "k + n < length vs"
  shows "sum_list (take n (drop (Suc k) vs)) = sum_list (take n (drop k vs)) - vs ! k + vs ! (k + n)"
proof -
  have "sum_list (take (Suc n) (drop k vs)) = vs ! k + sum_list (take n (drop (Suc k) vs))"
    using assms by (simp add: Cons_nth_drop_Suc [symmetric])
  moreover have "sum_list (take (Suc n) (drop k vs)) = sum_list (take n (drop k vs)) + vs ! (k + n)"
    using assms by (simp add: take_Suc_conv_app_nth)
  ultimately show ?thesis by simp
qed

lemma window_sums_eq:
  assumes "n \<le> length vs"
  shows "window_sums n vs = map (\<lambda>i. sum_list (take n (drop i vs))) [0..<length vs - n + 1]"
proof -
  let ?f = "\<lambda>(c, acc) i. let c' = c - vs ! i + vs ! (i + n) in (c', acc @ [c'])"
  let ?S = "\<lambda>i. sum_list (take n (drop i vs))"
  have "k \<le> length vs - n \<Longrightarrow> foldl ?f (?S 0, [?S 0]) [0..<k] = (?S k, map ?S [0..<k + 1])" for k
    by (induction k) (auto simp: next_sum Let_def)
  from this [of "length vs - n"] assms show ?thesis
    by (simp add: window_sums_def first_sum)
qed

lemma best_window_fold:
  fixes ww :: "int list"
  assumes "foldl (\<lambda>(m, best) i. if ww ! i > m then (ww ! i, i) else (m, best)) (m, b) (rev [0..<k])
      = (m', b')"
  shows "(m' = m \<and> b' = b \<and> (\<forall>i < k. ww ! i \<le> m))
     \<or> (m < m' \<and> b' < k \<and> ww ! b' = m' \<and> (\<forall>i < k. ww ! i \<le> m') \<and> (\<forall>i < k. b' < i \<longrightarrow> ww ! i < m'))"
  using assms
proof (induction k arbitrary: m b)
  case 0
  then show ?case by simp
next
  case (Suc k)
  show ?case
  proof (cases "ww ! k > m")
    case True
    with Suc.prems have "foldl (\<lambda>(m, best) i. if ww ! i > m then (ww ! i, i) else (m, best))
        (ww ! k, k) (rev [0..<k]) = (m', b')" by simp
    from Suc.IH [OF this] True show ?thesis by (auto simp: less_Suc_eq)
  next
    case False
    with Suc.prems have "foldl (\<lambda>(m, best) i. if ww ! i > m then (ww ! i, i) else (m, best))
        (m, b) (rev [0..<k]) = (m', b')" by simp
    from Suc.IH [OF this] False show ?thesis by (auto simp: less_Suc_eq)
  qed
qed

lemma best_window_max:
  assumes "j < length ww" "0 < ww ! j"
  shows "best_window ww < length ww \<and> (\<forall>i < length ww. ww ! i \<le> ww ! best_window ww)
       \<and> (\<forall>i < length ww. best_window ww < i \<longrightarrow> ww ! i < ww ! best_window ww)"
proof -
  obtain m' b' where r: "foldl (\<lambda>(m, best) i. if ww ! i > m then (ww ! i, i) else (m, best)) (0, 0)
      (rev [0..<length ww]) = (m', b')" by fastforce
  then have "best_window ww = b'" by (simp add: best_window_def)
  with best_window_fold [OF r] assms show ?thesis by fastforce
qed

lemma best_window_bound: "best_window ww < length ww \<or> best_window ww = 0"
proof -
  obtain m' b' where r: "foldl (\<lambda>(m, best) i. if ww ! i > m then (ww ! i, i) else (m, best)) (0, 0)
      (rev [0..<length ww]) = (m', b')" by fastforce
  then have "best_window ww = b'" by (simp add: best_window_def)
  with best_window_fold [OF r] show ?thesis by auto
qed

lemma choose_window_bounds:
  assumes "choose_window twc st = (m, n)"
  shows "m + n \<le> length (ts_weighted st)"
proof -
  let ?vs = "map (\<lambda>(w, v, p). int v) (ts_weighted st)"
  have n: "n = min (length ?vs) twc" and m: "m = 0 \<or> m = best_window (window_sums n ?vs)"
    using assms by (auto simp: choose_window_def Let_def)
  then have "length (window_sums n ?vs) = length ?vs - n + 1" by (simp add: window_sums_eq)
  with best_window_bound [of "window_sums n ?vs"] m have "m = 0 \<or> m < length ?vs - n + 1"
    by presburger
  with n show ?thesis by auto
qed

section \<open>The search terms in the link of a result\<close>

lemma encode_char_quote: "c \<noteq> CHR 0x27 \<Longrightarrow> CHR 0x27 \<notin> set (encode_char c)"
proof -
  assume c: "c \<noteq> CHR 0x27"
  have d: "hex_digit n \<noteq> CHR 0x27" if "n < 16" for n
    using hex_value_digit [OF that] by (auto simp: hex_value_def code_def split: if_splits)
  have b: "CHR 0x27 \<notin> set (percent_byte n)" if "n < 256" for n
  proof -
    from that have "n div 16 < 16" by simp
    then show ?thesis using d [of "n div 16"] d [of "n mod 16"] by (auto simp: percent_byte_def)
  qed
  have "code c div 64 < 4" using code_less [of c] by linarith
  then have "192 + code c div 64 < 256" "128 + code c mod 64 < 256" by simp_all
  then show ?thesis
    using c b [of "code c"] b [of "192 + code c div 64"] b [of "128 + code c mod 64"]
    by (auto simp: encode_char_def)
qed

lemma decode_quote_char:
  "decodeURIComponent s = Inr r \<Longrightarrow>
   decodeURIComponent (replace_all (CHR 0x27) ''%27'' (encode_char c) @ s) = Inr (c # r)"
proof (cases "c = CHR 0x27")
  case True
  assume "decodeURIComponent s = Inr r"
  moreover have "char_of (39::nat) = CHR 0x27" by code_simp
  ultimately show ?thesis using True
    by (simp add: encode_char_def uri_unreserved_def replace_all_def code_def hex_byte_def
        hex_value_def)
next
  case False
  assume "decodeURIComponent s = Inr r"
  with False show ?thesis
    using decode_encode_char by (simp add: encode_char_quote)
qed

lemma decode_quoted: "decodeURIComponent (replace_all (CHR 0x27) ''%27'' (encodeURIComponent s)) = Inr s"
proof (induction s)
  case Nil
  then show ?case by (simp add: encodeURIComponent_def replace_all_def)
next
  case (Cons c s)
  from decode_quote_char [OF this, of c] show ?case
    by (simp add: encodeURIComponent_def replace_all_def)
qed

lemma encoded_no_quotes:
  "set (encode_searchterms terms) \<inter> {CHR 0x27, CHR 0x22, CHR ''<'', CHR ''>'', CHR ''#'', CHR ''&''} = {}"
proof -
  have d: "hex_digit n \<notin> {CHR 0x27, CHR 0x22, CHR ''<'', CHR ''>'', CHR ''#'', CHR ''&''}" if "n < 16" for n
    using hex_value_digit [OF that] by (auto simp: hex_value_def code_def split: if_splits)
  have b: "set (percent_byte n) \<inter> {CHR 0x27, CHR 0x22, CHR ''<'', CHR ''>'', CHR ''#'', CHR ''&''} = {}"
    if "n < 256" for n
  proof -
    from that have "n div 16 < 16" by simp
    then show ?thesis using d [of "n div 16"] d [of "n mod 16"] by (auto simp: percent_byte_def)
  qed
  have e: "set (encode_char c) \<inter> {CHR 0x22, CHR ''<'', CHR ''>'', CHR ''#'', CHR ''&''} = {}" for c
  proof -
    have "code c div 64 < 4" using code_less [of c] by linarith
    then have "192 + code c div 64 < 256" "128 + code c mod 64 < 256" by simp_all
    then show ?thesis
      using b [of "code c"] b [of "192 + code c div 64"] b [of "128 + code c mod 64"]
      by (auto simp: encode_char_def uri_unreserved_def code_def)
  qed
  show ?thesis
    using e by (fastforce simp: encode_searchterms_def replace_all_def encodeURIComponent_def
        split: if_splits)
qed

section \<open>Properties\<close>

text \<open>
  Escaping for display loses nothing and leaves no markup: the entities read back to the text,
  different texts have different escapes, and no angle bracket or quote survives.
\<close>

lemma escapeHTML_faithful:
  "unescapeHTML (escapeHTML s) = Some s
   \<and> (escapeHTML s = escapeHTML t \<longleftrightarrow> s = t)
   \<and> set (escapeHTML s) \<inter> {CHR ''<'', CHR ''>'', CHR 0x22, CHR 0x27} = {}"
  by (simp add: html.dec_enc html.enc_inject escape_no_markup)

text \<open>
  The scan finds the words where they are: every entry is a non-empty word that stands in the
  lower-cased body at its index, weighs 40 exactly when its stem starts with a stemmed search term
  and otherwise 2 or 8, and the entries come in the order of the text without touching.
\<close>

lemma weighted_words_located:
  assumes "ts_weighted (weigh_body stemmer terms body) = es"
    and "k < length es" and "es ! k = (w, v, p)"
  shows "w \<noteq> [] \<and> substring (to_lower body) p (p + length w) = w \<and> p + length w \<le> length body
    \<and> (v = 40 \<longleftrightarrow> (\<exists>t \<in> set terms. starts_with (stemmer w) t)) \<and> v \<in> {2, 8, 40}
    \<and> (\<forall>i < k. entry_before (es ! i) (w, v, p))"
proof -
  have ok: "scan_ok stemmer terms (to_lower body) (weigh_body stemmer terms body)"
    by (rule weigh_body_ok)
  have "(w, v, p) \<in> set es" using assms(2,3) by (metis nth_mem)
  with ok assms(1) have "entry_ok stemmer terms (to_lower body) (w, v, p)"
    by (auto simp: scan_ok_def)
  moreover have "sorted_wrt entry_before es" using ok assms(1) by (simp add: scan_ok_def)
  then have "\<forall>i < k. entry_before (es ! i) (w, v, p)"
    using assms(2,3) by (metis sorted_wrt_nth_less)
  ultimately show ?thesis
    by (auto simp: entry_ok_def searchterm_weight_def is_term_def)
qed

theorem weighted_words_located_witness:
  "substring (to_lower ''A cat. Sat'') 2 5 = ''cat''"
proof -
  have w: "ts_weighted (weigh_body (\<lambda>x. x) [''ca''] ''A cat. Sat'')
      = [(''a'', 8, 0), (''cat'', 40, 2), (''sat'', 8, 7)]"
    by code_simp
  from weighted_words_located [OF w, of 1 "''cat''" 40 2] show ?thesis by simp
qed

text \<open>
  What a result's link carries is what the page highlights: the search terms, joined, encoded
  and quoted into the link, decode to a text that splits into the same terms, and the encoded form
  holds no character that could end the attribute or the parameter.
\<close>

lemma highlight_roundtrip:
  "(case decodeURIComponent (encode_searchterms (js_split '' '' term)) of
      Inl e \<Rightarrow> False
    | Inr words \<Rightarrow> js_split '' '' words = js_split '' '' term)
   \<and> set (encode_searchterms (js_split '' '' term))
       \<inter> {CHR 0x27, CHR 0x22, CHR ''<'', CHR ''>'', CHR ''#'', CHR ''&''} = {}"
  unfolding encoded_no_quotes
  by (simp add: encode_searchterms_def decode_quoted join_split)

end
