(* ===== verification/Dom.thy ===== *)
theory Dom
  imports Js
begin

text \<open>
  The document the scripts work on, as a store with one map per property of an element, and the
  operations of the document interface the scripts call. An element the page's template names by
  its id is \<open>Named id\<close>; elements a script creates are numbered. Every operation is defined on any
  extension of the record, so a script's own variables live in an extension and reading them after
  an operation on the document simplifies by itself.
\<close>

section \<open>The store\<close>

datatype ref = Named string | Node nat

record dom =
  tag :: "ref \<Rightarrow> string"
  ident :: "ref \<Rightarrow> string"
  classes :: "ref \<Rightarrow> string list"
  attrs :: "ref \<Rightarrow> string \<Rightarrow> string option"
  kids :: "ref \<Rightarrow> ref list"
  par :: "ref \<Rightarrow> ref option"
  content :: "ref \<Rightarrow> string"
  display :: "ref \<Rightarrow> string"
  nodes :: "ref list"
  fresh :: nat

section \<open>Classes and attributes\<close>

definition has_class :: "'a dom_scheme \<Rightarrow> ref \<Rightarrow> string \<Rightarrow> bool" where
  \<comment> \<open>\<open>r.classList.contains(c)\<close>\<close>
  "has_class d r c \<longleftrightarrow> c \<in> set (classes d r)"

definition add_class :: "ref \<Rightarrow> string \<Rightarrow> 'a dom_scheme \<Rightarrow> 'a dom_scheme" where
  \<comment> \<open>\<open>r.classList.add(c)\<close>\<close>
  "add_class r c d =
     d\<lparr>classes := (classes d)(r := if c \<in> set (classes d r) then classes d r else classes d r @ [c])\<rparr>"

definition remove_class :: "ref \<Rightarrow> string \<Rightarrow> 'a dom_scheme \<Rightarrow> 'a dom_scheme" where
  \<comment> \<open>\<open>r.classList.remove(c)\<close>\<close>
  "remove_class r c d = d\<lparr>classes := (classes d)(r := filter (\<lambda>x. x \<noteq> c) (classes d r))\<rparr>"

definition toggle_class :: "ref \<Rightarrow> string \<Rightarrow> 'a dom_scheme \<Rightarrow> 'a dom_scheme" where
  \<comment> \<open>\<open>r.classList.toggle(c)\<close>\<close>
  "toggle_class r c d = (if has_class d r c then remove_class r c d else add_class r c d)"

definition set_classes :: "ref \<Rightarrow> string list \<Rightarrow> 'a dom_scheme \<Rightarrow> 'a dom_scheme" where
  \<comment> \<open>\<open>r.className = '...'\<close>, the class names as a list\<close>
  "set_classes r cs d = d\<lparr>classes := (classes d)(r := cs)\<rparr>"

definition set_attr :: "ref \<Rightarrow> string \<Rightarrow> string \<Rightarrow> 'a dom_scheme \<Rightarrow> 'a dom_scheme" where
  \<comment> \<open>\<open>r.setAttribute(a, v)\<close>\<close>
  "set_attr r a v d = d\<lparr>attrs := (attrs d)(r := (attrs d r)(a \<mapsto> v))\<rparr>"

definition set_content :: "ref \<Rightarrow> string \<Rightarrow> 'a dom_scheme \<Rightarrow> 'a dom_scheme" where
  \<comment> \<open>\<open>r.innerHTML = v\<close>, \<open>r.innerText = v\<close> or \<open>r.textContent = v\<close> on an element whose children the
    scripts do not look at\<close>
  "set_content r v d = d\<lparr>content := (content d)(r := v)\<rparr>"

definition set_display :: "ref \<Rightarrow> string \<Rightarrow> 'a dom_scheme \<Rightarrow> 'a dom_scheme" where
  \<comment> \<open>\<open>r.style.display = v\<close>\<close>
  "set_display r v d = d\<lparr>display := (display d)(r := v)\<rparr>"

definition set_ident :: "ref \<Rightarrow> string \<Rightarrow> 'a dom_scheme \<Rightarrow> 'a dom_scheme" where
  \<comment> \<open>\<open>r.id = v\<close>\<close>
  "set_ident r v d = d\<lparr>ident := (ident d)(r := v)\<rparr>"

section \<open>Structure\<close>

definition create_element :: "string \<Rightarrow> 'a dom_scheme \<Rightarrow> ref \<times> 'a dom_scheme" where
  \<comment> \<open>\<open>document.createElement(t)\<close>, \<open>t\<close> in the upper case \<open>tagName\<close> answers\<close>
  "create_element t d =
     (let r = Node (fresh d)
      in (r, d\<lparr>tag := (tag d)(r := t), ident := (ident d)(r := ''''), classes := (classes d)(r := []),
               attrs := (attrs d)(r := Map.empty), kids := (kids d)(r := []), par := (par d)(r := None),
               content := (content d)(r := ''''), display := (display d)(r := ''''),
               nodes := nodes d @ [r], fresh := Suc (fresh d)\<rparr>))"

definition remove_node :: "ref \<Rightarrow> 'a dom_scheme \<Rightarrow> 'a dom_scheme" where
  \<comment> \<open>\<open>r.remove()\<close>: out of its parent, when it has one\<close>
  "remove_node r d =
     (case par d r of
        None \<Rightarrow> d
      | Some p \<Rightarrow> d\<lparr>kids := (kids d)(p := filter (\<lambda>x. x \<noteq> r) (kids d p)), par := (par d)(r := None)\<rparr>)"

definition append_child :: "ref \<Rightarrow> ref \<Rightarrow> 'a dom_scheme \<Rightarrow> 'a dom_scheme" where
  \<comment> \<open>\<open>p.appendChild(r)\<close>: the node leaves its old place first\<close>
  "append_child p r d =
     (let d1 = remove_node r d
      in d1\<lparr>kids := (kids d1)(p := kids d1 p @ [r]), par := (par d1)(r := Some p)\<rparr>)"

fun insert_at :: "ref \<Rightarrow> ref option \<Rightarrow> ref list \<Rightarrow> ref list" where
  "insert_at r None xs = xs @ [r]"
| "insert_at r (Some b) [] = [r]"
| "insert_at r (Some b) (x # xs) = (if x = b then r # x # xs else x # insert_at r (Some b) xs)"

definition insert_before :: "ref \<Rightarrow> ref \<Rightarrow> ref option \<Rightarrow> 'a dom_scheme \<Rightarrow> 'a dom_scheme" where
  \<comment> \<open>\<open>p.insertBefore(r, b)\<close>, \<open>b\<close> a child of \<open>p\<close> or null\<close>
  "insert_before p r b d =
     (let d1 = remove_node r d
      in d1\<lparr>kids := (kids d1)(p := insert_at r b (kids d1 p)), par := (par d1)(r := Some p)\<rparr>)"

fun first_child :: "'a dom_scheme \<Rightarrow> ref \<Rightarrow> ref option" where
  "first_child d r = (case kids d r of [] \<Rightarrow> None | k # _ \<Rightarrow> Some k)"

fun last_child :: "'a dom_scheme \<Rightarrow> ref \<Rightarrow> ref option" where
  "last_child d r = (case rev (kids d r) of [] \<Rightarrow> None | k # _ \<Rightarrow> Some k)"

fun next_in :: "ref \<Rightarrow> ref list \<Rightarrow> ref option" where
  "next_in r (x # y # xs) = (if x = r then Some y else next_in r (y # xs))"
| "next_in r _ = None"

definition next_sibling :: "'a dom_scheme \<Rightarrow> ref \<Rightarrow> ref option" where
  \<comment> \<open>\<open>r.nextElementSibling\<close>\<close>
  "next_sibling d r = (case par d r of None \<Rightarrow> None | Some p \<Rightarrow> next_in r (kids d p))"

definition prev_sibling :: "'a dom_scheme \<Rightarrow> ref \<Rightarrow> ref option" where
  \<comment> \<open>\<open>r.previousElementSibling\<close>\<close>
  "prev_sibling d r = (case par d r of None \<Rightarrow> None | Some p \<Rightarrow> next_in r (rev (kids d p)))"

section \<open>Walking the tree\<close>

text \<open>
  The document tree has at most as many levels as it has nodes, so the number of nodes is the fuel
  of both walks; \<open>climb_complete\<close> below says that this is enough on a tree.
\<close>

fun climb :: "nat \<Rightarrow> 'a dom_scheme \<Rightarrow> ref option \<Rightarrow> ref list" where
  \<comment> \<open>the loop \<open>while (p) { ...; p = p.parentElement; }\<close>\<close>
  "climb 0 d p = []"
| "climb (Suc n) d None = []"
| "climb (Suc n) d (Some p) = p # climb n d (par d p)"

fun below :: "nat \<Rightarrow> 'a dom_scheme \<Rightarrow> ref \<Rightarrow> ref list" where
  \<comment> \<open>the descendants, in document order\<close>
  "below 0 d r = []"
| "below (Suc n) d r = concat (map (\<lambda>k. k # below n d k) (kids d r))"

definition ancestors :: "'a dom_scheme \<Rightarrow> ref \<Rightarrow> ref list" where
  \<comment> \<open>the parent, its parent, and so on up to the root\<close>
  "ancestors d r = climb (length (nodes d)) d (par d r)"

definition query_all :: "'a dom_scheme \<Rightarrow> ref \<Rightarrow> (ref \<Rightarrow> bool) \<Rightarrow> ref list" where
  \<comment> \<open>\<open>r.querySelectorAll(sel)\<close>, the selector as a test of an element\<close>
  "query_all d r sel = filter sel (below (length (nodes d)) d r)"

definition query_first :: "'a dom_scheme \<Rightarrow> ref \<Rightarrow> (ref \<Rightarrow> bool) \<Rightarrow> ref option" where
  \<comment> \<open>\<open>r.querySelector(sel)\<close>\<close>
  "query_first d r sel = List.find sel (below (length (nodes d)) d r)"

definition contains_node :: "'a dom_scheme \<Rightarrow> ref \<Rightarrow> ref \<Rightarrow> bool" where
  \<comment> \<open>\<open>p.contains(r)\<close>: the node itself or a descendant\<close>
  "contains_node d p r \<longleftrightarrow> r = p \<or> p \<in> set (ancestors d r)"

text \<open>An element that is there: a numbered one was created before.\<close>

definition known :: "'a dom_scheme \<Rightarrow> ref \<Rightarrow> bool" where
  "known d r \<longleftrightarrow> (\<forall>n. r = Node n \<longrightarrow> n < fresh d)"

section \<open>Reading after writing\<close>

lemma has_class_add [dom_simps, simp]:
  "has_class (add_class r c d) r' c' \<longleftrightarrow> r' = r \<and> c' = c \<or> has_class d r' c'"
  by (auto simp: has_class_def add_class_def)

lemma has_class_remove [dom_simps, simp]:
  "has_class (remove_class r c d) r' c' \<longleftrightarrow> has_class d r' c' \<and> \<not> (r' = r \<and> c' = c)"
  by (auto simp: has_class_def remove_class_def)

lemma has_class_toggle [dom_simps, simp]:
  "has_class (toggle_class r c d) r' c' \<longleftrightarrow>
     (if r' = r \<and> c' = c then \<not> has_class d r c else has_class d r' c')"
  by (auto simp: toggle_class_def)

lemma has_class_set [dom_simps, simp]:
  "has_class (set_classes r cs d) r' c \<longleftrightarrow> (if r' = r then c \<in> set cs else has_class d r' c)"
  by (auto simp: has_class_def set_classes_def)

lemma class_ops_frame [dom_simps, simp]:
  "kids (add_class r c d) = kids d" "par (add_class r c d) = par d" "attrs (add_class r c d) = attrs d"
  "content (add_class r c d) = content d" "display (add_class r c d) = display d"
  "tag (add_class r c d) = tag d" "ident (add_class r c d) = ident d" "fresh (add_class r c d) = fresh d"
  "nodes (add_class r c d) = nodes d" "dom.more (add_class r c d) = dom.more d"
  "kids (remove_class r c d) = kids d" "par (remove_class r c d) = par d" "attrs (remove_class r c d) = attrs d"
  "content (remove_class r c d) = content d" "display (remove_class r c d) = display d"
  "tag (remove_class r c d) = tag d" "ident (remove_class r c d) = ident d" "fresh (remove_class r c d) = fresh d"
  "nodes (remove_class r c d) = nodes d" "dom.more (remove_class r c d) = dom.more d"
  by (simp_all add: add_class_def remove_class_def)

lemma toggle_frame [dom_simps, simp]:
  "kids (toggle_class r c d) = kids d" "par (toggle_class r c d) = par d"
  "attrs (toggle_class r c d) = attrs d" "content (toggle_class r c d) = content d"
  "tag (toggle_class r c d) = tag d" "ident (toggle_class r c d) = ident d"
  "nodes (toggle_class r c d) = nodes d" "dom.more (toggle_class r c d) = dom.more d"
  by (simp_all add: toggle_class_def)

lemma set_attr_read [dom_simps, simp]:
  "attrs (set_attr r a v d) r' = (if r' = r then (attrs d r)(a \<mapsto> v) else attrs d r')"
  "has_class (set_attr r a v d) = has_class d" "classes (set_attr r a v d) = classes d"
  "kids (set_attr r a v d) = kids d" "par (set_attr r a v d) = par d" "tag (set_attr r a v d) = tag d"
  "content (set_attr r a v d) = content d" "display (set_attr r a v d) = display d"
  "ident (set_attr r a v d) = ident d" "nodes (set_attr r a v d) = nodes d"
  "fresh (set_attr r a v d) = fresh d" "dom.more (set_attr r a v d) = dom.more d"
  by (auto simp: set_attr_def has_class_def fun_eq_iff)

lemma set_content_read [dom_simps, simp]:
  "content (set_content r v d) r' = (if r' = r then v else content d r')"
  "has_class (set_content r v d) = has_class d" "classes (set_content r v d) = classes d"
  "attrs (set_content r v d) = attrs d" "tag (set_content r v d) = tag d"
  "kids (set_content r v d) = kids d" "par (set_content r v d) = par d"
  "display (set_content r v d) = display d" "ident (set_content r v d) = ident d"
  "nodes (set_content r v d) = nodes d" "fresh (set_content r v d) = fresh d"
  "dom.more (set_content r v d) = dom.more d"
  by (auto simp: set_content_def has_class_def fun_eq_iff)

lemma set_display_read [dom_simps, simp]:
  "display (set_display r v d) r' = (if r' = r then v else display d r')"
  "has_class (set_display r v d) = has_class d" "classes (set_display r v d) = classes d"
  "attrs (set_display r v d) = attrs d" "tag (set_display r v d) = tag d"
  "kids (set_display r v d) = kids d" "par (set_display r v d) = par d"
  "content (set_display r v d) = content d" "ident (set_display r v d) = ident d"
  "nodes (set_display r v d) = nodes d" "dom.more (set_display r v d) = dom.more d"
  by (auto simp: set_display_def has_class_def fun_eq_iff)

lemma has_class_update_more [simp]: "has_class (d\<lparr>dom.more := m\<rparr>) = has_class d"
  by (simp add: has_class_def fun_eq_iff)

lemma create_fst [simp]: "fst (create_element t d) = Node (fresh d)"
  by (simp add: create_element_def Let_def)

lemma create_writes:
  fixes d :: "'a dom_scheme" and t :: string
  defines "d' \<equiv> snd (create_element t d)" and "r \<equiv> Node (fresh d)"
  shows "tag d' = (tag d)(r := t)" "ident d' = (ident d)(r := '''')" "classes d' = (classes d)(r := [])"
    "attrs d' = (attrs d)(r := Map.empty)" "kids d' = (kids d)(r := [])" "par d' = (par d)(r := None)"
    "nodes d' = nodes d @ [r]" "fresh d' = Suc (fresh d)" "dom.more d' = dom.more d"
  by (simp_all add: create_element_def Let_def d'_def r_def)

lemma append_writes:
  assumes "par d r = None"
  shows "kids (append_child p r d) = (kids d)(p := kids d p @ [r])"
    "par (append_child p r d) = (par d)(r := Some p)"
    "tag (append_child p r d) = tag d" "ident (append_child p r d) = ident d"
    "classes (append_child p r d) = classes d" "attrs (append_child p r d) = attrs d"
    "nodes (append_child p r d) = nodes d" "fresh (append_child p r d) = fresh d"
    "dom.more (append_child p r d) = dom.more d"
  using assms by (simp_all add: append_child_def remove_node_def)

lemma tree_ops_frame:
  "classes (remove_node r d) = classes d" "attrs (remove_node r d) = attrs d" "tag (remove_node r d) = tag d"
  "content (remove_node r d) = content d" "nodes (remove_node r d) = nodes d" "fresh (remove_node r d) = fresh d"
  "has_class (remove_node r d) = has_class d"
  "classes (append_child p r d) = classes d" "attrs (append_child p r d) = attrs d" "tag (append_child p r d) = tag d"
  "content (append_child p r d) = content d" "nodes (append_child p r d) = nodes d" "fresh (append_child p r d) = fresh d"
  "has_class (append_child p r d) = has_class d"
  "classes (insert_before p r b d) = classes d" "attrs (insert_before p r b d) = attrs d" "tag (insert_before p r b d) = tag d"
  "content (insert_before p r b d) = content d" "nodes (insert_before p r b d) = nodes d" "fresh (insert_before p r b d) = fresh d"
  "has_class (insert_before p r b d) = has_class d"
  by (auto simp: remove_node_def append_child_def insert_before_def has_class_def fun_eq_iff Let_def
      split: option.split)

lemma set_classes_writes:
  "classes (set_classes r cs d) = (classes d)(r := cs)" "kids (set_classes r cs d) = kids d"
  "par (set_classes r cs d) = par d" "attrs (set_classes r cs d) = attrs d" "tag (set_classes r cs d) = tag d"
  "nodes (set_classes r cs d) = nodes d" "fresh (set_classes r cs d) = fresh d"
  by (simp_all add: set_classes_def)

text \<open>A new node in front of the others.\<close>

lemma insert_first:
  assumes "par d r = None"
  shows "kids (insert_before p r (first_child d p) d) = (kids d)(p := r # kids d p)"
    "par (insert_before p r (first_child d p) d) = (par d)(r := Some p)"
  using assms by (auto simp: insert_before_def remove_node_def Let_def split: list.split)

section \<open>The walks\<close>

lemma climb_frame:
  "par d' = par d \<Longrightarrow> climb n d' p = climb n d p"
proof (induction n arbitrary: p)
  case 0
  then show ?case by simp
next
  case (Suc n)
  then show ?case by (cases p) auto
qed

lemma below_frame: "kids d' = kids d \<Longrightarrow> below n d' r = below n d r"
  by (induction n arbitrary: r) auto

lemma query_all_frame:
  "kids d' = kids d \<Longrightarrow> nodes d' = nodes d \<Longrightarrow> query_all d' r sel = query_all d r sel"
  by (simp add: query_all_def below_frame [of d' d])

lemma ancestors_frame:
  "par d' = par d \<Longrightarrow> nodes d' = nodes d \<Longrightarrow> ancestors d' r = ancestors d r"
  by (simp add: ancestors_def climb_frame [of d' d])

text \<open>A rank that falls from each node to its parent, below the number of nodes: a finite tree.\<close>

definition ranked :: "'a dom_scheme \<Rightarrow> (ref \<Rightarrow> nat) \<Rightarrow> bool" where
  "ranked d h \<longleftrightarrow> (\<forall>r p. par d r = Some p \<longrightarrow> h p < h r) \<and> (\<forall>r. h r < length (nodes d))"

lemma climb_complete:
  assumes "ranked d h" "par d r = Some p" "h p < n"
  shows "p \<in> set (climb n d (Some p)) \<and> (\<forall>q. par d p = Some q \<longrightarrow> q \<in> set (climb n d (Some p)))"
proof -
  from assms(3) obtain m where m: "n = Suc m" by (cases n) auto
  have "q \<in> set (climb m d (par d p))" if q: "par d p = Some q" for q
  proof -
    from assms(1) q have "h q < h p" by (auto simp: ranked_def)
    with assms(3) m obtain k where "m = Suc k" by (cases m) auto
    with q show ?thesis by simp
  qed
  with m show ?thesis by simp
qed

lemma ancestors_Some:
  assumes rk: "ranked d h" and r: "par d r = Some p"
  shows "set (ancestors d r) = insert p (set (ancestors d p))"
proof -
  let ?N = "length (nodes d)"
  have more: "set (climb n d q) = set (climb m d q)"
    if "\<forall>x. q = Some x \<longrightarrow> h x < n \<and> h x < m" for n m q
    using that
  proof (induction n arbitrary: m q)
    case 0
    then show ?case by (cases m; cases q) auto
  next
    case (Suc n)
    show ?case
    proof (cases q)
      case None
      then show ?thesis by (cases m) auto
    next
      case (Some x)
      with Suc.prems obtain m' where m': "m = Suc m'" by (cases m) auto
      have "\<forall>y. par d x = Some y \<longrightarrow> h y < n \<and> h y < m'"
      proof (intro allI impI)
        fix y
        assume "par d x = Some y"
        then have "h y < h x" using rk by (auto simp: ranked_def)
        moreover have "h x < Suc n" "h x < Suc m'" using Suc.prems Some m' by auto
        ultimately show "h y < n \<and> h y < m'" by linarith
      qed
      from Suc.IH [OF this] Some m' show ?thesis by simp
    qed
  qed
  have "h p < h r" "h r < ?N" using rk r by (auto simp: ranked_def)
  then obtain N where N: "?N = Suc N" "h p < N" by (cases ?N) auto
  have "\<forall>x. par d p = Some x \<longrightarrow> h x < N \<and> h x < ?N"
    using rk N by (fastforce simp: ranked_def)
  then have "set (climb N d (par d p)) = set (climb ?N d (par d p))" by (rule more)
  with r N(1) show ?thesis by (simp add: ancestors_def)
qed

lemma concat_leaves: "\<forall>x \<in> set xs. f x = [] \<Longrightarrow> concat (map (\<lambda>k. k # f k) xs) = xs"
  by (induction xs) auto

lemma below_leaves:
  assumes "kids d r = xs" "\<forall>x \<in> set xs. kids d x = []" "0 < n"
  shows "below n d r = xs"
proof -
  from assms(3) obtain m where m: "n = Suc m" by (cases n) auto
  have "\<forall>x \<in> set xs. below m d x = []"
    using assms(2) by (cases m) auto
  with m assms(1) show ?thesis by (simp add: concat_leaves)
qed

lemma next_in_nth:
  "distinct xs \<Longrightarrow> i < length xs \<Longrightarrow>
     next_in (xs ! i) xs = (if Suc i < length xs then Some (xs ! Suc i) else None)"
proof (induction xs arbitrary: i)
  case Nil
  then show ?case by simp
next
  case (Cons x xs)
  show ?case
  proof (cases xs)
    case Nil
    with Cons.prems show ?thesis by simp
  next
    case (Cons y ys)
    show ?thesis
    proof (cases i)
      case 0
      with Cons show ?thesis by simp
    next
      case (Suc j)
      with Cons.prems have j: "j < length xs" "distinct xs" "x \<noteq> xs ! j" by auto
      from Cons.IH [OF j(2,1)] j(3) Suc Cons show ?thesis by auto
    qed
  qed
qed

lemma prev_in_nth:
  assumes "distinct xs" "i < length xs"
  shows "next_in (xs ! i) (rev xs) = (if 0 < i then Some (xs ! (i - 1)) else None)"
proof -
  let ?j = "length xs - Suc i"
  have "xs ! i = rev xs ! ?j" "?j < length (rev xs)" using assms(2) by (simp_all add: rev_nth)
  then have "next_in (xs ! i) (rev xs) = (if Suc ?j < length xs then Some (rev xs ! Suc ?j) else None)"
    using next_in_nth [of "rev xs" ?j] assms(1) by simp
  moreover have "rev xs ! Suc ?j = xs ! (i - 1)" if "0 < i"
  proof -
    have "length xs - Suc (Suc ?j) = i - 1" using that assms(2) by linarith
    then show ?thesis using that assms(2) by (simp add: rev_nth)
  qed
  ultimately show ?thesis using assms(2) by auto
qed

lemma climb_mono: "m \<le> n \<Longrightarrow> set (climb m d p) \<subseteq> set (climb n d p)"
proof (induction m arbitrary: n p)
  case (Suc m)
  then obtain k where "n = Suc k" "m \<le> k" by (cases n) auto
  then show ?case using Suc.IH [of k] by (cases p) auto
qed simp

end
