(* ===== verification/Browser.thy ===== *)
theory Browser
  imports Dom
begin

text \<open>
  The page around the document: the focused element, the address and the session history, the two
  storages, and the calls that leave the model (scrolling, following a link, third-party markers,
  timers), logged in order. \<open>platform\<close> holds what the browser computes: how it takes an address
  apart and how it resolves one.
\<close>

section \<open>What the browser computes\<close>

record anchor =
  a_protocol :: string
  a_hostname :: string
  a_port :: string
  a_search :: string
  a_pathname :: string
  a_hash :: string

record platform =
  anchor_of :: "string \<Rightarrow> anchor"
  resolve :: "string \<Rightarrow> string"
  select_focuses :: bool

section \<open>The page\<close>

datatype effect =
    PreventDefault
  | StopPropagation
  | ScrollTo0
  | SmoothScrollTo0
  | Selected ref
  | Follow ref
  | GoTo string
  | Mark "string list" "string list"
  | Unmark
  | StartTimer nat string
  | ConsoleError string
  | ScrollIntoView ref

record page = dom +
  focus :: "ref option"
  href :: string
  past :: "string list"
  future :: "string list"
  local_store :: "string \<Rightarrow> string option"
  session_store :: "string \<Rightarrow> string option"
  effects :: "effect list"

definition emit :: "effect \<Rightarrow> 'a page_scheme \<Rightarrow> 'a page_scheme" where
  "emit e p = p\<lparr>effects := effects p @ [e]\<rparr>"

definition focus_on :: "ref \<Rightarrow> 'a page_scheme \<Rightarrow> 'a page_scheme" where
  \<comment> \<open>\<open>r.focus()\<close>\<close>
  "focus_on r p = p\<lparr>focus := Some r\<rparr>"

definition select_text :: "platform \<Rightarrow> ref \<Rightarrow> 'a page_scheme \<Rightarrow> 'a page_scheme" where
  \<comment> \<open>\<open>r.select()\<close>: whether it moves the focus too is the browser's choice\<close>
  "select_text pl r p =
     (let p1 = emit (Selected r) p in if select_focuses pl then focus_on r p1 else p1)"

definition remove_focused :: "ref \<Rightarrow> 'a page_scheme \<Rightarrow> 'a page_scheme" where
  \<comment> \<open>\<open>r.remove()\<close> on an element that may hold the focus: the focus falls back to the body\<close>
  "remove_focused r p =
     (let p1 = remove_node r p in if focus p1 = Some r then p1\<lparr>focus := None\<rparr> else p1)"

definition push_state :: "platform \<Rightarrow> string \<Rightarrow> 'a page_scheme \<Rightarrow> 'a page_scheme" where
  \<comment> \<open>\<open>history.pushState({}, title, url)\<close>\<close>
  "push_state pl url p = p\<lparr>past := href p # past p, future := [], href := resolve pl url\<rparr>"

definition replace_state :: "platform \<Rightarrow> string \<Rightarrow> 'a page_scheme \<Rightarrow> 'a page_scheme" where
  \<comment> \<open>\<open>history.replaceState({}, title, url)\<close>\<close>
  "replace_state pl url p = p\<lparr>href := resolve pl url\<rparr>"

record key_event =
  key :: string
  alt_key :: bool
  ctrl_key :: bool
  meta_key :: bool
  shift_key :: bool
  key_target :: ref

section \<open>The root of the document\<close>

abbreviation "html_root \<equiv> Named ''html''"
abbreviation "html_head \<equiv> Named ''head''"
abbreviation "html_body \<equiv> Named ''body''"

definition by_id :: "'a dom_scheme \<Rightarrow> string \<Rightarrow> ref option" where
  \<comment> \<open>\<open>document.getElementById(id)\<close>\<close>
  "by_id d i = query_first d html_root (\<lambda>r. ident d r = i)"

section \<open>Links\<close>

definition link_href :: "platform \<Rightarrow> 'a dom_scheme \<Rightarrow> ref \<Rightarrow> string" where
  \<comment> \<open>\<open>link.href\<close>, the resolved address\<close>
  "link_href pl s link = (case attrs s link ''href'' of None \<Rightarrow> '''' | Some h \<Rightarrow> resolve pl h)"

section \<open>Frames\<close>

lemma page_frame [dom_simps, simp]:
  "focus (add_class r c d) = focus d" "href (add_class r c d) = href d" "past (add_class r c d) = past d" "future (add_class r c d) = future d" "local_store (add_class r c d) = local_store d" "session_store (add_class r c d) = session_store d" "effects (add_class r c d) = effects d"
  "focus (remove_class r c d) = focus d" "href (remove_class r c d) = href d" "past (remove_class r c d) = past d" "future (remove_class r c d) = future d" "local_store (remove_class r c d) = local_store d" "session_store (remove_class r c d) = session_store d" "effects (remove_class r c d) = effects d"
  "focus (toggle_class r c d) = focus d" "href (toggle_class r c d) = href d" "past (toggle_class r c d) = past d" "future (toggle_class r c d) = future d" "local_store (toggle_class r c d) = local_store d" "session_store (toggle_class r c d) = session_store d" "effects (toggle_class r c d) = effects d"
  "focus (set_classes r cs d) = focus d" "href (set_classes r cs d) = href d" "past (set_classes r cs d) = past d" "future (set_classes r cs d) = future d" "local_store (set_classes r cs d) = local_store d" "session_store (set_classes r cs d) = session_store d" "effects (set_classes r cs d) = effects d"
  "focus (set_attr r a v d) = focus d" "href (set_attr r a v d) = href d" "past (set_attr r a v d) = past d" "future (set_attr r a v d) = future d" "local_store (set_attr r a v d) = local_store d" "session_store (set_attr r a v d) = session_store d" "effects (set_attr r a v d) = effects d"
  "focus (set_content r v d) = focus d" "href (set_content r v d) = href d" "past (set_content r v d) = past d" "future (set_content r v d) = future d" "local_store (set_content r v d) = local_store d" "session_store (set_content r v d) = session_store d" "effects (set_content r v d) = effects d"
  "focus (set_display r v d) = focus d" "href (set_display r v d) = href d" "past (set_display r v d) = past d" "future (set_display r v d) = future d" "local_store (set_display r v d) = local_store d" "session_store (set_display r v d) = session_store d" "effects (set_display r v d) = effects d"
  "focus (set_ident r v d) = focus d" "href (set_ident r v d) = href d" "past (set_ident r v d) = past d" "future (set_ident r v d) = future d" "local_store (set_ident r v d) = local_store d" "session_store (set_ident r v d) = session_store d" "effects (set_ident r v d) = effects d"
  "focus (snd (create_element t d)) = focus d" "href (snd (create_element t d)) = href d" "past (snd (create_element t d)) = past d" "future (snd (create_element t d)) = future d" "local_store (snd (create_element t d)) = local_store d" "session_store (snd (create_element t d)) = session_store d" "effects (snd (create_element t d)) = effects d"
  "focus (append_child p r d) = focus d" "href (append_child p r d) = href d" "past (append_child p r d) = past d" "future (append_child p r d) = future d" "local_store (append_child p r d) = local_store d" "session_store (append_child p r d) = session_store d" "effects (append_child p r d) = effects d"
  "focus (remove_node r d) = focus d" "href (remove_node r d) = href d" "past (remove_node r d) = past d" "future (remove_node r d) = future d" "local_store (remove_node r d) = local_store d" "session_store (remove_node r d) = session_store d" "effects (remove_node r d) = effects d"
  "focus (insert_before p r b d) = focus d" "href (insert_before p r b d) = href d" "past (insert_before p r b d) = past d" "future (insert_before p r b d) = future d" "local_store (insert_before p r b d) = local_store d" "session_store (insert_before p r b d) = session_store d" "effects (insert_before p r b d) = effects d"
  by (simp_all add: add_class_def remove_class_def toggle_class_def set_classes_def set_attr_def
      set_content_def set_display_def set_ident_def create_element_def append_child_def
      remove_node_def insert_before_def Let_def split: option.split)

lemma page_ops_frame [dom_simps, simp]:
  "has_class (emit e p) = has_class p" "has_class (focus_on r p) = has_class p"
  "attrs (emit e p) = attrs p" "attrs (focus_on r p) = attrs p"
  "kids (emit e p) = kids p" "kids (focus_on r p) = kids p"
  "par (emit e p) = par p" "par (focus_on r p) = par p"
  "content (emit e p) = content p" "content (focus_on r p) = content p"
  "display (emit e p) = display p" "display (focus_on r p) = display p"
  "tag (emit e p) = tag p" "tag (focus_on r p) = tag p"
  "nodes (emit e p) = nodes p" "nodes (focus_on r p) = nodes p"
  "ident (emit e p) = ident p" "ident (focus_on r p) = ident p"
  "href (emit e p) = href p" "href (focus_on r p) = href p"
  "past (emit e p) = past p" "past (focus_on r p) = past p"
  "local_store (emit e p) = local_store p" "local_store (focus_on r p) = local_store p"
  "session_store (emit e p) = session_store p" "session_store (focus_on r p) = session_store p"
  "focus (emit e p) = focus p" "focus (focus_on r p) = Some r"
  "effects (emit e p) = effects p @ [e]" "effects (focus_on r p) = effects p"
  "page.more (emit e p) = page.more p" "page.more (focus_on r p) = page.more p"
  by (simp_all add: emit_def focus_on_def has_class_def fun_eq_iff)

lemma select_text_frame [dom_simps, simp]:
  "has_class (select_text pl r p) = has_class p" "attrs (select_text pl r p) = attrs p"
  "kids (select_text pl r p) = kids p" "par (select_text pl r p) = par p"
  "href (select_text pl r p) = href p" "past (select_text pl r p) = past p"
  "ident (select_text pl r p) = ident p" "nodes (select_text pl r p) = nodes p"
  "page.more (select_text pl r p) = page.more p"
  by (simp_all add: select_text_def Let_def)

lemma history_frame [dom_simps, simp]:
  "has_class (push_state pl u p) = has_class p" "has_class (replace_state pl u p) = has_class p"
  "attrs (push_state pl u p) = attrs p" "attrs (replace_state pl u p) = attrs p"
  "kids (push_state pl u p) = kids p" "kids (replace_state pl u p) = kids p"
  "par (push_state pl u p) = par p" "par (replace_state pl u p) = par p"
  "ident (push_state pl u p) = ident p" "ident (replace_state pl u p) = ident p"
  "focus (push_state pl u p) = focus p" "focus (replace_state pl u p) = focus p"
  "page.more (push_state pl u p) = page.more p" "page.more (replace_state pl u p) = page.more p"
  by (simp_all add: push_state_def replace_state_def has_class_def fun_eq_iff)

end
