(* ===== verification/Search_Url.thy ===== *)
theory Search_Url
  imports Browser
begin

text \<open>
  Addresses in the search script: \<open>parseURL\<close>, \<open>renderURL\<close> and \<open>setSearchUrlParameters\<close>. How the
  browser takes an address apart (the anchor element) is the parameter \<open>anchor_of\<close>; everything done
  with the pieces is modelled, the order in which an object lists its properties included.
\<close>

section \<open>Objects as parameter lists\<close>

text \<open>
  The object \<open>params\<close>: property names with their values in insertion order, \<open>None\<close> for the value
  \<open>undefined\<close>. Assigning to an existing name keeps its place. Assigning a text or \<open>undefined\<close> to
  \<open>__proto__\<close> adds no property.
\<close>

type_synonym params = "(string \<times> string option) list"

fun obj_set :: "string \<Rightarrow> string option \<Rightarrow> params \<Rightarrow> params" where
  "obj_set k v [] = (if k = ''__proto__'' then [] else [(k, v)])"
| "obj_set k v ((k', v') # ps) = (if k' = k then (k, v) # ps else (k', v') # obj_set k v ps)"

definition obj_delete :: "string \<Rightarrow> params \<Rightarrow> params" where
  \<comment> \<open>\<open>delete params[k]\<close>\<close>
  "obj_delete k ps = filter (\<lambda>(k', v). k' \<noteq> k) ps"

definition obj_has :: "string \<Rightarrow> params \<Rightarrow> bool" where
  \<comment> \<open>\<open>Object.prototype.hasOwnProperty.call(params, k)\<close>\<close>
  "obj_has k ps \<longleftrightarrow> k \<in> fst ` set ps"

definition is_index :: "string \<Rightarrow> bool" where
  \<comment> \<open>an array index: the decimal form of a number below \<open>2^32 - 1\<close>\<close>
  "is_index k \<longleftrightarrow>
     k \<noteq> [] \<and> list_all is_digit k
     \<and> (k = ''0'' \<or> hd k \<noteq> CHR ''0'') \<and> digits_value k < 4294967295"

definition for_in :: "params \<Rightarrow> params" where
  \<comment> \<open>the order of \<open>for (const prop in params)\<close>: indices ascending, then the other names as inserted\<close>
  "for_in ps =
     sort_key (\<lambda>(k, v). digits_value k) (filter (\<lambda>(k, v). is_index k) ps)
     @ filter (\<lambda>(k, v). \<not> is_index k) ps"

section \<open>Parsing and rendering\<close>

record url =
  u_source :: string
  u_protocol :: string
  u_host :: string
  u_port :: string
  u_params :: params
  u_file :: string
  u_hash :: string
  u_path :: string

definition parse_part :: "params \<Rightarrow> string \<Rightarrow> params" where
  \<comment> \<open>one round of the loop over the parts: \<open>ret[s[0]] = s[1]\<close>, \<open>undefined\<close> when there is no \<open>s[1]\<close>\<close>
  "parse_part ret part =
     (if part = [] then ret
      else let s = js_split ''='' part
           in obj_set (s ! 0) (if 1 < length s then Some (s ! 1) else None) ret)"

definition parse_params :: "string \<Rightarrow> params" where
  "parse_params search = foldl parse_part [] (js_split ''&'' (strip_leading (CHR ''?'') search))"

definition last_segment :: "string \<Rightarrow> string" where
  \<comment> \<open>\<open>(path.match(/\/([^/?#]+)$/i) || ['', ''])[1]\<close>\<close>
  "last_segment p =
     (let t = rev (takeWhile (\<lambda>c. c \<notin> {CHR ''/'', CHR ''?'', CHR ''#''}) (rev p));
          n = length p - length t
      in if t \<noteq> [] \<and> 0 < n \<and> p ! (n - 1) = CHR ''/'' then t else '''')"

definition parseURL :: "platform \<Rightarrow> string \<Rightarrow> url" where
  "parseURL pl address =
     (let a = anchor_of pl address
      in \<lparr>u_source = address,
          u_protocol = replace_first (CHR '':'') (a_protocol a),
          u_host = a_hostname a,
          u_port = a_port a,
          u_params = parse_params (a_search a),
          u_file = last_segment (a_pathname a),
          u_hash = replace_first (CHR ''#'') (a_hash a),
          u_path = (case a_pathname a of [] \<Rightarrow> [] | c # cs \<Rightarrow> if c = CHR ''/'' then c # cs else CHR ''/'' # c # cs)\<rparr>)"

definition value_text :: "string option \<Rightarrow> string" where
  \<comment> \<open>a value in a string concatenation\<close>
  "value_text v = (case v of None \<Rightarrow> ''undefined'' | Some s \<Rightarrow> s)"

definition render_params :: "params \<Rightarrow> string" where
  \<comment> \<open>the loop with \<open>joiner\<close>, a question mark first and an ampersand afterwards\<close>
  "render_params ps =
     fst (foldl (\<lambda>(u, joiner) (k, v). (u @ joiner @ k @ ''='' @ value_text v, ''&'')) ('''', ''?'')
            (for_in ps))"

definition renderURL :: "url \<Rightarrow> string" where
  "renderURL u =
     u_protocol u @ ''://'' @ u_host u
     @ (if u_port u \<noteq> '''' then '':'' @ u_port u else '''')
     @ u_path u @ render_params (u_params u)
     @ (if u_hash u \<noteq> '''' then ''#'' @ u_hash u else '''')"

section \<open>The search parameters of the address\<close>

datatype url_action = PushAction | ReplaceAction | PushIfNewSearchElseReplace

definition search_url :: "string \<Rightarrow> url_action \<Rightarrow> url \<Rightarrow> url" where
  "search_url searchterm action u =
     (if searchterm \<noteq> '''' \<or> action = PushIfNewSearchElseReplace then
        u\<lparr>u_params := obj_delete ''highlight'' (obj_set ''search'' (Some searchterm) (u_params u)),
          u_hash := ''''\<rparr>
      else
        u\<lparr>u_params := obj_delete ''search'' (obj_delete ''highlight'' (u_params u))\<rparr>)"

definition setSearchUrlParameters ::
    "platform \<Rightarrow> string \<Rightarrow> url_action \<Rightarrow> 'a page_scheme \<Rightarrow> 'a page_scheme" where
  "setSearchUrlParameters pl searchterm action p =
     (let u = parseURL pl (href p);
          first_search = (\<not> obj_has ''search'' (u_params u));
          target = renderURL (search_url searchterm action u)
      in if action = PushAction \<or> action = PushIfNewSearchElseReplace \<and> first_search
         then push_state pl target p
         else if action = ReplaceAction \<or> action = PushIfNewSearchElseReplace \<and> \<not> first_search
         then replace_state pl target p
         else p)"

section \<open>Facts about parameter lists\<close>

lemma keys_obj_set:
  "fst ` set (obj_set k v ps) = (if k = ''__proto__'' then fst ` set ps else insert k (fst ` set ps))"
proof (induction ps)
  case Nil
  then show ?case by simp
next
  case (Cons q ps)
  obtain k' v' where q: "q = (k', v')" by (cases q)
  with Cons show ?case
    by (cases "k' = k"; cases "k = ''__proto__''") (simp_all add: insert_commute)
qed

lemma obj_has_set [simp]:
  "obj_has k (obj_set k' v ps) \<longleftrightarrow> obj_has k ps \<or> k = k' \<and> k' \<noteq> ''__proto__''"
  by (auto simp: obj_has_def keys_obj_set)

lemma obj_has_delete [simp]: "obj_has k (obj_delete k' ps) \<longleftrightarrow> k \<noteq> k' \<and> obj_has k ps"
  by (auto simp: obj_has_def obj_delete_def)

lemma distinct_obj_set: "distinct (map fst ps) \<Longrightarrow> distinct (map fst (obj_set k v ps))"
  by (induction k v ps rule: obj_set.induct) (auto simp: keys_obj_set)

lemma obj_set_new: "k \<notin> fst ` set ps \<Longrightarrow> k \<noteq> ''__proto__'' \<Longrightarrow> obj_set k v ps = ps @ [(k, v)]"
  by (induction ps) auto

lemma map_of_obj_set:
  "k \<noteq> ''__proto__'' \<Longrightarrow> map_of (obj_set k v ps) = (map_of ps)(k \<mapsto> v)"
  by (induction ps) (auto simp: fun_eq_iff)

lemma map_of_obj_delete: "map_of (obj_delete k ps) = (map_of ps)(k := None)"
  by (induction ps) (auto simp: obj_delete_def fun_eq_iff)

lemma parse_params_distinct: "distinct (map fst (parse_params s))"
  unfolding parse_params_def
  by (rule foldl_invariant_list) (auto simp: parse_part_def Let_def intro: distinct_obj_set)

text \<open>
  A parameter that survives the trip through an address: its name is not empty, is no array index
  and not \<open>__proto__\<close>, name and value hold no delimiter, and the value is there.
\<close>

definition clean_param :: "string \<times> string option \<Rightarrow> bool" where
  "clean_param kv \<longleftrightarrow>
     (case kv of (k, v) \<Rightarrow>
        k \<noteq> [] \<and> \<not> is_index k \<and> k \<noteq> ''__proto__'' \<and> set k \<inter> {CHR ''&'', CHR ''=''} = {}
        \<and> (case v of None \<Rightarrow> False | Some s \<Rightarrow> set s \<inter> {CHR ''&'', CHR ''=''} = {}))"

definition param_text :: "string \<times> string option \<Rightarrow> string" where
  "param_text kv = fst kv @ ''='' @ value_text (snd kv)"

lemma for_in_clean: "list_all clean_param ps \<Longrightarrow> for_in ps = ps"
proof -
  assume "list_all clean_param ps"
  then have "filter (\<lambda>(k, v). is_index k) ps = []" "filter (\<lambda>(k, v). \<not> is_index k) ps = ps"
    by (induction ps) (auto simp: clean_param_def)
  then show ?thesis by (simp add: for_in_def)
qed

lemma render_fold:
  "fst (foldl (\<lambda>(u, joiner) (k, v). (u @ joiner @ k @ CHR ''='' # value_text v, ''&'')) (u0, ''&'') ps)
     = u0 @ concat (map (\<lambda>kv. ''&'' @ param_text kv) ps)"
  by (induction ps arbitrary: u0) (auto simp: param_text_def)

lemma js_join_append_hd: "js_join sep ((u @ w) # ws) = u @ js_join sep (w # ws)"
  by (cases ws) auto

lemma concat_join:
  "p @ concat (map (\<lambda>x. ''&'' @ f x) xs) = js_join ''&'' (p # map f xs)"
proof (induction xs arbitrary: p)
  case Nil
  then show ?case by simp
next
  case (Cons x xs)
  show ?case using Cons [of "f x"] by simp
qed

lemma render_params_eq:
  "render_params ps = (if for_in ps = [] then '''' else ''?'' @ js_join ''&'' (map param_text (for_in ps)))"
proof (cases "for_in ps")
  case Nil
  then show ?thesis by (simp add: render_params_def)
next
  case (Cons p qs)
  have "render_params ps = (''?'' @ param_text p) @ concat (map (\<lambda>x. ''&'' @ param_text x) qs)"
    using Cons by (cases p) (simp add: render_params_def render_fold, simp add: param_text_def)
  also have "\<dots> = ''?'' @ js_join ''&'' (param_text p # map param_text qs)"
    unfolding concat_join by (rule js_join_append_hd)
  finally show ?thesis using Cons by simp
qed

lemma parse_param_text:
  "clean_param kv \<Longrightarrow> fst kv \<notin> fst ` set ret \<Longrightarrow> parse_part ret (param_text kv) = ret @ [kv]"
proof (cases kv)
  case (Pair k v)
  assume c: "clean_param kv" and new: "fst kv \<notin> fst ` set ret"
  from c Pair obtain s where v: "v = Some s" by (auto simp: clean_param_def split: option.splits)
  with c Pair have "js_split ''='' (k @ CHR ''='' # s) = [k, s]"
    by (simp add: clean_param_def split_char_append split_char_single)
  with c new v Pair show ?thesis
    by (auto simp: parse_part_def param_text_def value_text_def clean_param_def obj_set_new)
qed

lemma parse_param_texts:
  "list_all clean_param ps \<Longrightarrow> distinct (map fst (ret @ ps)) \<Longrightarrow>
   foldl parse_part ret (map param_text ps) = ret @ ps"
proof (induction ps arbitrary: ret)
  case Nil
  then show ?case by simp
next
  case (Cons kv ps)
  then have "parse_part ret (param_text kv) = ret @ [kv]" by (intro parse_param_text) auto
  with Cons show ?case by simp
qed

lemma parse_render_params:
  assumes clean: "list_all clean_param ps" and dist: "distinct (map fst ps)"
  shows "parse_params (render_params ps) = ps"
proof (cases "ps = []")
  case True
  have "parse_params (render_params []) = []" by code_simp
  with True show ?thesis by simp
next
  case False
  have "\<forall>w \<in> set (map param_text ps). CHR ''&'' \<notin> set w"
    using clean by (fastforce simp: list_all_iff clean_param_def param_text_def value_text_def
        split: option.splits)
  with False have "js_split ''&'' (js_join ''&'' (map param_text ps)) = map param_text ps"
    by (intro split_join_char) auto
  with False show ?thesis
    using parse_param_texts [of ps "[]"] clean dist
    by (simp add: render_params_eq for_in_clean parse_params_def strip_leading_def)
qed

section \<open>How a browser takes an address apart\<close>

text \<open>
  The addresses of a book: an \<open>http\<close> or \<open>https\<close> address whose pieces hold only characters no browser
  rewrites, with a port that is not the default one. For these the standard fixes what the anchor
  element answers; \<open>standard_anchor\<close> states it of the browser, and \<open>split_address\<close> is a function that
  does it.
\<close>

definition lower_letter :: "char \<Rightarrow> bool" where
  "lower_letter c \<longleftrightarrow> 97 \<le> code c \<and> code c \<le> 122"

definition word_char :: "char \<Rightarrow> bool" where
  "word_char c \<longleftrightarrow> lower_letter c \<or> is_digit c \<or> 65 \<le> code c \<and> code c \<le> 90 \<or> c \<in> {CHR ''-'', CHR ''_''}"

definition plain_host :: "string \<Rightarrow> bool" where
  "plain_host h \<longleftrightarrow> list_all (\<lambda>l. l \<noteq> [] \<and> list_all lower_letter l) (js_split ''.'' h)"

definition plain_port :: "string \<Rightarrow> bool" where
  "plain_port p \<longleftrightarrow> p = [] \<or> list_all is_digit p \<and> hd p \<noteq> CHR ''0'' \<and> digits_value p < 65536
     \<and> digits_value p \<notin> {80, 443}"

definition plain_path :: "string \<Rightarrow> bool" where
  "plain_path p \<longleftrightarrow> p \<noteq> [] \<and> hd p = CHR ''/'' \<and> list_all (\<lambda>c. word_char c \<or> c \<in> {CHR ''/'', CHR ''.''}) p
     \<and> list_all (\<lambda>seg. seg \<notin> {''.'', ''..''}) (js_split ''/'' p)"

definition query_char :: "char \<Rightarrow> bool" where
  "query_char c \<longleftrightarrow> word_char c \<or> c \<in> {CHR ''='', CHR ''&'', CHR ''%'', CHR ''.''}"

definition standard_anchor :: "platform \<Rightarrow> bool" where
  "standard_anchor pl \<longleftrightarrow>
     (\<forall>pr ho po pa q ha. pr \<in> {''http'', ''https''} \<longrightarrow> plain_host ho \<longrightarrow> plain_port po \<longrightarrow> plain_path pa
        \<longrightarrow> list_all query_char q \<longrightarrow> list_all word_char ha
        \<longrightarrow> anchor_of pl (pr @ ''://'' @ ho @ (if po \<noteq> '''' then '':'' @ po else '''') @ pa
              @ (if q \<noteq> '''' then ''?'' @ q else '''') @ (if ha \<noteq> '''' then ''#'' @ ha else ''''))
            = \<lparr>a_protocol = pr @ '':'', a_hostname = ho, a_port = po,
               a_search = (if q \<noteq> '''' then ''?'' @ q else ''''), a_pathname = pa,
               a_hash = (if ha \<noteq> '''' then ''#'' @ ha else '''')\<rparr>)"

definition plain_address :: "url \<Rightarrow> bool" where
  "plain_address u \<longleftrightarrow>
     u_protocol u \<in> {''http'', ''https''} \<and> plain_host (u_host u) \<and> plain_port (u_port u)
     \<and> plain_path (u_path u) \<and> list_all word_char (u_hash u)
     \<and> list_all (\<lambda>(k, v). clean_param (k, v) \<and> list_all query_char k \<and> list_all query_char (value_text v)) (u_params u)
     \<and> distinct (map fst (u_params u))"

definition split_address :: "string \<Rightarrow> anchor" where
  "split_address s =
     (let pr = takeWhile (\<lambda>c. c \<noteq> CHR '':'') s;
          s1 = drop (length pr + 3) s;
          authority = takeWhile (\<lambda>c. c \<notin> {CHR ''/'', CHR ''?'', CHR ''#''}) s1;
          s2 = dropWhile (\<lambda>c. c \<notin> {CHR ''/'', CHR ''?'', CHR ''#''}) s1;
          ho = takeWhile (\<lambda>c. c \<noteq> CHR '':'') authority;
          s3 = dropWhile (\<lambda>c. c \<notin> {CHR ''?'', CHR ''#''}) s2
      in \<lparr>a_protocol = pr @ '':'', a_hostname = ho, a_port = drop (length ho + 1) authority,
          a_search = takeWhile (\<lambda>c. c \<noteq> CHR ''#'') s3,
          a_pathname = takeWhile (\<lambda>c. c \<notin> {CHR ''?'', CHR ''#''}) s2,
          a_hash = dropWhile (\<lambda>c. c \<noteq> CHR ''#'') s3\<rparr>)"

definition split_platform :: platform where
  "split_platform = \<lparr>anchor_of = split_address, resolve = (\<lambda>s. s), select_focuses = True\<rparr>"

lemma char_kinds:
  "lower_letter c \<Longrightarrow> c \<notin> {CHR '':'', CHR ''/'', CHR ''?'', CHR ''#'', CHR ''.''}"
  "is_digit c \<Longrightarrow> c \<notin> {CHR '':'', CHR ''/'', CHR ''?'', CHR ''#'', CHR ''.''}"
  "word_char c \<Longrightarrow> c \<notin> {CHR '':'', CHR ''/'', CHR ''?'', CHR ''#'', CHR ''.''}"
  "query_char c \<Longrightarrow> c \<noteq> CHR ''#''"
  by (auto simp: lower_letter_def word_char_def query_char_def is_digit_def code_def)

lemma js_split_chars:
  "list_all P (js_split [a] s) \<Longrightarrow> (\<And>w c. P w \<Longrightarrow> c \<in> set w \<Longrightarrow> Q c) \<Longrightarrow> Q a \<Longrightarrow> list_all Q s"
proof -
  assume all: "list_all P (js_split [a] s)" and PQ: "\<And>w c. P w \<Longrightarrow> c \<in> set w \<Longrightarrow> Q c" and a: "Q a"
  have join: "set (js_join [a] ws) \<subseteq> insert a (\<Union>(set ` set ws))" for ws
    by (induction "[a]" ws rule: js_join.induct) auto
  have "set s \<subseteq> insert a (\<Union>(set ` set (js_split [a] s)))"
    using join [of "js_split [a] s"] by (simp add: join_split)
  then show "list_all Q s" using all PQ a by (fastforce simp: list_all_iff)
qed

lemma plain_host_chars: "plain_host ho \<Longrightarrow> list_all (\<lambda>c. c \<notin> {CHR '':'', CHR ''/'', CHR ''?'', CHR ''#''}) ho"
  unfolding plain_host_def by (erule js_split_chars) (auto simp: list_all_iff dest: char_kinds)

lemma split_address_standard: "standard_anchor split_platform"
  unfolding standard_anchor_def
proof (intro allI impI)
  fix pr ho po pa q ha :: string
  assume pr: "pr \<in> {''http'', ''https''}" and ho: "plain_host ho" and po: "plain_port po"
    and pa: "plain_path pa" and q: "list_all query_char q" and ha: "list_all word_char ha"
  let ?po = "if po \<noteq> '''' then '':'' @ po else ''''" and ?q = "if q \<noteq> '''' then ''?'' @ q else ''''"
    and ?ha = "if ha \<noteq> '''' then ''#'' @ ha else ''''"
  let ?s1 = "ho @ ?po @ pa @ ?q @ ?ha"
  let ?s = "pr @ ''://'' @ ?s1"
  have s: "takeWhile (\<lambda>c. c \<noteq> CHR '':'') ?s = pr" "drop (length pr + 3) ?s = ?s1" using pr by auto
  have "list_all (\<lambda>c. c \<notin> {CHR ''/'', CHR ''?'', CHR ''#''}) (ho @ ?po)"
    using plain_host_chars [OF ho] po by (auto simp: list_all_iff plain_port_def dest: char_kinds)
  moreover have "hd (pa @ ?q @ ?ha) = CHR ''/''" using pa by (simp add: plain_path_def)
  ultimately have auth: "takeWhile (\<lambda>c. c \<notin> {CHR ''/'', CHR ''?'', CHR ''#''}) ?s1 = ho @ ?po"
    "dropWhile (\<lambda>c. c \<notin> {CHR ''/'', CHR ''?'', CHR ''#''}) ?s1 = pa @ ?q @ ?ha"
    using while_app [of "\<lambda>c. c \<notin> {CHR ''/'', CHR ''?'', CHR ''#''}" "ho @ ?po" "pa @ ?q @ ?ha"] by simp_all
  have host: "takeWhile (\<lambda>c. c \<noteq> CHR '':'') (ho @ ?po) = ho"
    using plain_host_chars [OF ho] by (intro while_app) (auto simp: list_all_iff)
  have "list_all (\<lambda>c. c \<notin> {CHR ''?'', CHR ''#''}) pa"
    using pa by (auto simp: plain_path_def list_all_iff dest: char_kinds)
  then have path: "takeWhile (\<lambda>c. c \<notin> {CHR ''?'', CHR ''#''}) (pa @ ?q @ ?ha) = pa"
    "dropWhile (\<lambda>c. c \<notin> {CHR ''?'', CHR ''#''}) (pa @ ?q @ ?ha) = ?q @ ?ha"
    by (intro while_app; simp)+
  have "list_all (\<lambda>c. c \<noteq> CHR ''#'') ?q" using q by (auto simp: list_all_iff dest: char_kinds)
  then have query: "takeWhile (\<lambda>c. c \<noteq> CHR ''#'') (?q @ ?ha) = ?q" "dropWhile (\<lambda>c. c \<noteq> CHR ''#'') (?q @ ?ha) = ?ha"
    by (intro while_app; simp)+
  show "anchor_of split_platform ?s = \<lparr>a_protocol = pr @ '':'', a_hostname = ho, a_port = po,
      a_search = ?q, a_pathname = pa, a_hash = ?ha\<rparr>"
    unfolding split_platform_def split_address_def Let_def platform.simps s auth host path query by simp
qed

lemma render_params_chars:
  assumes "list_all (\<lambda>(k, v). clean_param (k, v) \<and> list_all query_char k \<and> list_all query_char (value_text v)) ps"
  obtains q where "render_params ps = (if q \<noteq> '''' then ''?'' @ q else '''')" and "list_all query_char q"
proof -
  have clean: "list_all clean_param ps" using assms by (auto simp: list_all_iff)
  have "query_char (CHR ''&'')" "query_char (CHR ''='')" by (simp_all add: query_char_def)
  then have chars: "list_all query_char (param_text kv)" if "kv \<in> set ps" for kv
    using assms that by (cases kv) (auto simp: list_all_iff param_text_def)
  have join: "list_all query_char (js_join ''&'' ws)" if "\<And>w. w \<in> set ws \<Longrightarrow> list_all query_char w" for ws
    using that by (induction "''&''" ws rule: js_join.induct) (auto simp: query_char_def)
  let ?q = "js_join ''&'' (map param_text ps)"
  have "?q = '''' \<longleftrightarrow> ps = []"
    by (cases ps rule: remdups_adj.cases) (auto simp: param_text_def)
  then have "render_params ps = (if ?q \<noteq> '''' then ''?'' @ ?q else '''')"
    by (simp add: render_params_eq for_in_clean [OF clean])
  moreover have "list_all query_char ?q" using chars by (intro join) auto
  ultimately show thesis by (rule that)
qed

section \<open>Properties\<close>


definition example_url :: url where
  "example_url =
     \<lparr>u_source = '''', u_protocol = ''https'', u_host = ''rtic.rs'', u_port = '''',
      u_params = [(''search'', Some ''task''), (''v'', Some ''2'')], u_file = '''', u_hash = ''lock'',
      u_path = ''/dev/book.html''\<rparr>"


text \<open>
  What \<open>setSearchUrlParameters\<close> does to the address and the history: the \<open>highlight\<close> parameter
  is gone, \<open>search\<close> carries the term (or is gone when the term is empty and the action is not the
  one of typing), the other parameters are as they were; a new history entry is pushed exactly on
  \<open>push\<close> and on the first search, and otherwise the current one is replaced.
\<close>

lemma set_search_parameters:
  "map_of (u_params (search_url t a (parseURL pl (href p)))) =
     (map_of (u_params (parseURL pl (href p))))
       (''search'' := (if t = '''' \<and> a \<noteq> PushIfNewSearchElseReplace then None else Some (Some t)),
        ''highlight'' := None)
   \<and> href (setSearchUrlParameters pl t a p)
        = resolve pl (renderURL (search_url t a (parseURL pl (href p))))
   \<and> past (setSearchUrlParameters pl t a p) =
        (case a of
           PushAction \<Rightarrow> href p # past p
         | ReplaceAction \<Rightarrow> past p
         | PushIfNewSearchElseReplace \<Rightarrow>
             if obj_has ''search'' (u_params (parseURL pl (href p))) then past p else href p # past p)"
  by (cases a)
    (auto simp: search_url_def map_of_obj_set map_of_obj_delete setSearchUrlParameters_def
      Let_def push_state_def replace_state_def fun_eq_iff)

text \<open>
  A parameter without a value and a search term with an ampersand do not survive: the first
  comes back as the text "undefined", the second is cut at the ampersand, because nothing is
  encoded when the address is written.
\<close>

lemma url_parameters_not_encoded:
  "render_params (parse_params ''?draft'') = ''?draft=undefined''
   \<and> map_of (parse_params (render_params (obj_set ''search'' (Some ''a&b'') []))) ''search'' = Some (Some ''a'')"
  by code_simp

end
