(* ===== verification/Search_Ui.thy ===== *)
theory Search_Ui
  imports Search_Text Search_Url
begin

text \<open>
  The search box of \<open>searcher-c2a407aa.js\<close> as a state machine: the script's variables extend the
  page, every event listener is an operation, and a step runs one listener. What the third-party
  libraries compute (the index, its stemmer, the marks) is the parameter \<open>library\<close>.
\<close>

section \<open>State\<close>

record search_options =
  so_bool :: string
  so_expand :: bool
  so_title_boost :: nat
  so_body_boost :: nat
  so_breadcrumbs_boost :: nat

type_synonym search_index = "search_options \<Rightarrow> string \<Rightarrow> search_result list"

record results_options =
  teaser_word_count :: nat
  limit_results :: nat

record library =
  stemmer :: "string \<Rightarrow> string"
  load_index :: "string \<Rightarrow> search_index"
  marks_made :: "string list \<Rightarrow> ref list"

record config =
  cf_results_options :: results_options
  cf_search_options :: search_options
  cf_doc_urls :: "string list"
  cf_index :: string

record search = page +
  searchbar_value :: string
  current_searchterm :: string
  doc_urls :: "string list"
  search_opts :: search_options
  searchindex :: "search_index option"
  results_opts :: results_options
  teaser_count :: nat
  path_to_root :: string
  path_to_searchindex_js :: string
  mark_listeners :: "(ref \<times> ref list) list"

abbreviation "search_wrap \<equiv> Named ''mdbook-search-wrapper''"
abbreviation "searchbar_outer \<equiv> Named ''mdbook-searchbar-outer''"
abbreviation "searchbar \<equiv> Named ''mdbook-searchbar''"
abbreviation "searchresults \<equiv> Named ''mdbook-searchresults''"
abbreviation "searchresults_outer \<equiv> Named ''mdbook-searchresults-outer''"
abbreviation "searchresults_header \<equiv> Named ''mdbook-searchresults-header''"
abbreviation "searchicon \<equiv> Named ''mdbook-search-toggle''"

definition default_search_options :: search_options where
  "default_search_options =
     \<lparr>so_bool = ''AND'', so_expand = True, so_title_boost = 1, so_body_boost = 1,
      so_breadcrumbs_boost = 0\<rparr>"

definition default_results_options :: results_options where
  "default_results_options = \<lparr>teaser_word_count = 30, limit_results = 30\<rparr>"

text \<open>The script's variables when it starts, on a page already there.\<close>

definition start_search :: "page \<Rightarrow> string \<Rightarrow> string \<Rightarrow> string \<Rightarrow> search" where
  "start_search p value root index_path =
     page.extend p
       \<lparr>searchbar_value = value, current_searchterm = '''', doc_urls = [],
        search_opts = default_search_options, searchindex = None,
        results_opts = default_results_options, teaser_count = 0, path_to_root = root,
        path_to_searchindex_js = index_path, mark_listeners = []\<rparr>"

section \<open>Showing and hiding\<close>

definition hasFocus :: "'a page_scheme \<Rightarrow> bool" where
  "hasFocus s \<longleftrightarrow> focus s = Some searchbar"

definition removeChildren :: "ref \<Rightarrow> 'a dom_scheme \<Rightarrow> 'a dom_scheme" where
  \<comment> \<open>\<open>while (elem.firstChild) elem.removeChild(elem.firstChild)\<close>\<close>
  "removeChildren r d = fold remove_node (kids d r) d"

definition loadSearchScript :: "string \<Rightarrow> string \<Rightarrow> search \<Rightarrow> search" where
  "loadSearchScript url i s =
     (if by_id s i \<noteq> None then s
      else
        let s1 = add_class searchbar_outer ''searching'' s;
            (script, s2) = create_element ''SCRIPT'' s1;
            s3 = set_ident script i (set_attr script ''src'' url s2)
        in append_child html_head script s3)"

definition showSearch :: "bool \<Rightarrow> search \<Rightarrow> search" where
  "showSearch yes s =
     (if yes then
        let s1 = loadSearchScript
              (if path_to_searchindex_js s \<noteq> '''' then path_to_searchindex_js s
               else path_to_root s @ ''searchindex-8661117f.js'') ''mdbook-search-index'' s;
            s2 = remove_class search_wrap ''hidden'' s1
        in set_attr searchicon ''aria-expanded'' ''true'' s2
      else
        let s1 = add_class search_wrap ''hidden'' s;
            s2 = set_attr searchicon ''aria-expanded'' ''false'' s1
        in fold (\<lambda>li s. remove_class li ''focus'' s) (kids s2 searchresults) s2)"

definition showResults :: "bool \<Rightarrow> 'a dom_scheme \<Rightarrow> 'a dom_scheme" where
  "showResults yes s =
     (if yes then remove_class searchresults_outer ''hidden'' s
      else add_class searchresults_outer ''hidden'' s)"

definition unfocusSearchbar :: "'a page_scheme \<Rightarrow> 'a page_scheme" where
  "unfocusSearchbar s =
     (let (tmp, s1) = create_element ''INPUT'' s;
          s2 = set_attr tmp ''style'' ''position: absolute; opacity: 0;'' s1;
          s3 = append_child searchicon tmp s2;
          s4 = focus_on tmp s3
      in remove_focused tmp s4)"

section \<open>Searching\<close>

fun insert_results :: "library \<Rightarrow> string list \<Rightarrow> search_result list \<Rightarrow> search \<Rightarrow> search outcome" where
  \<comment> \<open>the loop over the results: a list item is created, filled and appended\<close>
  "insert_results lib terms [] s = Done s"
| "insert_results lib terms (r # rs) s =
     (let (li, s1) = create_element ''LI'' s
      in case formatSearchResult (stemmer lib) (teaser_word_count (results_opts s1)) (doc_urls s1)
             (path_to_root s1) (teaser_count s1) r terms of
           Inl e \<Rightarrow> Throws e (s1\<lparr>teaser_count := teaser_count s1 + 1\<rparr>)
         | Inr (h, n) \<Rightarrow>
             insert_results lib terms rs
               (append_child searchresults li (set_content li h (s1\<lparr>teaser_count := n\<rparr>))))"

definition doSearch :: "library \<Rightarrow> string \<Rightarrow> search \<Rightarrow> search outcome" where
  "doSearch lib searchterm s =
     (if current_searchterm s = searchterm then Done s
      else
        let s1 = add_class searchbar_outer ''searching'' s
        in case searchindex s1 of
             None \<Rightarrow> Done s1
           | Some index \<Rightarrow>
               let s2 = s1\<lparr>current_searchterm := searchterm\<rparr>;
                   results = index (search_opts s2) searchterm;
                   resultcount = min (length results) (limit_results (results_opts s2));
                   s3 = set_content searchresults_header (formatSearchMetric resultcount searchterm) s2;
                   searchterms = js_split '' '' searchterm;
                   s4 = removeChildren searchresults s3
               in and_then (insert_results lib searchterms (take resultcount results) s4)
                    (\<lambda>s5. Done (remove_class searchbar_outer ''searching'' (showResults True s5))))"

definition init_search :: "library \<Rightarrow> config \<Rightarrow> search \<Rightarrow> search outcome" where
  \<comment> \<open>\<open>init(config)\<close>, run when the index script has loaded\<close>
  "init_search lib cf s =
     (let s1 = s\<lparr>results_opts := cf_results_options cf, search_opts := cf_search_options cf,
                 doc_urls := cf_doc_urls cf, searchindex := Some (load_index lib (cf_index cf))\<rparr>;
          s2 = remove_class searchbar_outer ''searching'' s1;
          s3 = focus_on searchbar s2;
          searchterm = trim (searchbar_value s3)
      in if searchterm \<noteq> '''' then doSearch lib searchterm (add_class searchbar ''active'' s3)
         else Done s3)"

section \<open>The listeners\<close>

definition searchbarKeyUpHandler :: "library \<Rightarrow> platform \<Rightarrow> search \<Rightarrow> search outcome" where
  "searchbarKeyUpHandler lib pl s =
     (let searchterm = trim (searchbar_value s)
      in and_then
           (if searchterm \<noteq> '''' then doSearch lib searchterm (add_class searchbar ''active'' s)
            else Done (removeChildren searchresults (showResults False (remove_class searchbar ''active'' s))))
           (\<lambda>s1. Done (emit Unmark
              (setSearchUrlParameters pl searchterm PushIfNewSearchElseReplace s1))))"

definition searchIconClickHandler :: "platform \<Rightarrow> search \<Rightarrow> search" where
  "searchIconClickHandler pl s =
     (if has_class s search_wrap ''hidden'' then
        select_text pl searchbar (emit ScrollTo0 (showSearch True s))
      else showSearch False s)"

definition doSearchOrMarkFromUrl :: "library \<Rightarrow> platform \<Rightarrow> search \<Rightarrow> search outcome" where
  "doSearchOrMarkFromUrl lib pl s =
     (let ps = u_params (parseURL pl (href s));
          searched =
            (case map_of ps ''search'' of
               Some v \<Rightarrow>
                 if v \<noteq> Some '''' then
                   let s1 = showSearch True s
                   in (case decodeURIComponent (replace_all (CHR ''+'') ''%20'' (value_text v)) of
                         Inl e \<Rightarrow> Throws e s1
                       | Inr t \<Rightarrow> searchbarKeyUpHandler lib pl (s1\<lparr>searchbar_value := t\<rparr>))
                 else Done (showSearch False s)
             | None \<Rightarrow> Done (showSearch False s))
      in and_then searched
           (\<lambda>s2. case map_of ps ''highlight'' of
               None \<Rightarrow> Done s2
             | Some v \<Rightarrow>
                 (case decodeURIComponent (value_text v) of
                    Inl e \<Rightarrow> Throws e s2
                  | Inr t \<Rightarrow>
                      let words = js_split '' '' t;
                          s3 = emit (Mark words [''text'']) s2;
                          markers = marks_made lib words
                      in Done (s3\<lparr>mark_listeners := mark_listeners s3 @ map (\<lambda>m. (m, markers)) markers\<rparr>))))"

definition hide_marks :: "ref list \<Rightarrow> search \<Rightarrow> search" where
  \<comment> \<open>the listener \<open>hide\<close>, which closes over the markers found\<close>
  "hide_marks markers s =
     fold (\<lambda>m s. emit (StartTimer 300 ''unmark'') (add_class m ''fade-out'' s)) markers s"

definition mark_clicked :: "ref \<Rightarrow> search \<Rightarrow> search" where
  \<comment> \<open>every listener registered on the marker runs\<close>
  "mark_clicked m s =
     fold (\<lambda>(m', markers) s. if m' = m then hide_marks markers s else s) (mark_listeners s) s"

definition input_type :: "'a dom_scheme \<Rightarrow> ref \<Rightarrow> string" where
  \<comment> \<open>\<open>r.type\<close>: of a text area always the same, of an input without the attribute the default\<close>
  "input_type d r =
     (if tag d r = ''TEXTAREA'' then ''textarea''
      else case attrs d r ''type'' of
          None \<Rightarrow> if tag d r = ''INPUT'' then ''text'' else ''''
        | Some v \<Rightarrow> v)"

definition is_field :: "'a dom_scheme \<Rightarrow> ref \<Rightarrow> bool" where
  \<comment> \<open>\<open>/^(?:input|select|textarea)$/i.test(nodeName)\<close>\<close>
  "is_field d r \<longleftrightarrow> to_lower (tag d r) \<in> {''input'', ''select'', ''textarea''}"

definition key_ignored :: "key_event \<Rightarrow> 'a page_scheme \<Rightarrow> bool" where
  \<comment> \<open>the early return of \<open>globalKeyHandler\<close>\<close>
  "key_ignored e s \<longleftrightarrow>
     alt_key e \<or> ctrl_key e \<or> meta_key e \<or> shift_key e
     \<or> input_type s (key_target e) = ''textarea'' \<or> input_type s (key_target e) = ''text''
     \<or> \<not> hasFocus s \<and> is_field s (key_target e)"

definition focused_result :: "'a dom_scheme \<Rightarrow> ref option" where
  \<comment> \<open>\<open>searchresults.querySelector('li.focus')\<close>\<close>
  "focused_result s =
     query_first s searchresults (\<lambda>r. tag s r = ''LI'' \<and> has_class s r ''focus'')"

definition globalKeyHandler :: "platform \<Rightarrow> key_event \<Rightarrow> search \<Rightarrow> search" where
  "globalKeyHandler pl e s =
     (if key_ignored e s then s
      else if key e = ''Escape'' then
        let s1 = remove_class searchbar ''active'' (emit PreventDefault s);
            s2 = setSearchUrlParameters pl ''''
                   (if trim (searchbar_value s1) \<noteq> '''' then PushAction else ReplaceAction) s1;
            s3 = (if hasFocus s2 then unfocusSearchbar s2 else s2)
        in emit Unmark (showSearch False s3)
      else if \<not> hasFocus s \<and> (key e = ''s'' \<or> key e = ''/'') then
        select_text pl searchbar (emit ScrollTo0 (showSearch True (emit PreventDefault s)))
      else if hasFocus s \<and> (key e = ''ArrowDown'' \<or> key e = ''Enter'') then
        let s1 = emit PreventDefault s
        in case first_child s1 searchresults of
             None \<Rightarrow> s1
           | Some first \<Rightarrow>
               let s2 = add_class first ''focus'' (unfocusSearchbar s1)
               in if key e = ''Enter'' then emit (Follow first) s2 else s2
      else if \<not> hasFocus s \<and> (key e = ''ArrowDown'' \<or> key e = ''ArrowUp'' \<or> key e = ''Enter'') then
        case focused_result s of
          None \<Rightarrow> s
        | Some focused \<Rightarrow>
            let s1 = emit PreventDefault s
            in if key e = ''ArrowDown'' then
                 (case next_sibling s1 focused of
                    Some nxt \<Rightarrow> add_class nxt ''focus'' (remove_class focused ''focus'' s1)
                  | None \<Rightarrow> s1)
               else if key e = ''ArrowUp'' then
                 let s2 = remove_class focused ''focus'' s1
                 in (case prev_sibling s2 focused of
                       Some prv \<Rightarrow> add_class prv ''focus'' s2
                     | None \<Rightarrow> select_text pl searchbar s2)
               else emit (Follow focused) s1
      else s)"

section \<open>Events and steps\<close>

datatype search_event =
    IconClick
  | KeyUp string
  | KeyDown key_event
  | PopState string
  | IndexLoaded config
  | IndexFailed string
  | MarkClick ref
  | MarkTimer
  | UserFocus "ref option"

fun search_step :: "library \<Rightarrow> platform \<Rightarrow> search_event \<Rightarrow> search \<Rightarrow> search" where
  "search_step lib pl IconClick s = searchIconClickHandler pl s"
| "search_step lib pl (KeyUp v) s = final (searchbarKeyUpHandler lib pl (s\<lparr>searchbar_value := v\<rparr>))"
| "search_step lib pl (KeyDown e) s = globalKeyHandler pl e s"
| "search_step lib pl (PopState h) s = final (doSearchOrMarkFromUrl lib pl (s\<lparr>href := h\<rparr>))"
| "search_step lib pl (IndexLoaded cf) s = final (init_search lib cf s)"
| "search_step lib pl (IndexFailed msg) s = emit (ConsoleError msg) s"
| "search_step lib pl (MarkClick m) s = mark_clicked m s"
| "search_step lib pl MarkTimer s = emit Unmark s"
| "search_step lib pl (UserFocus f) s = s\<lparr>focus := f\<rparr>"

definition initSearchInteractions :: "library \<Rightarrow> platform \<Rightarrow> search \<Rightarrow> search" where
  \<comment> \<open>the listeners are the steps above; what runs at once is the reaction to the address\<close>
  "initSearchInteractions lib pl s = final (doSearchOrMarkFromUrl lib pl s)"

section \<open>Frames\<close>

lemma search_frame [dom_simps, simp]:
  "searchbar_value (add_class r c d) = searchbar_value d" "current_searchterm (add_class r c d) = current_searchterm d" "doc_urls (add_class r c d) = doc_urls d" "search_opts (add_class r c d) = search_opts d" "searchindex (add_class r c d) = searchindex d" "results_opts (add_class r c d) = results_opts d" "teaser_count (add_class r c d) = teaser_count d" "path_to_root (add_class r c d) = path_to_root d" "path_to_searchindex_js (add_class r c d) = path_to_searchindex_js d" "mark_listeners (add_class r c d) = mark_listeners d"
  "searchbar_value (remove_class r c d) = searchbar_value d" "current_searchterm (remove_class r c d) = current_searchterm d" "doc_urls (remove_class r c d) = doc_urls d" "search_opts (remove_class r c d) = search_opts d" "searchindex (remove_class r c d) = searchindex d" "results_opts (remove_class r c d) = results_opts d" "teaser_count (remove_class r c d) = teaser_count d" "path_to_root (remove_class r c d) = path_to_root d" "path_to_searchindex_js (remove_class r c d) = path_to_searchindex_js d" "mark_listeners (remove_class r c d) = mark_listeners d"
  "searchbar_value (toggle_class r c d) = searchbar_value d" "current_searchterm (toggle_class r c d) = current_searchterm d" "doc_urls (toggle_class r c d) = doc_urls d" "search_opts (toggle_class r c d) = search_opts d" "searchindex (toggle_class r c d) = searchindex d" "results_opts (toggle_class r c d) = results_opts d" "teaser_count (toggle_class r c d) = teaser_count d" "path_to_root (toggle_class r c d) = path_to_root d" "path_to_searchindex_js (toggle_class r c d) = path_to_searchindex_js d" "mark_listeners (toggle_class r c d) = mark_listeners d"
  "searchbar_value (set_classes r cs d) = searchbar_value d" "current_searchterm (set_classes r cs d) = current_searchterm d" "doc_urls (set_classes r cs d) = doc_urls d" "search_opts (set_classes r cs d) = search_opts d" "searchindex (set_classes r cs d) = searchindex d" "results_opts (set_classes r cs d) = results_opts d" "teaser_count (set_classes r cs d) = teaser_count d" "path_to_root (set_classes r cs d) = path_to_root d" "path_to_searchindex_js (set_classes r cs d) = path_to_searchindex_js d" "mark_listeners (set_classes r cs d) = mark_listeners d"
  "searchbar_value (set_attr r a v d) = searchbar_value d" "current_searchterm (set_attr r a v d) = current_searchterm d" "doc_urls (set_attr r a v d) = doc_urls d" "search_opts (set_attr r a v d) = search_opts d" "searchindex (set_attr r a v d) = searchindex d" "results_opts (set_attr r a v d) = results_opts d" "teaser_count (set_attr r a v d) = teaser_count d" "path_to_root (set_attr r a v d) = path_to_root d" "path_to_searchindex_js (set_attr r a v d) = path_to_searchindex_js d" "mark_listeners (set_attr r a v d) = mark_listeners d"
  "searchbar_value (set_content r v d) = searchbar_value d" "current_searchterm (set_content r v d) = current_searchterm d" "doc_urls (set_content r v d) = doc_urls d" "search_opts (set_content r v d) = search_opts d" "searchindex (set_content r v d) = searchindex d" "results_opts (set_content r v d) = results_opts d" "teaser_count (set_content r v d) = teaser_count d" "path_to_root (set_content r v d) = path_to_root d" "path_to_searchindex_js (set_content r v d) = path_to_searchindex_js d" "mark_listeners (set_content r v d) = mark_listeners d"
  "searchbar_value (set_display r v d) = searchbar_value d" "current_searchterm (set_display r v d) = current_searchterm d" "doc_urls (set_display r v d) = doc_urls d" "search_opts (set_display r v d) = search_opts d" "searchindex (set_display r v d) = searchindex d" "results_opts (set_display r v d) = results_opts d" "teaser_count (set_display r v d) = teaser_count d" "path_to_root (set_display r v d) = path_to_root d" "path_to_searchindex_js (set_display r v d) = path_to_searchindex_js d" "mark_listeners (set_display r v d) = mark_listeners d"
  "searchbar_value (set_ident r v d) = searchbar_value d" "current_searchterm (set_ident r v d) = current_searchterm d" "doc_urls (set_ident r v d) = doc_urls d" "search_opts (set_ident r v d) = search_opts d" "searchindex (set_ident r v d) = searchindex d" "results_opts (set_ident r v d) = results_opts d" "teaser_count (set_ident r v d) = teaser_count d" "path_to_root (set_ident r v d) = path_to_root d" "path_to_searchindex_js (set_ident r v d) = path_to_searchindex_js d" "mark_listeners (set_ident r v d) = mark_listeners d"
  "searchbar_value (snd (create_element t d)) = searchbar_value d" "current_searchterm (snd (create_element t d)) = current_searchterm d" "doc_urls (snd (create_element t d)) = doc_urls d" "search_opts (snd (create_element t d)) = search_opts d" "searchindex (snd (create_element t d)) = searchindex d" "results_opts (snd (create_element t d)) = results_opts d" "teaser_count (snd (create_element t d)) = teaser_count d" "path_to_root (snd (create_element t d)) = path_to_root d" "path_to_searchindex_js (snd (create_element t d)) = path_to_searchindex_js d" "mark_listeners (snd (create_element t d)) = mark_listeners d"
  "searchbar_value (append_child p r d) = searchbar_value d" "current_searchterm (append_child p r d) = current_searchterm d" "doc_urls (append_child p r d) = doc_urls d" "search_opts (append_child p r d) = search_opts d" "searchindex (append_child p r d) = searchindex d" "results_opts (append_child p r d) = results_opts d" "teaser_count (append_child p r d) = teaser_count d" "path_to_root (append_child p r d) = path_to_root d" "path_to_searchindex_js (append_child p r d) = path_to_searchindex_js d" "mark_listeners (append_child p r d) = mark_listeners d"
  "searchbar_value (remove_node r d) = searchbar_value d" "current_searchterm (remove_node r d) = current_searchterm d" "doc_urls (remove_node r d) = doc_urls d" "search_opts (remove_node r d) = search_opts d" "searchindex (remove_node r d) = searchindex d" "results_opts (remove_node r d) = results_opts d" "teaser_count (remove_node r d) = teaser_count d" "path_to_root (remove_node r d) = path_to_root d" "path_to_searchindex_js (remove_node r d) = path_to_searchindex_js d" "mark_listeners (remove_node r d) = mark_listeners d"
  "searchbar_value (insert_before p r b d) = searchbar_value d" "current_searchterm (insert_before p r b d) = current_searchterm d" "doc_urls (insert_before p r b d) = doc_urls d" "search_opts (insert_before p r b d) = search_opts d" "searchindex (insert_before p r b d) = searchindex d" "results_opts (insert_before p r b d) = results_opts d" "teaser_count (insert_before p r b d) = teaser_count d" "path_to_root (insert_before p r b d) = path_to_root d" "path_to_searchindex_js (insert_before p r b d) = path_to_searchindex_js d" "mark_listeners (insert_before p r b d) = mark_listeners d"
  by (simp_all add: add_class_def remove_class_def toggle_class_def set_classes_def set_attr_def
      set_content_def set_display_def set_ident_def create_element_def append_child_def
      remove_node_def insert_before_def Let_def split: option.split)

lemma search_page_frame [dom_simps, simp]:
  "searchbar_value (emit e p) = searchbar_value p" "current_searchterm (emit e p) = current_searchterm p" "doc_urls (emit e p) = doc_urls p" "search_opts (emit e p) = search_opts p" "searchindex (emit e p) = searchindex p" "results_opts (emit e p) = results_opts p" "teaser_count (emit e p) = teaser_count p" "path_to_root (emit e p) = path_to_root p" "path_to_searchindex_js (emit e p) = path_to_searchindex_js p" "mark_listeners (emit e p) = mark_listeners p"
  "searchbar_value (focus_on r p) = searchbar_value p" "current_searchterm (focus_on r p) = current_searchterm p" "doc_urls (focus_on r p) = doc_urls p" "search_opts (focus_on r p) = search_opts p" "searchindex (focus_on r p) = searchindex p" "results_opts (focus_on r p) = results_opts p" "teaser_count (focus_on r p) = teaser_count p" "path_to_root (focus_on r p) = path_to_root p" "path_to_searchindex_js (focus_on r p) = path_to_searchindex_js p" "mark_listeners (focus_on r p) = mark_listeners p"
  "searchbar_value (push_state pl u p) = searchbar_value p" "current_searchterm (push_state pl u p) = current_searchterm p" "doc_urls (push_state pl u p) = doc_urls p" "search_opts (push_state pl u p) = search_opts p" "searchindex (push_state pl u p) = searchindex p" "results_opts (push_state pl u p) = results_opts p" "teaser_count (push_state pl u p) = teaser_count p" "path_to_root (push_state pl u p) = path_to_root p" "path_to_searchindex_js (push_state pl u p) = path_to_searchindex_js p" "mark_listeners (push_state pl u p) = mark_listeners p"
  "searchbar_value (replace_state pl u p) = searchbar_value p" "current_searchterm (replace_state pl u p) = current_searchterm p" "doc_urls (replace_state pl u p) = doc_urls p" "search_opts (replace_state pl u p) = search_opts p" "searchindex (replace_state pl u p) = searchindex p" "results_opts (replace_state pl u p) = results_opts p" "teaser_count (replace_state pl u p) = teaser_count p" "path_to_root (replace_state pl u p) = path_to_root p" "path_to_searchindex_js (replace_state pl u p) = path_to_searchindex_js p" "mark_listeners (replace_state pl u p) = mark_listeners p"
  by (simp_all add: emit_def focus_on_def push_state_def replace_state_def)

section \<open>The invariant of the search box\<close>

text \<open>
  The wrapper is hidden exactly when the icon says so; once the box has been shown the index script
  is in the head of the page. The other conjuncts say that the results and the head are part of the
  tree as built, which the first two need.
\<close>

definition index_requested :: "'a dom_scheme \<Rightarrow> bool" where
  "index_requested d \<longleftrightarrow> (\<exists>r \<in> set (kids d html_head). ident d r = ''mdbook-search-index'')"

definition search_tree :: "'a dom_scheme \<Rightarrow> bool" where
  "search_tree d \<longleftrightarrow>
     html_head \<in> set (kids d html_root) \<and> 2 \<le> length (nodes d)
     \<and> (\<forall>r \<in> set (kids d html_head). known d r)
     \<and> (\<forall>r \<in> set (kids d searchresults). known d r \<and> par d r = Some searchresults)
     \<and> distinct (kids d searchresults)
     \<and> (\<forall>r. ident d r = ''mdbook-search-index'' \<longrightarrow> r \<in> set (kids d html_head))"

definition search_inv :: "'a dom_scheme \<Rightarrow> bool" where
  "search_inv d \<longleftrightarrow>
     (has_class d search_wrap ''hidden'' \<longleftrightarrow> attrs d searchicon ''aria-expanded'' = Some ''false'')
     \<and> (\<not> has_class d search_wrap ''hidden'' \<longrightarrow> index_requested d)
     \<and> search_tree d"

lemmas search_inv_defs = search_inv_def search_tree_def index_requested_def known_def

lemma search_inv_add_class [simp]:
  "(r, c) \<noteq> (search_wrap, ''hidden'') \<Longrightarrow> search_inv (add_class r c d) = search_inv d"
  by (auto simp: search_inv_defs)

lemma search_inv_remove_class [simp]:
  "(r, c) \<noteq> (search_wrap, ''hidden'') \<Longrightarrow> search_inv (remove_class r c d) = search_inv d"
  by (auto simp: search_inv_defs)

lemma search_inv_frame [simp]:
  "search_inv (emit e p) = search_inv p" "search_inv (focus_on r p) = search_inv p"
  "search_inv (select_text pl r p) = search_inv p" "search_inv (set_content r v d) = search_inv d"
  "search_inv (push_state pl u p) = search_inv p" "search_inv (replace_state pl u p) = search_inv p"
  "search_inv (setSearchUrlParameters pl t a p) = search_inv p"
  by (simp_all add: search_inv_defs emit_def focus_on_def select_text_def push_state_def
      replace_state_def setSearchUrlParameters_def Let_def has_class_def)

lemma search_inv_fields [simp]:
  "search_inv (s\<lparr>searchbar_value := v\<rparr>) = search_inv s"
  "search_inv (s\<lparr>current_searchterm := v\<rparr>) = search_inv s"
  "search_inv (s\<lparr>teaser_count := n\<rparr>) = search_inv s"
  "search_inv (s\<lparr>mark_listeners := ls\<rparr>) = search_inv s"
  "search_inv (p\<lparr>focus := f\<rparr>) = search_inv p" "search_inv (p\<lparr>href := h\<rparr>) = search_inv p"
  "search_inv (s\<lparr>results_opts := ro, search_opts := so, doc_urls := du, searchindex := ix\<rparr>) = search_inv s"
  by (simp_all add: search_inv_defs has_class_def)

lemma create_frame:
  assumes "create_element t d = (r, d')" "x \<noteq> Node (fresh d)"
  shows "kids d' x = kids d x" "par d' x = par d x" "ident d' x = ident d x" "attrs d' x = attrs d x"
    "has_class d' x c = has_class d x c"
  using assms by (auto simp: create_element_def Let_def has_class_def)

lemma search_inv_create:
  assumes inv: "search_inv d" and c: "create_element t d = (r, d')"
  shows "search_inv d'"
proof -
  have f: "fresh d' = Suc (fresh d)" "nodes d' = nodes d @ [r]"
    using c by (auto simp: create_element_def Let_def)
  have new: "x \<noteq> Node (fresh d)" "known d' x" if "known d x" for x
    using that f by (auto simp: known_def)
  note old = create_frame [OF c]
  have k: "kids d' html_root = kids d html_root" "kids d' html_head = kids d html_head"
    "kids d' searchresults = kids d searchresults" "attrs d' searchicon = attrs d searchicon"
    "has_class d' search_wrap ''hidden'' = has_class d search_wrap ''hidden''"
    by (simp_all add: old)
  have tree: "search_tree d" using inv by (simp add: search_inv_def)
  then have "index_requested d' = index_requested d"
    using old(3) new by (auto simp: index_requested_def k search_tree_def)
  moreover have idx: "ident d x = ''mdbook-search-index''" if "ident d' x = ''mdbook-search-index''" for x
    using that c old(3) [of x] by (cases "x = r") (auto simp: create_element_def Let_def)
  have "search_tree d'"
    using tree new old(2) idx by (auto simp: search_tree_def k f)
  ultimately show ?thesis using inv by (simp add: search_inv_def k)
qed

lemma create_fresh:
  "create_element t d = (r, d') \<Longrightarrow>
     r = Node (fresh d) \<and> fresh d' = Suc (fresh d) \<and> par d' r = None \<and> kids d' r = []
     \<and> tag d' r = t \<and> classes d' r = [] \<and> nodes d' = nodes d @ [r]"
  by (auto simp: create_element_def Let_def)

lemma kids_create:
  "create_element t d = (r, d') \<Longrightarrow> x \<noteq> Node (fresh d) \<Longrightarrow> kids d' x = kids d x"
  by (auto simp: create_element_def Let_def)

lemma append_new:
  "par d r = None \<Longrightarrow> append_child p r d = d\<lparr>kids := (kids d)(p := kids d p @ [r]), par := (par d)(r := Some p)\<rparr>"
  by (simp add: append_child_def remove_node_def Let_def)

lemma search_inv_append_result:
  assumes "search_inv d" "par d r = None" "known d r" "r \<notin> set (kids d searchresults)"
  shows "search_inv (append_child searchresults r d)"
  using assms by (auto simp: append_new search_inv_defs has_class_def)

lemma fold_remove_node:
  assumes "\<forall>x \<in> set xs. par d x = Some p \<or> par d x = None"
  shows "kids (fold remove_node xs d) =
      (kids d)(p := filter (\<lambda>x. x \<notin> set xs \<or> par d x \<noteq> Some p) (kids d p))
    \<and> par (fold remove_node xs d) = (\<lambda>x. if x \<in> set xs then None else par d x)"
  using assms
proof (induction xs arbitrary: d)
  case Nil
  then show ?case by (simp add: fun_eq_iff)
next
  case (Cons x xs)
  have "\<forall>y \<in> set xs. par (remove_node x d) y = Some p \<or> par (remove_node x d) y = None"
    using Cons.prems by (auto simp: remove_node_def split: option.split)
  from Cons.IH [OF this] Cons.prems show ?case
    by (auto simp: remove_node_def fun_eq_iff intro!: filter_cong split: option.split)
qed

lemma removeChildren_kids:
  assumes "\<forall>x \<in> set (kids d r). par d x = Some r"
  shows "kids (removeChildren r d) = (kids d)(r := [])"
    "par (removeChildren r d) = (\<lambda>x. if x \<in> set (kids d r) then None else par d x)"
  using fold_remove_node [of "kids d r" d r] assms by (auto simp: removeChildren_def fun_eq_iff)

lemma remove_node_frame [simp]:
  "has_class (remove_node r d) = has_class d" "attrs (remove_node r d) = attrs d"
  "ident (remove_node r d) = ident d" "nodes (remove_node r d) = nodes d"
  "fresh (remove_node r d) = fresh d" "tag (remove_node r d) = tag d"
  "content (remove_node r d) = content d" "classes (remove_node r d) = classes d"
  by (simp_all add: remove_node_def has_class_def fun_eq_iff split: option.split)

lemma removeChildren_frame [simp]:
  "has_class (removeChildren r d) = has_class d" "attrs (removeChildren r d) = attrs d"
  "ident (removeChildren r d) = ident d" "nodes (removeChildren r d) = nodes d"
  "fresh (removeChildren r d) = fresh d" "tag (removeChildren r d) = tag d"
  "content (removeChildren r d) = content d"
  unfolding removeChildren_def by (rule fold_frame, simp)+

lemma search_inv_removeChildren [simp]:
  "search_inv d \<Longrightarrow> search_inv (removeChildren searchresults d)"
  by (auto simp: search_inv_defs removeChildren_kids)

lemma search_inv_unfocus [simp]: "search_inv s \<Longrightarrow> search_inv (unfocusSearchbar s)"
  by (auto simp: unfocusSearchbar_def create_element_def append_child_def remove_focused_def
      remove_node_def focus_on_def set_attr_def search_inv_defs has_class_def Let_def less_Suc_eq)

section \<open>Every listener keeps the invariant\<close>

lemma by_id_head:
  assumes "search_tree d" "r \<in> set (kids d html_head)" "ident d r = i"
  shows "by_id d i \<noteq> None"
proof -
  from assms(1) obtain m where m: "length (nodes d) = Suc (Suc m)"
    by (metis Suc_le_D numeral_2_eq_2 search_tree_def Suc_le_mono)
  have "r \<in> set (below (length (nodes d)) d html_root)"
    using assms m by (auto simp: search_tree_def)
  with assms(3) show ?thesis by (auto simp: by_id_def query_first_def find_None_set)
qed

lemma by_id_requested: "search_tree d \<Longrightarrow> by_id d ''mdbook-search-index'' \<noteq> None \<longleftrightarrow> index_requested d"
proof
  assume t: "search_tree d" and "by_id d ''mdbook-search-index'' \<noteq> None"
  then obtain r where "ident d r = ''mdbook-search-index''"
    by (auto simp: by_id_def query_first_def dest: find_Some_iff_set)
  with t show "index_requested d" by (auto simp: search_tree_def index_requested_def)
next
  assume "search_tree d" "index_requested d"
  then show "by_id d ''mdbook-search-index'' \<noteq> None"
    using by_id_head by (fastforce simp: index_requested_def)
qed

lemma loadSearchScript_inv:
  assumes "search_inv s"
  shows "search_tree (loadSearchScript u ''mdbook-search-index'' s)
    \<and> index_requested (loadSearchScript u ''mdbook-search-index'' s)"
proof (cases "by_id s ''mdbook-search-index'' = None")
  case False
  with assms show ?thesis
    using by_id_requested [of s] by (simp add: loadSearchScript_def search_inv_def)
next
  case True
  have "\<not> index_requested s"
    using assms True by_id_requested [of s] by (simp add: search_inv_def)
  with True assms show ?thesis
    by (auto simp: loadSearchScript_def create_element_def append_child_def remove_node_def set_ident_def
        set_attr_def search_inv_defs Let_def add_class_def less_Suc_eq)
qed

lemma loadSearchScript_frame [simp]:
  "has_class (loadSearchScript u i s) search_wrap ''hidden'' = has_class s search_wrap ''hidden''"
  "attrs (loadSearchScript u i s) searchicon = attrs s searchicon"
  "kids (loadSearchScript u i s) searchresults = kids s searchresults"
  by (auto simp: loadSearchScript_def create_element_def append_child_def remove_node_def set_ident_def
      set_attr_def Let_def add_class_def has_class_def)

lemma fold_remove_class:
  "kids (fold (\<lambda>x. remove_class x c) xs d) = kids d" "par (fold (\<lambda>x. remove_class x c) xs d) = par d"
  "attrs (fold (\<lambda>x. remove_class x c) xs d) = attrs d" "nodes (fold (\<lambda>x. remove_class x c) xs d) = nodes d"
  "ident (fold (\<lambda>x. remove_class x c) xs d) = ident d" "fresh (fold (\<lambda>x. remove_class x c) xs d) = fresh d"
  "tag (fold (\<lambda>x. remove_class x c) xs d) = tag d"
  by (rule fold_frame, simp)+

lemma has_class_fold_remove:
  "has_class (fold (\<lambda>x. remove_class x c) xs d) r c' \<longleftrightarrow> has_class d r c' \<and> \<not> (r \<in> set xs \<and> c' = c)"
  by (induction xs arbitrary: d) auto

lemma showSearch_True_inv: "search_inv s \<Longrightarrow> search_inv (showSearch True s)"
proof -
  assume "search_inv s"
  from loadSearchScript_inv [OF this] show ?thesis
    by (auto simp: showSearch_def search_inv_defs Let_def)
qed

lemma showSearch_False_inv: "search_inv s \<Longrightarrow> search_inv (showSearch False s)"
  by (simp add: showSearch_def search_inv_defs Let_def fold_remove_class has_class_fold_remove)

lemma showSearch_inv [simp]: "search_inv s \<Longrightarrow> search_inv (showSearch b s)"
  by (cases b) (simp_all add: showSearch_True_inv showSearch_False_inv)

lemma showResults_inv [simp]: "search_inv (showResults b s) = search_inv s"
  by (simp add: showResults_def)

lemma insert_results_inv:
  "search_inv s \<Longrightarrow> search_inv (final (insert_results lib terms rs s))"
proof (induction lib terms rs s rule: insert_results.induct)
  case (1 lib terms s)
  then show ?case by simp
next
  case (2 lib terms r rs s)
  obtain li s1 where c: "create_element ''LI'' s = (li, s1)" by fastforce
  have s1: "search_inv s1" by (rule search_inv_create [OF "2.prems" c])
  have li: "li = Node (fresh s)" "par s1 (Node (fresh s)) = None" "fresh s1 = Suc (fresh s)"
    using create_fresh [OF c] by auto
  have "li \<notin> set (kids s1 searchresults)"
    using "2.prems" li kids_create [OF c] by (fastforce simp: search_inv_defs)
  moreover have "known s1 li" using li by (simp add: known_def)
  ultimately have "search_inv (append_child searchresults li (set_content li h (s1\<lparr>teaser_count := n\<rparr>)))"
    for h n
    using s1 li by (intro search_inv_append_result) (simp_all add: known_def)
  with 2 c s1 show ?case by (auto split: sum.split)
qed

lemma inv_and_then:
  "search_inv (final o') \<Longrightarrow> (\<And>s. search_inv s \<Longrightarrow> search_inv (final (f s))) \<Longrightarrow>
   search_inv (final (and_then o' f))"
  for o' :: "search outcome"
  by (cases o') auto

lemma doSearch_inv: "search_inv s \<Longrightarrow> search_inv (final (doSearch lib t s))"
proof -
  assume "search_inv s"
  then show ?thesis
    by (auto simp: doSearch_def Let_def intro!: inv_and_then insert_results_inv split: option.split)
qed

lemma keyUp_inv: "search_inv s \<Longrightarrow> search_inv (final (searchbarKeyUpHandler lib pl s))"
  by (auto simp: searchbarKeyUpHandler_def Let_def intro!: inv_and_then doSearch_inv)

lemma fromUrl_inv: "search_inv s \<Longrightarrow> search_inv (final (doSearchOrMarkFromUrl lib pl s))"
proof -
  assume inv: "search_inv s"
  show ?thesis
    unfolding doSearchOrMarkFromUrl_def Let_def
  proof (rule inv_and_then, goal_cases)
    case 1
    from inv show ?case by (auto split: option.split sum.split intro!: keyUp_inv)
  next
    case (2 s)
    then show ?case by (auto split: option.split sum.split)
  qed
qed

lemma init_inv: "search_inv s \<Longrightarrow> search_inv (final (init_search lib cf s))"
  by (auto simp: init_search_def Let_def intro!: doSearch_inv)

lemma marks_inv: "search_inv s \<Longrightarrow> search_inv (mark_clicked m s)"
proof -
  have one: "search_inv s \<Longrightarrow> search_inv (hide_marks ms s)" for ms s
    unfolding hide_marks_def by (rule fold_invariant_list) auto
  assume "search_inv s"
  then show ?thesis
    unfolding mark_clicked_def by (rule fold_invariant_list) (auto intro: one)
qed

lemma keyDown_inv: "search_inv s \<Longrightarrow> search_inv (globalKeyHandler pl e s)"
  by (simp add: globalKeyHandler_def Let_def split: option.split)

lemma search_step_inv: "search_inv s \<Longrightarrow> search_inv (search_step lib pl e s)"
  by (cases e)
    (simp_all add: keyUp_inv keyDown_inv fromUrl_inv init_inv marks_inv searchIconClickHandler_def)

interpretation search_machine: machine "search_step lib pl" search_inv for lib pl
  by unfold_locales (rule search_step_inv)

interpretation search_box: disclosure "showSearch True" "showSearch False"
  "\<lambda>s. \<not> has_class s search_wrap ''hidden''"
  by unfold_locales (simp_all add: showSearch_def Let_def has_class_fold_remove)

section \<open>What a search displays\<close>

definition result_html :: "library \<Rightarrow> search \<Rightarrow> string list \<Rightarrow> nat \<Rightarrow> search_result \<Rightarrow> string" where
  \<comment> \<open>the HTML of a result shown when the teaser counter stands at the given number\<close>
  "result_html lib s terms n r =
     (case formatSearchResult (stemmer lib) (teaser_word_count (results_opts s)) (doc_urls s)
        (path_to_root s) n r terms of Inl e \<Rightarrow> '''' | Inr (h, n') \<Rightarrow> h)"

lemma formatSearchResult_ok:
  "sr_ref r < length du \<Longrightarrow>
     \<exists>h. formatSearchResult st twc du root n r terms = Inr (h, n + 1)"
  by (simp add: formatSearchResult_def Let_def)

lemma formatSearchResult_bad:
  "\<not> sr_ref r < length du \<Longrightarrow> formatSearchResult st twc du root n r terms = Inl TypeError"
  by (simp add: formatSearchResult_def Let_def)

lemma insert_results_Done:
  assumes "\<forall>r \<in> set rs. sr_ref r < length (doc_urls s)"
  shows "\<exists>s'. insert_results lib terms rs s = Done s'
    \<and> kids s' searchresults = kids s searchresults @ map Node [fresh s..<fresh s + length rs]
    \<and> (\<forall>i < length rs. content s' (Node (fresh s + i)) = result_html lib s terms (teaser_count s + i) (rs ! i))
    \<and> (\<forall>r. (\<forall>n. r = Node n \<longrightarrow> n < fresh s) \<longrightarrow> content s' r = content s r)
    \<and> (\<forall>i c. has_class s' (Named i) c = has_class s (Named i) c)
    \<and> (\<forall>i. attrs s' (Named i) = attrs s (Named i))
    \<and> teaser_count s' = teaser_count s + length rs \<and> current_searchterm s' = current_searchterm s
    \<and> doc_urls s' = doc_urls s \<and> results_opts s' = results_opts s \<and> path_to_root s' = path_to_root s"
  using assms
proof (induction rs arbitrary: s)
  case Nil
  then show ?case by (intro exI [of _ s]) simp
next
  case (Cons r rs)
  obtain h where h: "formatSearchResult (stemmer lib) (teaser_word_count (results_opts s)) (doc_urls s)
      (path_to_root s) (teaser_count s) r terms = Inr (h, teaser_count s + 1)"
    using formatSearchResult_ok Cons.prems by (metis list.set_intros(1))
  define s1 where "s1 = snd (create_element ''LI'' s)"
  define s2 where "s2 = append_child searchresults (Node (fresh s))
      (set_content (Node (fresh s)) h (s1\<lparr>teaser_count := teaser_count s + 1\<rparr>))"
  have c: "create_element ''LI'' s = (Node (fresh s), s1)"
    by (simp add: s1_def create_element_def Let_def)
  have s1: "kids s1 searchresults = kids s searchresults" "fresh s1 = Suc (fresh s)"
    "\<And>r. r \<noteq> Node (fresh s) \<Longrightarrow> content s1 r = content s r"
    "\<And>i. classes s1 (Named i) = classes s (Named i)" "\<And>i. attrs s1 (Named i) = attrs s (Named i)"
    "current_searchterm s1 = current_searchterm s" "par s1 (Node (fresh s)) = None"
    "doc_urls s1 = doc_urls s" "results_opts s1 = results_opts s" "path_to_root s1 = path_to_root s"
    "teaser_count s1 = teaser_count s"
    by (simp_all add: s1_def create_element_def Let_def)
  have step: "insert_results lib terms (r # rs) s = insert_results lib terms rs s2"
    unfolding s2_def using h by (simp add: c s1)
  have app: "s2 = (let d = set_content (Node (fresh s)) h (s1\<lparr>teaser_count := teaser_count s + 1\<rparr>)
      in d\<lparr>kids := (kids d)(searchresults := kids d searchresults @ [Node (fresh s)]),
           par := (par d)(Node (fresh s) := Some searchresults)\<rparr>)"
    unfolding s2_def Let_def by (rule append_new) (simp add: s1)
  have s2: "kids s2 searchresults = kids s searchresults @ [Node (fresh s)]"
    "fresh s2 = Suc (fresh s)" "content s2 (Node (fresh s)) = h"
    "\<And>r. r \<noteq> Node (fresh s) \<Longrightarrow> content s2 r = content s r"
    "\<And>i c. has_class s2 (Named i) c = has_class s (Named i) c"
    "\<And>i. attrs s2 (Named i) = attrs s (Named i)"
    "teaser_count s2 = teaser_count s + 1" "current_searchterm s2 = current_searchterm s"
    "doc_urls s2 = doc_urls s" "results_opts s2 = results_opts s" "path_to_root s2 = path_to_root s"
    unfolding app using s1 by (simp_all add: set_content_def has_class_def)
  have html: "result_html lib s2 = result_html lib s"
    by (simp add: fun_eq_iff result_html_def s2)
  have "\<forall>r \<in> set rs. sr_ref r < length (doc_urls s2)" using Cons.prems s2 by simp
  from Cons.IH [OF this] obtain s' where s': "insert_results lib terms rs s2 = Done s'"
    "kids s' searchresults = kids s2 searchresults @ map Node [fresh s2..<fresh s2 + length rs]"
    "\<forall>i < length rs. content s' (Node (fresh s2 + i)) = result_html lib s2 terms (teaser_count s2 + i) (rs ! i)"
    "\<forall>r. (\<forall>n. r = Node n \<longrightarrow> n < fresh s2) \<longrightarrow> content s' r = content s2 r"
    "\<forall>i c. has_class s' (Named i) c = has_class s2 (Named i) c"
    "\<forall>i. attrs s' (Named i) = attrs s2 (Named i)"
    "teaser_count s' = teaser_count s2 + length rs" "current_searchterm s' = current_searchterm s2"
    "doc_urls s' = doc_urls s2" "results_opts s' = results_opts s2" "path_to_root s' = path_to_root s2"
    by blast
  have first: "content s' (Node (fresh s)) = result_html lib s terms (teaser_count s) r"
    using s'(4) s2(2,3) h by (simp add: result_html_def)
  have "content s' (Node (fresh s + i)) = result_html lib s terms (teaser_count s + i) ((r # rs) ! i)"
    if "i < length (r # rs)" for i
    using that first s'(3) s2(2,7) by (cases i) (simp_all add: html)
  moreover have "kids s' searchresults = kids s searchresults @ map Node [fresh s..<fresh s + length (r # rs)]"
    using s'(2) s2(1,2) by (simp add: upt_conv_Cons [of "fresh s"] del: upt_Suc)
  moreover have "content s' x = content s x" if "\<forall>n. x = Node n \<longrightarrow> n < fresh s" for x
    using that s'(4) s2(2,4) by (metis less_SucI less_irrefl)
  ultimately show ?case
    unfolding step using s' s2 by (intro exI [of _ s']) (simp del: upt_Suc)
qed

lemma insert_results_completes:
  "completes (insert_results lib terms rs s) \<longleftrightarrow> (\<forall>r \<in> set rs. sr_ref r < length (doc_urls s))"
proof (induction lib terms rs s rule: insert_results.induct)
  case (1 lib terms s)
  then show ?case by simp
next
  case (2 lib terms r rs s)
  obtain li s1 where c: "create_element ''LI'' s = (li, s1)" by fastforce
  then have du: "doc_urls s1 = doc_urls s"
    by (auto simp: create_element_def Let_def)
  show ?case
  proof (cases "sr_ref r < length (doc_urls s)")
    case False
    with c du show ?thesis by (simp add: formatSearchResult_bad)
  next
    case True
    with du formatSearchResult_ok obtain h where
      h: "formatSearchResult (stemmer lib) (teaser_word_count (results_opts s1)) (doc_urls s1)
        (path_to_root s1) (teaser_count s1) r terms = Inr (h, teaser_count s1 + 1)" by metis
    from True 2 [OF refl c [symmetric] h refl] c h du show ?thesis by simp
  qed
qed

text \<open>The results the loaded index has for a term, cut to the limit.\<close>

definition shown_results :: "search \<Rightarrow> search_index \<Rightarrow> string \<Rightarrow> search_result list" where
  "shown_results s ix t =
     take (min (length (ix (search_opts s) t)) (limit_results (results_opts s))) (ix (search_opts s) t)"

lemma doSearch_displays:
  assumes ix: "searchindex s = Some ix" and new: "current_searchterm s \<noteq> t" and tree: "search_tree s"
    and refs: "\<forall>r \<in> set (shown_results s ix t). sr_ref r < length (doc_urls s)"
  shows "\<exists>s'. doSearch lib t s = Done s'
    \<and> map (content s') (kids s' searchresults)
        = map (\<lambda>(i, r). result_html lib s (js_split '' '' t) (teaser_count s + i) r)
            (zip [0..<length (shown_results s ix t)] (shown_results s ix t))
    \<and> content s' searchresults_header = formatSearchMetric (length (shown_results s ix t)) t
    \<and> \<not> has_class s' searchresults_outer ''hidden'' \<and> \<not> has_class s' searchbar_outer ''searching''
    \<and> current_searchterm s' = t"
proof -
  let ?rs = "shown_results s ix t"
  let ?n = "min (length (ix (search_opts s) t)) (limit_results (results_opts s))"
  define s4 where "s4 = removeChildren searchresults
      (set_content searchresults_header (formatSearchMetric ?n t)
        ((add_class searchbar_outer ''searching'' s)\<lparr>current_searchterm := t\<rparr>))"
  have fr: "doc_urls (removeChildren r d) = doc_urls d" "results_opts (removeChildren r d) = results_opts d"
    "path_to_root (removeChildren r d) = path_to_root d" "teaser_count (removeChildren r d) = teaser_count d"
    "current_searchterm (removeChildren r d) = current_searchterm d" for r and d :: search
    unfolding removeChildren_def by (rule fold_frame, simp)+
  have s4: "kids s4 searchresults = []" "doc_urls s4 = doc_urls s" "results_opts s4 = results_opts s"
    "path_to_root s4 = path_to_root s" "teaser_count s4 = teaser_count s" "current_searchterm s4 = t"
    "content s4 searchresults_header = formatSearchMetric ?n t"
    using tree by (auto simp: s4_def fr removeChildren_kids search_tree_def)
  have run: "doSearch lib t s = and_then (insert_results lib (js_split '' '' t) ?rs s4)
      (\<lambda>s5. Done (remove_class searchbar_outer ''searching'' (showResults True s5)))"
    using ix new by (simp add: doSearch_def shown_results_def s4_def Let_def)
  have "\<forall>r \<in> set ?rs. sr_ref r < length (doc_urls s4)" using refs s4 by simp
  from insert_results_Done [OF this, of lib "js_split '' '' t"] obtain s5 where
    s5: "insert_results lib (js_split '' '' t) ?rs s4 = Done s5"
    "kids s5 searchresults = map Node [fresh s4..<fresh s4 + length ?rs]"
    "\<forall>i < length ?rs. content s5 (Node (fresh s4 + i))
        = result_html lib s4 (js_split '' '' t) (teaser_count s4 + i) (?rs ! i)"
    "\<forall>r. (\<forall>n. r = Node n \<longrightarrow> n < fresh s4) \<longrightarrow> content s5 r = content s4 r"
    "current_searchterm s5 = t"
    using s4 by auto
  have html: "result_html lib s4 = result_html lib s"
    by (simp add: fun_eq_iff result_html_def s4)
  have len: "length ?rs = ?n" by (simp add: shown_results_def)
  show ?thesis
  proof (intro exI conjI)
    show "doSearch lib t s = Done (remove_class searchbar_outer ''searching'' (showResults True s5))"
      by (simp add: run s5(1))
    show "map (content (remove_class searchbar_outer ''searching'' (showResults True s5)))
        (kids (remove_class searchbar_outer ''searching'' (showResults True s5)) searchresults)
      = map (\<lambda>(i, r). result_html lib s (js_split '' '' t) (teaser_count s + i) r) (zip [0..<length ?rs] ?rs)"
      using s5(2,3) s4(5) by (auto simp: html showResults_def intro!: nth_equalityI)
  qed (use s5(4,5) s4(7) len in \<open>simp_all add: showResults_def\<close>)
qed

section \<open>Arrow keys\<close>

text \<open>A list of results of which exactly one, the i-th, is focused.\<close>

definition one_focused :: "'a page_scheme \<Rightarrow> ref list \<Rightarrow> nat \<Rightarrow> bool" where
  "one_focused s xs i \<longleftrightarrow>
     kids s searchresults = xs \<and> distinct xs \<and> i < length xs \<and> 0 < length (nodes s)
     \<and> (\<forall>x \<in> set xs. kids s x = [] \<and> par s x = Some searchresults \<and> tag s x = ''LI'')
     \<and> (\<forall>j < length xs. has_class s (xs ! j) ''focus'' \<longleftrightarrow> j = i)"

lemma focused_result_one: "one_focused s xs i \<Longrightarrow> focused_result s = Some (xs ! i)"
proof -
  assume one: "one_focused s xs i"
  then have "below (length (nodes s)) s searchresults = xs"
    by (intro below_leaves) (auto simp: one_focused_def)
  moreover have "List.find (\<lambda>r. tag s r = ''LI'' \<and> has_class s r ''focus'') xs = Some (xs ! i)"
    using one by (auto simp: one_focused_def find_Some_iff intro!: exI [of _ i])
  ultimately show ?thesis by (simp add: focused_result_def query_first_def)
qed

lemma insert_results_frame:
  "has_class (final (insert_results lib terms rs s)) (Named i) c = has_class s (Named i) c
   \<and> current_searchterm (final (insert_results lib terms rs s)) = current_searchterm s"
proof (induction lib terms rs s rule: insert_results.induct)
  case (1 lib terms s)
  then show ?case by simp
next
  case (2 lib terms r rs s)
  obtain li s1 where c: "create_element ''LI'' s = (li, s1)" by fastforce
  then have s1: "li = Node (fresh s)" "has_class s1 (Named i) c = has_class s (Named i) c"
    "current_searchterm s1 = current_searchterm s"
    by (auto simp: create_element_def Let_def has_class_def)
  have keep: "has_class (append_child p r d) = has_class d"
    "current_searchterm (append_child p r d) = current_searchterm d" for p r and d :: search
    by (simp_all add: append_child_def Let_def has_class_def remove_node_def fun_eq_iff split: option.split)
  have fields: "has_class (s1\<lparr>teaser_count := n\<rparr>) = has_class s1" for n
    by (simp add: has_class_def fun_eq_iff)
  show ?case
  proof (cases "formatSearchResult (stemmer lib) (teaser_word_count (results_opts s1)) (doc_urls s1)
        (path_to_root s1) (teaser_count s1) r terms")
    case (Inl e)
    with c s1 show ?thesis by (simp add: fields)
  next
    case (Inr hn)
    obtain h n where "hn = (h, n)" by fastforce
    with Inr 2 [OF refl c [symmetric]] c s1 show ?thesis by (simp add: keep fields)
  qed
qed

lemma setSearch_frame [simp]:
  "searchindex (setSearchUrlParameters pl t a s) = searchindex s"
  "current_searchterm (setSearchUrlParameters pl t a s) = current_searchterm s"
  "teaser_count (setSearchUrlParameters pl t a s) = teaser_count s"
  "path_to_root (setSearchUrlParameters pl t a s) = path_to_root s"
  "searchbar_value (setSearchUrlParameters pl t a s) = searchbar_value s"
  "content (setSearchUrlParameters pl t a p) = content p"
  "kids (setSearchUrlParameters pl t a p) = kids p"
  "has_class (setSearchUrlParameters pl t a p) = has_class p"
  "focus (setSearchUrlParameters pl t a p) = focus p"
  by (simp_all add: setSearchUrlParameters_def push_state_def replace_state_def Let_def has_class_def fun_eq_iff)

lemma showSearch_frame [simp]:
  "focus (showSearch False s) = focus s" "href (showSearch False s) = href s"
  "kids (showSearch False s) = kids s"
  unfolding showSearch_def Let_def by (simp_all add: fold_frame fold_remove_class)

lemma hasFocus_unfocus: "\<not> hasFocus (unfocusSearchbar s)"
  by (simp add: unfocusSearchbar_def hasFocus_def remove_focused_def focus_on_def create_element_def Let_def
      append_child_def remove_node_def split: option.split)

section \<open>Examples\<close>

text \<open>A page with the search box of the template, hidden, and a library with one result per term.\<close>

definition example_page :: page where
  "example_page =
     \<lparr>tag = (\<lambda>r. ''DIV''), ident = (\<lambda>r. ''''),
      classes = (\<lambda>r. if r = search_wrap then [''hidden''] else []),
      attrs = (\<lambda>r. if r = searchicon then [''aria-expanded'' \<mapsto> ''false''] else Map.empty),
      kids = (\<lambda>r. if r = html_root then [html_head] else []), par = (\<lambda>r. None),
      content = (\<lambda>r. ''''), display = (\<lambda>r. ''''), nodes = [html_root, html_head, searchresults],
      fresh = 0, focus = None, href = ''https://rtic.rs/index.html'', past = [], future = [],
      local_store = Map.empty, session_store = Map.empty, effects = []\<rparr>"

definition example_search :: search where
  "example_search = start_search example_page '''' ''../'' ''''"

definition example_platform :: platform where
  "example_platform =
     \<lparr>anchor_of = (\<lambda>s. \<lparr>a_protocol = ''https:'', a_hostname = ''rtic.rs'', a_port = '''',
        a_search = '''', a_pathname = ''/index.html'', a_hash = ''''\<rparr>),
      resolve = (\<lambda>s. s), select_focuses = True\<rparr>"

definition example_doc :: "nat \<Rightarrow> search_result" where
  "example_doc n = \<lparr>sr_ref = n, sr_doc = \<lparr>doc_body = ''A task'', doc_breadcrumbs = ''Tasks''\<rparr>\<rparr>"

definition example_library :: "nat list \<Rightarrow> library" where
  "example_library ns =
     \<lparr>stemmer = (\<lambda>w. w), load_index = (\<lambda>raw opts t. map example_doc ns), marks_made = (\<lambda>ws. [])\<rparr>"

definition example_config :: config where
  "example_config =
     \<lparr>cf_results_options = default_results_options, cf_search_options = default_search_options,
      cf_doc_urls = [''tasks.html'', ''locks.html#lock''], cf_index = ''''\<rparr>"

lemmas example_defs = example_search_def example_page_def start_search_def page.defs

lemma example_search_inv: "search_inv example_search"
  by (simp add: search_inv_defs example_defs has_class_def)

section \<open>Properties\<close>

text \<open>
  C22: Whatever the user types, clicks or navigates to, and whenever the index script loads or fails,
  the search box is hidden exactly when its icon says it is closed, and it is never shown without
  the index script being requested.
\<close>

theorem search_box_consistent:
  assumes "search_inv s" and "t = fold (search_step lib pl) events s"
  shows "(has_class t search_wrap ''hidden'' \<longleftrightarrow> attrs t searchicon ''aria-expanded'' = Some ''false'')
    \<and> (has_class t search_wrap ''hidden'' \<or> by_id t ''mdbook-search-index'' \<noteq> None)"
proof -
  have inv: "search_inv t" unfolding assms(2) by (rule search_machine.run_inv [OF assms(1)])
  then have "search_tree t" by (simp add: search_inv_def)
  with inv show ?thesis using by_id_requested [of t] by (auto simp: search_inv_def)
qed

theorem search_box_consistent_witness:
  "\<exists>t :: search. \<not> has_class t search_wrap ''hidden'' \<and> by_id t ''mdbook-search-index'' \<noteq> None
     \<and> attrs t searchicon ''aria-expanded'' \<noteq> Some ''false''"
proof -
  let ?t = "fold (search_step (example_library [0]) example_platform) [IconClick] example_search"
  have c: "(has_class ?t search_wrap ''hidden'' \<longleftrightarrow> attrs ?t searchicon ''aria-expanded'' = Some ''false'')
    \<and> (has_class ?t search_wrap ''hidden'' \<or> by_id ?t ''mdbook-search-index'' \<noteq> None)"
    by (rule search_box_consistent [OF example_search_inv refl])
  have "has_class example_search search_wrap ''hidden''"
    by (simp add: example_defs has_class_def)
  then have "\<not> has_class ?t search_wrap ''hidden''"
    by (simp add: searchIconClickHandler_def search_box.open_opens)
  with c show ?thesis by blast
qed

text \<open>
  A search completes exactly when every result to be shown refers to a known address. When one
  does not, the listener throws, the box keeps saying that it is searching, and a second search
  for the same term does not repair it.
\<close>

lemma search_bad_reference:
  assumes "searchindex s = Some ix" and "current_searchterm s \<noteq> t"
  shows "(completes (doSearch lib t s)
      \<longleftrightarrow> list_all (\<lambda>r. sr_ref r < length (doc_urls s)) (shown_results s ix t))
    \<and> (completes (doSearch lib t s)
       \<or> has_class (final (doSearch lib t s)) searchbar_outer ''searching''
         \<and> doSearch lib t (final (doSearch lib t s)) = Done (final (doSearch lib t s)))"
proof -
  let ?rs = "shown_results s ix t"
  define s4 where "s4 = removeChildren searchresults
      (set_content searchresults_header
        (formatSearchMetric (min (length (ix (search_opts s) t)) (limit_results (results_opts s))) t)
        ((add_class searchbar_outer ''searching'' s)\<lparr>current_searchterm := t\<rparr>))"
  have fr: "doc_urls (removeChildren r d) = doc_urls d"
    "current_searchterm (removeChildren r d) = current_searchterm d" for r and d :: search
    unfolding removeChildren_def by (rule fold_frame, simp)+
  have s4: "doc_urls s4 = doc_urls s" "current_searchterm s4 = t"
    "has_class s4 searchbar_outer ''searching''"
    by (simp_all add: s4_def fr) (simp add: add_class_def has_class_def)
  have run: "doSearch lib t s = and_then (insert_results lib (js_split '' '' t) ?rs s4)
      (\<lambda>s5. Done (remove_class searchbar_outer ''searching'' (showResults True s5)))"
    using assms by (simp add: doSearch_def shown_results_def s4_def Let_def)
  have "completes (doSearch lib t s) \<longleftrightarrow> completes (insert_results lib (js_split '' '' t) ?rs s4)"
    unfolding run by (cases "insert_results lib (js_split '' '' t) ?rs s4") auto
  then have iff: "completes (doSearch lib t s) \<longleftrightarrow> list_all (\<lambda>r. sr_ref r < length (doc_urls s)) ?rs"
    by (simp add: insert_results_completes s4(1) list_all_iff)
  have "has_class (final (doSearch lib t s)) searchbar_outer ''searching''
      \<and> current_searchterm (final (doSearch lib t s)) = t" if "\<not> completes (doSearch lib t s)"
    using that insert_results_frame [of lib "js_split '' '' t" ?rs s4] s4
    unfolding run by (cases "insert_results lib (js_split '' '' t) ?rs s4") auto
  with iff show ?thesis by (auto simp: doSearch_def)
qed

text \<open>
  C11: A search for a new term on a loaded index. When every result to be shown refers to an address of
  the index, it runs to its end and shows exactly the first results up to the limit, in the order of
  the index, each with its own teaser number; the line above counts them; the results are visible and
  the box no longer says it is searching; and searching again for the same term changes nothing. When
  some result does not, the listener throws, the box keeps saying that it is searching, and a second
  search for the same term does not repair it.
\<close>

theorem search_shows_results:
  assumes "searchindex s = Some ix" and "current_searchterm s \<noteq> t" and "search_inv s"
    and "rs = shown_results s ix t"
  shows "if list_all (\<lambda>r. sr_ref r < length (doc_urls s)) rs
    then (\<exists>s'. doSearch lib t s = Done s'
      \<and> map (content s') (kids s' searchresults)
          = map (\<lambda>(i, r). result_html lib s (js_split '' '' t) (teaser_count s + i) r) (zip [0..<length rs] rs)
      \<and> content s' searchresults_header = formatSearchMetric (length rs) t
      \<and> length (kids s' searchresults) \<le> limit_results (results_opts s)
      \<and> \<not> has_class s' searchresults_outer ''hidden'' \<and> \<not> has_class s' searchbar_outer ''searching''
      \<and> doSearch lib t s' = Done s')
    else (\<exists>e s'. doSearch lib t s = Throws e s'
      \<and> has_class s' searchbar_outer ''searching'' \<and> doSearch lib t s' = Done s')"
proof (cases "list_all (\<lambda>r. sr_ref r < length (doc_urls s)) rs")
  case True
  have "search_tree s" "\<forall>r \<in> set (shown_results s ix t). sr_ref r < length (doc_urls s)"
    using assms(3,4) True by (simp_all add: search_inv_def list_all_iff)
  from doSearch_displays [OF assms(1,2) this, of lib] obtain s' where
    s': "doSearch lib t s = Done s'"
    "map (content s') (kids s' searchresults)
        = map (\<lambda>(i, r). result_html lib s (js_split '' '' t) (teaser_count s + i) r) (zip [0..<length rs] rs)"
    "content s' searchresults_header = formatSearchMetric (length rs) t"
    "\<not> has_class s' searchresults_outer ''hidden''" "\<not> has_class s' searchbar_outer ''searching''"
    "current_searchterm s' = t" unfolding assms(4) by blast
  from s'(2) have "length (map (content s') (kids s' searchresults)) = length rs" by simp
  then have "length (kids s' searchresults) \<le> limit_results (results_opts s)"
    by (simp add: assms(4) shown_results_def)
  with s' True show ?thesis by (simp only: if_True) (intro exI [of _ s'], simp add: doSearch_def)
next
  case False
  with search_bad_reference [OF assms(1,2), of lib] show ?thesis
    by (cases "doSearch lib t s") (auto simp: assms(4))
qed

definition loaded_search :: "nat list \<Rightarrow> search" where
  "loaded_search ns =
     example_search\<lparr>searchindex := Some (load_index (example_library ns) ''''),
       doc_urls := [''tasks.html'', ''locks.html#lock'']\<rparr>"

lemma loaded_search_inv: "search_inv (loaded_search ns)"
  by (simp add: search_inv_defs example_defs has_class_def loaded_search_def)

theorem search_shows_results_witness:
  "\<exists>s'. doSearch (example_library [1, 0]) ''task'' (loaded_search [1, 0]) = Done s'
     \<and> length (kids s' searchresults) \<le> 30"
proof -
  let ?ix = "load_index (example_library [1, 0]) ''''"
  have ix: "searchindex (loaded_search [1, 0]) = Some ?ix" by (simp add: loaded_search_def)
  have unseen: "current_searchterm (loaded_search [1, 0]) \<noteq> ''task''"
    by (simp add: loaded_search_def example_defs)
  have refs: "\<forall>r \<in> set (shown_results (loaded_search [1, 0]) ?ix ''task'').
      sr_ref r < length (doc_urls (loaded_search [1, 0]))"
    by (simp add: loaded_search_def example_defs shown_results_def example_library_def example_doc_def
        default_results_options_def)
  have lim: "limit_results (results_opts (loaded_search [1, 0])) = 30"
    by (simp add: loaded_search_def example_defs default_results_options_def)
  from search_shows_results [OF ix unseen loaded_search_inv refl, of "example_library [1, 0]"] lim refs
  show ?thesis by (auto simp: list_all_iff)
qed

theorem search_bad_reference_witness:
  "has_class (final (doSearch (example_library [0, 7]) ''task'' (loaded_search [0, 7])))
     searchbar_outer ''searching''"
proof -
  let ?ix = "load_index (example_library [0, 7]) ''''"
  have ix: "searchindex (loaded_search [0, 7]) = Some ?ix" by (simp add: loaded_search_def)
  have unseen: "current_searchterm (loaded_search [0, 7]) \<noteq> ''task''"
    by (simp add: loaded_search_def example_defs)
  have "\<not> list_all (\<lambda>r. sr_ref r < length (doc_urls (loaded_search [0, 7])))
      (shown_results (loaded_search [0, 7]) ?ix ''task'')"
    by (simp add: loaded_search_def example_defs shown_results_def example_library_def example_doc_def
        default_results_options_def)
  with search_bad_reference [OF ix unseen, of "example_library [0, 7]"] show ?thesis by blast
qed

text \<open>
  The arrow keys move one highlight through the results: when exactly the i-th result is
  highlighted and the search box does not have the focus, ArrowDown highlights exactly the next one
  and stays on the last; ArrowUp highlights exactly the previous one, and from the first it clears
  the highlight and selects the search box.
\<close>

lemma arrows_move_highlight:
  assumes one: "one_focused s xs i" and free: "\<not> hasFocus s"
    and e: "\<not> key_ignored e s"
  shows "(key e = ''ArrowDown'' \<longrightarrow>
      one_focused (globalKeyHandler pl e s) xs (if Suc i < length xs then Suc i else i))
    \<and> (key e = ''ArrowUp'' \<longrightarrow> 0 < i \<longrightarrow> one_focused (globalKeyHandler pl e s) xs (i - 1))
    \<and> (key e = ''ArrowUp'' \<longrightarrow> i = 0 \<longrightarrow>
        focused_result (globalKeyHandler pl e s) = None
        \<and> Selected searchbar \<in> set (effects (globalKeyHandler pl e s)))"
proof -
  note f = focused_result_one [OF one]
  from one have xs: "kids s searchresults = xs" "distinct xs" "i < length xs" "0 < length (nodes s)"
    "\<forall>x \<in> set xs. kids s x = [] \<and> par s x = Some searchresults \<and> tag s x = ''LI''"
    "\<forall>j < length xs. has_class s (xs ! j) ''focus'' \<longleftrightarrow> j = i"
    by (auto simp: one_focused_def)
  have par: "par s (xs ! i) = Some searchresults" using xs by simp
  have nxt: "next_in (xs ! i) xs = (if Suc i < length xs then Some (xs ! Suc i) else None)"
    by (rule next_in_nth) (use xs in auto)
  have "rev xs ! (length xs - Suc i) = xs ! i" using xs(3) by (simp add: rev_nth)
  then have prv: "next_in (xs ! i) (rev xs) = (if 0 < i then Some (xs ! (i - 1)) else None)"
    using next_in_nth [of "rev xs" "length xs - Suc i"] xs(2,3)
    by (auto simp: rev_nth Suc_diff_Suc)
  have ij: "xs ! j = xs ! k \<longleftrightarrow> j = k" if "j < length xs" "k < length xs" for j k
    using that xs(2) by (simp add: nth_eq_iff_index_eq)
  have down: "one_focused (globalKeyHandler pl e s) xs (if Suc i < length xs then Suc i else i)"
    if "key e = ''ArrowDown''"
    using that e free f xs par nxt ij
    by (auto simp: globalKeyHandler_def Let_def next_sibling_def one_focused_def)
  have up: "one_focused (globalKeyHandler pl e s) xs (i - 1)" if "key e = ''ArrowUp''" "0 < i"
    using that e free f xs par prv ij
    by (auto simp: globalKeyHandler_def Let_def prev_sibling_def one_focused_def)
  have top: "focused_result (globalKeyHandler pl e s) = None
      \<and> Selected searchbar \<in> set (effects (globalKeyHandler pl e s))" if k: "key e = ''ArrowUp''" "i = 0"
  proof -
    let ?t = "select_text pl searchbar (remove_class (xs ! i) ''focus'' (emit PreventDefault s))"
    have t: "globalKeyHandler pl e s = ?t"
      using k e free f par prv xs(1) by (simp add: globalKeyHandler_def Let_def prev_sibling_def)
    have "below (length (nodes ?t)) ?t searchresults = xs"
      by (rule below_leaves) (use xs in auto)
    moreover have "\<forall>x \<in> set xs. \<not> has_class ?t x ''focus''"
      using xs ij by (auto simp: in_set_conv_nth)
    ultimately have "focused_result ?t = None"
      by (simp add: focused_result_def query_first_def find_None_set)
    then show ?thesis by (simp add: t select_text_def Let_def)
  qed
  show ?thesis using down up top by blast
qed

definition press :: "string \<Rightarrow> key_event" where
  "press k = \<lparr>key = k, alt_key = False, ctrl_key = False, meta_key = False, shift_key = False,
     key_target = Named ''body''\<rparr>"

definition two_results :: "nat \<Rightarrow> search" where
  "two_results i = example_search
     \<lparr>tag := (\<lambda>r. if r \<in> {Node 0, Node 1} then ''LI'' else ''DIV''),
      kids := (\<lambda>r. if r = html_root then [html_head] else if r = searchresults then [Node 0, Node 1] else []),
      par := (\<lambda>r. if r \<in> {Node 0, Node 1} then Some searchresults else None),
      classes := (\<lambda>r. if r = Node i then [''focus''] else []), fresh := 2\<rparr>"

lemma two_results_one: "i < 2 \<Longrightarrow> one_focused (two_results i) [Node 0, Node 1] i"
  by (auto simp: one_focused_def two_results_def example_defs has_class_def less_Suc_eq numeral_2_eq_2)

lemma two_results_free: "\<not> hasFocus (two_results i)"
  by (simp add: hasFocus_def two_results_def example_defs)

lemma press_active: "\<not> key_ignored (press k) (two_results i)"
  by (simp add: key_ignored_def press_def two_results_def example_defs input_type_def is_field_def
      hasFocus_def to_lower_def lower_char_def code_def)

theorem arrows_move_highlight_witness:
  "one_focused (globalKeyHandler example_platform (press ''ArrowDown'') (two_results 0)) [Node 0, Node 1] 1"
proof -
  have one: "one_focused (two_results 0) [Node 0, Node 1] 0" by (rule two_results_one) simp
  have act: "\<not> key_ignored (press ''ArrowDown'') (two_results 0)" by (rule press_active)
  show ?thesis
    using arrows_move_highlight [OF one two_results_free act, where pl = example_platform]
    by (simp add: press_def)
qed

lemma unfocus_frame:
  "x \<noteq> Node (fresh s) \<Longrightarrow> has_class (unfocusSearchbar s) x c = has_class s x c"
  "kids (unfocusSearchbar s) searchresults = kids s searchresults"
  by (auto simp: unfocusSearchbar_def remove_focused_def focus_on_def create_element_def Let_def
      append_child_def remove_node_def set_attr_def has_class_def)

lemma showSearch_True_frame:
  assumes "known s x"
  shows "has_class (showSearch True s) x ''focus'' = has_class s x ''focus''"
    "kids (showSearch True s) searchresults = kids s searchresults"
    "known (showSearch True s) x"
  using assms
  by (auto simp: showSearch_def loadSearchScript_def create_element_def append_child_def remove_node_def
      set_ident_def set_attr_def Let_def add_class_def remove_class_def has_class_def known_def)

text \<open>
  The highlight is not always single: with the i-th result highlighted, i not the first, going
  back to the search box with the key s and pressing ArrowDown there highlights the first result
  without clearing the other, so two results are highlighted at once.
\<close>

lemma two_results_highlighted:
  assumes "one_focused s xs i" and "0 < i" and "\<forall>x \<in> set xs. known s x"
    and "\<not> hasFocus s" and "select_focuses pl"
    and "\<not> key_ignored e s" and "key e = ''s''" and "s' = globalKeyHandler pl e s"
    and "\<not> key_ignored e' s'" and "key e' = ''ArrowDown''" and "t = globalKeyHandler pl e' s'"
  shows "kids t searchresults = xs \<and> has_class t (xs ! 0) ''focus'' \<and> has_class t (xs ! i) ''focus''"
proof -
  have xs: "kids s searchresults = xs" "i < length xs" "has_class s (xs ! i) ''focus''"
    using assms(1) by (auto simp: one_focused_def)
  let ?p = "emit PreventDefault s"
  have s': "s' = select_text pl searchbar (emit ScrollTo0 (showSearch True ?p))"
    using assms by (simp add: globalKeyHandler_def Let_def)
  have "xs ! i \<in> set xs" using xs(2) by simp
  then have kn: "known ?p (xs ! i)" using assms(3) by (auto simp: known_def emit_def)
  have focus: "hasFocus s'"
    using assms(5) by (simp add: s' select_text_def hasFocus_def Let_def)
  have kids: "kids s' searchresults = xs"
    using showSearch_True_frame(2) [OF kn] xs(1) by (simp add: s')
  have hl: "has_class s' (xs ! i) ''focus''"
    using showSearch_True_frame(1) [OF kn] xs(3) by (simp add: s')
  have "fresh (select_text pl r q) = fresh q" "fresh (emit ev q) = fresh q" for r ev and q :: search
    by (simp_all add: select_text_def emit_def focus_on_def Let_def)
  then have kn': "known s' (xs ! i)"
    using showSearch_True_frame(3) [OF kn] by (simp add: s' known_def)
  obtain x ys where cons: "xs = x # ys" using xs(2) by (cases xs) auto
  have t: "t = add_class x ''focus'' (unfocusSearchbar (emit PreventDefault s'))"
    using assms focus kids cons by (simp add: globalKeyHandler_def Let_def)
  have "xs ! i \<noteq> Node (fresh (emit PreventDefault s'))"
    using kn' by (auto simp: known_def emit_def)
  from unfocus_frame(1) [OF this] show ?thesis
    using hl kids by (simp add: t unfocus_frame(2) cons)
qed

theorem two_results_highlighted_witness:
  "\<exists>t :: search. kids t searchresults = [Node 0, Node 1]
     \<and> has_class t (Node 0) ''focus'' \<and> has_class t (Node 1) ''focus''"
proof -
  let ?s' = "globalKeyHandler example_platform (press ''s'') (two_results 1)"
  have kn: "\<forall>x \<in> set [Node 0, Node 1]. known (two_results 1) x"
    by (simp add: known_def two_results_def example_defs)
  have sel: "select_focuses example_platform" by (simp add: example_platform_def)
  have "hasFocus ?s'"
    using press_active two_results_free sel
    by (simp add: globalKeyHandler_def press_def select_text_def hasFocus_def Let_def)
  moreover have "attrs ?s' (Named ''body'') = Map.empty" "tag ?s' (Named ''body'') = ''DIV''"
    using press_active two_results_free
    by (simp_all add: globalKeyHandler_def press_def Let_def showSearch_def loadSearchScript_def select_text_def
        create_element_def append_child_def remove_node_def set_ident_def two_results_def example_defs)
  ultimately have act: "\<not> key_ignored (press ''ArrowDown'') ?s'"
    by (simp add: key_ignored_def press_def input_type_def)
  show ?thesis
    using two_results_highlighted [OF two_results_one _ kn two_results_free sel press_active _ refl act _ refl]
    by (auto simp: press_def)
qed

text \<open>
  Escape closes the search: the box is hidden, no result is highlighted, the search box has
  neither the focus nor its active look, the address carries neither a search nor a highlight
  parameter, and the marks in the text are taken away.
\<close>

lemma escape_closes:
  assumes "\<not> key_ignored e s" and "key e = ''Escape''"
    and "t = globalKeyHandler pl e s"
  shows "has_class t search_wrap ''hidden'' \<and> list_all (\<lambda>li. \<not> has_class t li ''focus'') (kids t searchresults)
    \<and> \<not> hasFocus t \<and> \<not> has_class t searchbar ''active'' \<and> last (effects t) = Unmark
    \<and> (\<exists>a. href t = resolve pl (renderURL (search_url '''' a (parseURL pl (href s))))
         \<and> map_of (u_params (search_url '''' a (parseURL pl (href s)))) ''search'' = None
         \<and> map_of (u_params (search_url '''' a (parseURL pl (href s)))) ''highlight'' = None)"
proof -
  let ?a = "if trim (searchbar_value s) \<noteq> '''' then PushAction else ReplaceAction"
  let ?s1 = "remove_class searchbar ''active'' (emit PreventDefault s)"
  define s3 where "s3 = (let s2 = setSearchUrlParameters pl '''' ?a ?s1
      in if hasFocus s2 then unfocusSearchbar s2 else s2)"
  have t: "t = emit Unmark (showSearch False s3)"
    using assms by (simp add: globalKeyHandler_def s3_def Let_def)
  have uf: "href (unfocusSearchbar p) = href p"
    "has_class (unfocusSearchbar p) searchbar c = has_class p searchbar c" for p :: search and c
    by (simp_all add: unfocusSearchbar_def remove_focused_def focus_on_def create_element_def Let_def
        append_child_def remove_node_def set_attr_def has_class_def)
  have hr: "href (setSearchUrlParameters pl '''' ?a p)
      = resolve pl (renderURL (search_url '''' ?a (parseURL pl (href p))))" for p :: search
    by (simp add: setSearchUrlParameters_def push_state_def replace_state_def Let_def)
  have "\<not> hasFocus s3" by (simp add: s3_def Let_def hasFocus_unfocus)
  moreover have "href s3 = resolve pl (renderURL (search_url '''' ?a (parseURL pl (href s))))"
    "\<not> has_class s3 searchbar ''active''"
    by (simp_all add: s3_def Let_def uf hr)
  ultimately have s3: "\<not> hasFocus s3" "href s3 = resolve pl (renderURL (search_url '''' ?a (parseURL pl (href s))))"
    "\<not> has_class s3 searchbar ''active''" by simp_all
  have gone: "map_of (u_params (search_url '''' ?a u)) ''search'' = None"
    "map_of (u_params (search_url '''' ?a u)) ''highlight'' = None" for u
    by (auto simp: search_url_def map_of_obj_delete)
  have "\<not> has_class (showSearch False s3) searchbar ''active''"
    using s3(3) by (simp add: showSearch_def Let_def has_class_fold_remove)
  moreover have "has_class (showSearch False s3) search_wrap ''hidden''"
    using search_box.close_closes by blast
  moreover have "\<forall>li \<in> set (kids s3 searchresults). \<not> has_class (showSearch False s3) li ''focus''"
    by (simp add: showSearch_def Let_def has_class_fold_remove)
  ultimately show ?thesis
    using s3 gone by (auto simp: t hasFocus_def list_all_iff)
qed

theorem escape_closes_witness:
  "has_class (globalKeyHandler example_platform (press ''Escape'') (two_results 0)) search_wrap ''hidden''"
proof -
  have act: "\<not> key_ignored (press ''Escape'') (two_results 0)" by (rule press_active)
  show ?thesis
    using escape_closes [OF act _ refl, where pl = example_platform] by (simp add: press_def)
qed

end
