(* ===== verification/Search_Teaser.thy ===== *)
theory Search_Teaser
  imports Search_Text
begin

text \<open>
  What a teaser is, apart from the loops of \<open>makeTeaser\<close>: pieces of the body that follow each other, each
  a whole word or what separates words, the search terms enclosed in em tags. And which window it shows.
\<close>

section \<open>Words and what separates them\<close>

text \<open>Words end at a space, at a full stop before a space, and at the end of the text.\<close>

definition separator :: "string \<Rightarrow> nat \<Rightarrow> bool" where
  "separator tx k \<longleftrightarrow> starts_with (drop k tx) '' '' \<or> starts_with (drop k tx) ''. ''"

definition separators :: "string \<Rightarrow> nat \<Rightarrow> nat \<Rightarrow> bool" where
  "separators tx i j \<longleftrightarrow> list_all (separator tx) [i..<j]"

definition whole_word :: "string \<Rightarrow> nat \<Rightarrow> nat \<Rightarrow> bool" where
  \<comment> \<open>from \<open>i\<close> up to \<open>j\<close>\<close>
  "whole_word tx i j \<longleftrightarrow> i < j \<and> j \<le> length tx \<and> CHR '' '' \<notin> set (take (j - i) (drop i tx)) \<and>
     (i = 0 \<or> tx ! (i - 1) = CHR '' '') \<and> (j = length tx \<or> separator tx j)"

lemma separators_empty [simp]: "j \<le> i \<Longrightarrow> separators tx i j"
  by (simp add: separators_def)

lemma separators_append: "separators tx i j \<Longrightarrow> separators tx j k \<Longrightarrow> separators tx i k"
  by (auto simp: separators_def list_all_iff)

lemma separators_Suc: "separators tx i j \<Longrightarrow> separator tx j \<Longrightarrow> separators tx i (Suc j)"
  by (auto simp: separators_def list_all_iff less_Suc_eq)

lemma separator_append: "separator (pre @ post) (length pre) = separator post 0"
  by (simp add: separator_def)

text \<open>Lower case keeps the separators and so the words.\<close>

lemma code_is: "code c = 32 \<longleftrightarrow> c = CHR '' ''" "code c = 46 \<longleftrightarrow> c = CHR ''.''"
proof -
  have "code c = code d \<longleftrightarrow> c = d" for d by (simp add: code_def)
  from this [of "CHR '' ''"] this [of "CHR ''.''"] show "code c = 32 \<longleftrightarrow> c = CHR '' ''" "code c = 46 \<longleftrightarrow> c = CHR ''.''"
    by (simp_all add: code_def)
qed

lemma lower_char_code: "code (lower_char c) =
    (if 65 \<le> code c \<and> code c \<le> 90 \<or> 192 \<le> code c \<and> code c \<le> 222 \<and> code c \<noteq> 215 then code c + 32 else code c)"
  by (simp add: lower_char_def code_def Let_def)

lemma lower_char_separator [simp]:
  "lower_char c = CHR '' '' \<longleftrightarrow> c = CHR '' ''" "lower_char c = CHR ''.'' \<longleftrightarrow> c = CHR ''.''"
  "CHR '' '' = lower_char c \<longleftrightarrow> c = CHR '' ''" "CHR ''.'' = lower_char c \<longleftrightarrow> c = CHR ''.''"
  unfolding eq_commute [of _ "lower_char c"] code_is [symmetric] lower_char_code by auto

lemma starts_with_lower:
  "starts_with (to_lower s) '' '' = starts_with s '' ''" "starts_with (to_lower s) ''. '' = starts_with s ''. ''"
  by (cases s; cases "tl s"; auto simp: starts_with_def to_lower_def)+

lemma separator_lower [simp]: "separator (to_lower tx) k = separator tx k"
  using starts_with_lower [of "drop k tx"] by (simp add: separator_def to_lower_def drop_map)

lemma separators_lower [simp]: "separators (to_lower tx) i j = separators tx i j"
  by (simp add: separators_def list_all_iff)

lemma whole_word_lower [simp]: "whole_word (to_lower tx) i j = whole_word tx i j"
proof -
  have "CHR '' '' \<in> set (take n (drop i (to_lower tx))) \<longleftrightarrow> CHR '' '' \<in> set (take n (drop i tx))" for n
    by (auto simp: to_lower_def drop_map take_map image_iff)
  moreover have "to_lower tx ! (i - 1) = CHR '' '' \<longleftrightarrow> tx ! (i - 1) = CHR '' ''" if "i < j" "j \<le> length tx"
    using that by (simp add: to_lower_def)
  ultimately show ?thesis unfolding whole_word_def length_to_lower separator_lower by blast
qed

section \<open>The scan finds the words\<close>

definition entry_end :: "entry \<Rightarrow> nat" where
  "entry_end e = (case e of (w, v, p) \<Rightarrow> p + length w)"

definition entries_end :: "entry list \<Rightarrow> nat" where
  "entries_end es = (if es = [] then 0 else entry_end (last es))"

definition entry_gap :: "string \<Rightarrow> entry \<Rightarrow> entry \<Rightarrow> bool" where
  "entry_gap tx e e' \<longleftrightarrow> separators tx (entry_end e) (snd (snd e'))"

definition words_found :: "string \<Rightarrow> nat \<Rightarrow> entry list \<Rightarrow> bool" where
  \<comment> \<open>up to \<open>i\<close>: the entries are words, and only separators are between and behind them\<close>
  "words_found tx i es \<longleftrightarrow> list_all (\<lambda>e. whole_word tx (snd (snd e)) (entry_end e)) es \<and>
     successively (entry_gap tx) es \<and> separators tx (entries_end es) (min i (length tx)) \<and>
     (es \<noteq> [] \<longrightarrow> separators tx 0 (snd (snd (hd es))))"

text \<open>Where a word or a sentence can begin and end in the text.\<close>

definition word_start :: "string \<Rightarrow> bool" where
  "word_start pre \<longleftrightarrow> pre = [] \<or> last pre = CHR '' ''"

definition word_stop :: "string \<Rightarrow> bool" where
  "word_stop post \<longleftrightarrow> post = [] \<or> separator post 0"

lemma words_found_next:
  assumes "words_found tx i es" and "word_stop (drop i tx)"
  shows "words_found tx (Suc i) es"
proof (cases "i < length tx")
  case True
  then have "separator tx i" using assms(2) by (simp add: word_stop_def separator_def)
  then show ?thesis using True assms(1) separators_Suc [of tx "entries_end es" i]
    by (auto simp: words_found_def min_def split: if_splits)
next
  case False
  then have "min (Suc i) (length tx) = min i (length tx)" by simp
  then show ?thesis using assms(1) by (simp add: words_found_def)
qed

lemma words_found_word:
  assumes f: "words_found (pre @ w @ post) (length pre) es" and w: "w \<noteq> []" "CHR '' '' \<notin> set w"
    and pre: "word_start pre" and post: "word_stop post"
  shows "words_found (pre @ w @ post) (length pre + length w) (es @ [(w, v, length pre)])"
proof -
  have "whole_word (pre @ w @ post) (length pre) (length pre + length w)"
  proof -
    have "pre = [] \<or> (pre @ w @ post) ! (length pre - 1) = CHR '' ''"
      using pre by (cases pre rule: rev_cases) (simp_all add: word_start_def nth_append)
    then show ?thesis using w post by (auto simp: whole_word_def word_stop_def separator_def)
  qed
  moreover have "separators (pre @ w @ post) (entries_end es) (length pre)" using f by (simp add: words_found_def)
  then have "es \<noteq> [] \<longrightarrow> entry_gap (pre @ w @ post) (last es) (w, v, length pre)"
    "es = [] \<longrightarrow> separators (pre @ w @ post) 0 (length pre)"
    by (cases "es = []"; simp add: entry_gap_def entries_end_def)+
  ultimately show ?thesis using f
    by (cases "es = []") (auto simp: words_found_def successively_append_iff entries_end_def entry_end_def)
qed

lemma weigh_word_words:
  assumes f: "words_found (pre @ w @ post) (length pre) (ts_weighted st)" and idx: "ts_index st = length pre"
    and w: "CHR '' '' \<notin> set w" and pre: "word_start pre" and post: "word_stop post"
  shows "words_found (pre @ w @ post) (Suc (length pre + length w)) (ts_weighted (weigh_word stemmer terms w st))"
proof -
  have stop: "word_stop (drop (length pre + length w) (pre @ w @ post))" using post by simp
  show ?thesis
  proof (cases "w = []")
    case True
    then show ?thesis using f words_found_next [OF _ stop] by (simp add: weigh_word_def)
  next
    case False
    obtain v where "ts_weighted (weigh_word stemmer terms w st) = ts_weighted st @ [(w, v, length pre)]"
      using False idx by (simp add: weigh_word_def Let_def)
    then show ?thesis using words_found_next [OF words_found_word [OF f False w pre post] stop] by simp
  qed
qed

lemma weigh_word_index: "ts_index (weigh_word stemmer terms w st) = Suc (ts_index st + length w)"
  by (simp add: weigh_word_def Let_def)

lemma weigh_words_words:
  assumes "words_found tx (length pre) (ts_weighted st)" and "tx = pre @ js_join '' '' ws @ post" and "ws \<noteq> []"
    and "ts_index st = length pre" and "\<forall>w \<in> set ws. CHR '' '' \<notin> set w" and "word_start pre" and "word_stop post"
  shows "words_found tx (Suc (length pre + length (js_join '' '' ws))) (ts_weighted (fold (weigh_word stemmer terms) ws st))
       \<and> ts_index (fold (weigh_word stemmer terms) ws st) = Suc (length pre + length (js_join '' '' ws))"
  using assms
proof (induction ws arbitrary: st pre)
  case Nil
  then show ?case by simp
next
  case (Cons w ws)
  let ?st = "weigh_word stemmer terms w st"
  show ?case
  proof (cases "ws = []")
    case True
    with Cons.prems show ?thesis using weigh_word_words [of pre w post st] by (simp add: weigh_word_index)
  next
    case False
    let ?post = "'' '' @ js_join '' '' ws @ post"
    have tx: "tx = pre @ w @ ?post" using Cons.prems(2) False by (simp add: js_join_Cons)
    have "words_found (pre @ w @ ?post) (length pre) (ts_weighted st)"
      using Cons.prems(1) by (simp only: tx [symmetric])
    then have "words_found tx (Suc (length pre + length w)) (ts_weighted ?st)"
      unfolding tx
      by (rule weigh_word_words) (use Cons.prems in \<open>simp_all add: word_stop_def separator_def starts_with_def\<close>)
    then show ?thesis
      using Cons.IH [of "pre @ w @ '' ''" ?st] Cons.prems tx False
      by (simp add: js_join_Cons weigh_word_index word_start_def add.assoc)
  qed
qed

lemma weigh_sentence_words:
  assumes f: "words_found (pre @ s @ post) (length pre) (ts_weighted st)" and idx: "ts_index st = length pre"
    and pre: "word_start pre" and post: "post = [] \<or> starts_with post ''. ''"
  shows "words_found (pre @ s @ post) (length pre + length s + 2) (ts_weighted (weigh_sentence stemmer terms s st))
    \<and> ts_index (weigh_sentence stemmer terms s st) = length pre + length s + 2"
proof -
  let ?r = "fold (weigh_word stemmer terms) (js_split '' '' s) (st\<lparr>ts_value := 8\<rparr>)"
  have stop: "word_stop post" using post by (auto simp: word_stop_def separator_def)
  have r: "words_found (pre @ s @ post) (Suc (length pre + length s)) (ts_weighted ?r)"
    "ts_index ?r = Suc (length pre + length s)"
  proof -
    have no: "\<forall>w \<in> set (js_split '' '' s). CHR '' '' \<notin> set w" by (intro ballI) (rule split_char_no_sep)
    have "words_found (pre @ s @ post) (length pre) (ts_weighted (st\<lparr>ts_value := 8\<rparr>))" using f by simp
    from weigh_words_words [OF this _ _ _ no pre stop, of stemmer terms] idx
    show "words_found (pre @ s @ post) (Suc (length pre + length s)) (ts_weighted ?r)"
      "ts_index ?r = Suc (length pre + length s)" by (simp_all add: join_split)
  qed
  have "word_stop (drop 1 post)"
    using post by (cases post) (auto simp: word_stop_def separator_def starts_with_def)
  then have "word_stop (drop (Suc (length pre + length s)) (pre @ s @ post))" by simp
  from words_found_next [OF r(1) this] r(2) show ?thesis by (simp add: weigh_sentence_def Let_def)
qed

lemma weigh_sentences_words:
  assumes "words_found tx (length pre) (ts_weighted st)" and "tx = pre @ js_join ''. '' ss" and "ss \<noteq> []"
    and "ts_index st = length pre" and "word_start pre"
  shows "\<exists>i \<ge> length tx. words_found tx i (ts_weighted (fold (weigh_sentence stemmer terms) ss st))"
  using assms
proof (induction ss arbitrary: st pre)
  case Nil
  then show ?case by simp
next
  case (Cons s ss)
  let ?st = "weigh_sentence stemmer terms s st"
  show ?case
  proof (cases "ss = []")
    case True
    with Cons.prems show ?thesis using weigh_sentence_words [of pre s "[]" st]
      by (intro exI [of _ "length tx + 2"]) simp
  next
    case False
    let ?post = "''. '' @ js_join ''. '' ss"
    have tx: "tx = pre @ s @ ?post" using Cons.prems(2) False by (simp add: js_join_Cons)
    have "words_found (pre @ s @ ?post) (length pre) (ts_weighted st)"
      using Cons.prems(1) by (simp only: tx [symmetric])
    then have "words_found tx (length pre + length s + 2) (ts_weighted ?st) \<and> ts_index ?st = length pre + length s + 2"
      unfolding tx by (rule weigh_sentence_words) (use Cons.prems in \<open>simp_all add: starts_with_def\<close>)
    then show ?thesis
      using Cons.IH [of "pre @ s @ ''. ''" ?st] tx False by (simp add: word_start_def)
  qed
qed

lemma weigh_body_words:
  "words_found body (length body) (ts_weighted (weigh_body stemmer terms body))"
proof -
  let ?ws = "ts_weighted (weigh_body stemmer terms body)"
  obtain i where "length (to_lower body) \<le> i" "words_found (to_lower body) i ?ws"
    unfolding weigh_body_def
    using weigh_sentences_words [of "to_lower body" "[]" "\<lparr>ts_index = 0, ts_value = 0, ts_found = False, ts_weighted = []\<rparr>"
        "js_split ''. '' (to_lower body)" stemmer terms]
    by (auto simp: join_split words_found_def word_start_def entries_end_def)
  moreover have "entry_gap (to_lower body) = entry_gap body" by (simp add: entry_gap_def fun_eq_iff)
  ultimately show ?thesis by (simp add: words_found_def)
qed

section \<open>The pieces of a teaser\<close>

text \<open>A piece is a text and whether it is enclosed: a word, enclosed when it is a search term, or separators.\<close>

definition em_piece :: "bool \<times> string \<Rightarrow> string" where
  "em_piece x = (case x of (m, u) \<Rightarrow> if m then ''<em>'' @ u @ ''</em>'' else u)"

definition piece_ok :: "(string \<Rightarrow> bool) \<Rightarrow> string \<Rightarrow> nat \<Rightarrow> bool \<times> string \<Rightarrow> bool" where
  "piece_ok is_sought tx p x = (case x of (m, u) \<Rightarrow>
     p + length u \<le> length tx \<and> take (length u) (drop p tx) = u \<and>
     (if whole_word tx p (p + length u) then m = is_sought (to_lower u)
      else \<not> m \<and> separators tx p (p + length u)))"

primrec pieces_ok :: "(string \<Rightarrow> bool) \<Rightarrow> string \<Rightarrow> nat \<Rightarrow> (bool \<times> string) list \<Rightarrow> bool" where
  \<comment> \<open>the pieces follow each other in the text from \<open>p\<close> on\<close>
  "pieces_ok T tx p [] = True"
| "pieces_ok T tx p (x # xs) \<longleftrightarrow> piece_ok T tx p x \<and> pieces_ok T tx (p + length (snd x)) xs"

definition pieces_text :: "(bool \<times> string) list \<Rightarrow> string" where
  "pieces_text xs = concat (map snd xs)"

lemma pieces_text_simps [simp]:
  "pieces_text [] = []" "pieces_text (x # xs) = snd x @ pieces_text xs" "pieces_text (xs @ ys) = pieces_text xs @ pieces_text ys"
  by (simp_all add: pieces_text_def)

lemma pieces_ok_append:
  "pieces_ok T tx p (xs @ ys) \<longleftrightarrow> pieces_ok T tx p xs \<and> pieces_ok T tx (p + length (pieces_text xs)) ys"
  by (induction xs arbitrary: p) (simp_all add: add.assoc)

text \<open>The pieces are a slice of the text.\<close>

lemma pieces_slice:
  "pieces_ok T tx p xs \<Longrightarrow> p \<le> length tx \<Longrightarrow>
     p + length (pieces_text xs) \<le> length tx \<and> pieces_text xs = take (length (pieces_text xs)) (drop p tx)"
proof (induction xs arbitrary: p)
  case (Cons x xs)
  obtain m u where x: "x = (m, u)" by fastforce
  have u: "p + length u \<le> length tx" "take (length u) (drop p tx) = u" using Cons.prems by (simp_all add: x piece_ok_def)
  then have "p + length u + length (pieces_text xs) \<le> length tx \<and>
      pieces_text xs = take (length (pieces_text xs)) (drop (p + length u) tx)"
    using Cons by (simp add: x)
  then show ?case using u by (simp add: x take_add add.commute)
qed simp

text \<open>Separators that end with a space are no word.\<close>

lemma gap_piece_ok:
  assumes "separators tx i j" and "i < j" and "j \<le> length tx" and "tx ! (j - 1) = CHR '' ''"
  shows "piece_ok T tx i (False, substring tx i j)"
proof -
  have "take (j - i) (drop i tx) ! (j - i - 1) = CHR '' ''" using assms(2-4) by simp
  then have "CHR '' '' \<in> set (take (j - i) (drop i tx))"
    using assms(2,3) nth_mem [of "j - i - 1" "take (j - i) (drop i tx)"] by simp
  then show ?thesis using assms by (simp add: piece_ok_def whole_word_def substring_le)
qed

lemma word_piece_ok:
  assumes "whole_word tx i j" and "m = T (to_lower (substring tx i j))"
  shows "piece_ok T tx i (m, substring tx i j)"
proof -
  have ij: "i < j" "j \<le> length tx" using assms(1) by (simp_all add: whole_word_def)
  then have "substring tx i j = take (j - i) (drop i tx)" "length (substring tx i j) = j - i"
    "i + length (substring tx i j) = j" by (simp_all add: substring_le)
  then show ?thesis using assms ij by (simp only: piece_ok_def prod.case if_True simp_thms)
qed

text \<open>What the marking loop has written.\<close>

definition pieces_written :: "(string \<Rightarrow> bool) \<Rightarrow> string \<Rightarrow> nat \<Rightarrow> nat \<times> string list \<Rightarrow> bool" where
  "pieces_written T tx start st \<longleftrightarrow> (case st of (index, split) \<Rightarrow>
     \<exists>xs. concat split = concat (map em_piece xs) \<and> pieces_ok T tx start xs \<and> start + length (pieces_text xs) = index)"

definition marks_ok :: "(string \<Rightarrow> bool) \<Rightarrow> string \<Rightarrow> entry \<Rightarrow> bool" where
  "marks_ok T tx e = (case e of (w, v, p) \<Rightarrow>
     whole_word tx p (p + length w) \<and> (v = searchterm_weight \<longleftrightarrow> T (to_lower (substring tx p (p + length w)))))"

lemma mark_word_pieces:
  assumes st: "pieces_written T tx start (index, split)" and e: "marks_ok T tx (w, v, p)"
    and gap: "index \<le> p" "separators tx index p"
  shows "pieces_written T tx start (mark_word tx (index, split) (w, v, p))"
proof -
  obtain xs where xs: "concat split = concat (map em_piece xs)" "pieces_ok T tx start xs"
    "start + length (pieces_text xs) = index" using st by (auto simp: pieces_written_def)
  have w: "whole_word tx p (p + length w)" "p + length w \<le> length tx" "w \<noteq> []"
    using e by (auto simp: marks_ok_def whole_word_def)
  let ?gap = "if index < p then [(False, substring tx index p)] else []"
  let ?word = "(v = searchterm_weight, substring tx p (p + length w))"
  have g: "pieces_ok T tx index ?gap" "index + length (pieces_text ?gap) = p"
  proof -
    have "tx ! (p - 1) = CHR '' ''" if "index < p" using w(1) that by (auto simp: whole_word_def)
    then show "pieces_ok T tx index ?gap" using gap_piece_ok [OF gap(2)] w(2) by simp
    show "index + length (pieces_text ?gap) = p" using gap(1) w(2) by (simp add: substring_le)
  qed
  have "piece_ok T tx p ?word" using e word_piece_ok [OF w(1)] by (simp add: marks_ok_def)
  then have "pieces_ok T tx start (xs @ ?gap @ [?word])"
    using xs(2,3) g by (simp add: pieces_ok_append)
  moreover have "start + length (pieces_text (xs @ ?gap @ [?word])) = p + length w"
    using xs(3) g(2) w(2) by (simp add: substring_le)
  moreover have "concat (snd (mark_word tx (index, split) (w, v, p))) = concat (map em_piece (xs @ ?gap @ [?word]))"
    using xs(1) by (simp add: mark_word_def Let_def em_piece_def)
  moreover have "fst (mark_word tx (index, split) (w, v, p)) = p + length w" by (simp add: mark_word_def Let_def)
  ultimately show ?thesis unfolding pieces_written_def case_prod_beta
    by (intro exI [of _ "xs @ ?gap @ [?word]"]) (simp only: simp_thms)
qed

lemma mark_words_pieces:
  assumes "pieces_written T tx start (index, split)" and "list_all (marks_ok T tx) es"
    and "es \<noteq> [] \<longrightarrow> index \<le> snd (snd (hd es)) \<and> separators tx index (snd (snd (hd es)))"
    and "successively (\<lambda>e e'. entry_end e \<le> snd (snd e') \<and> entry_gap tx e e') es"
  shows "pieces_written T tx start (foldl (mark_word tx) (index, split) es)"
  using assms
proof (induction es arbitrary: index split)
  case (Cons e es)
  obtain w v p where e: "e = (w, v, p)" by (cases e)
  have "pieces_written T tx start (mark_word tx (index, split) (w, v, p))"
    using Cons.prems e by (intro mark_word_pieces) auto
  moreover obtain split' where "mark_word tx (index, split) (w, v, p) = (p + length w, split')"
    by (simp add: mark_word_def Let_def)
  ultimately show ?case using Cons e by (auto simp: successively_Cons entry_gap_def entry_end_def)
qed simp

lemma foldl_nth_slice:
  "m + n \<le> length es \<Longrightarrow> foldl (\<lambda>s i. f s (es ! i)) s [m..<m + n] = foldl f s (take n (drop m es))"
proof (induction n)
  case (Suc n)
  then show ?case by (simp add: take_Suc_conv_app_nth)
qed simp

lemma teaser_text_slice:
  "m + n \<le> length es \<Longrightarrow>
     teaser_text body es m n = concat (snd (foldl (mark_word body) (snd (snd (es ! m)), []) (take n (drop m es))))"
  by (simp add: teaser_text_def foldl_nth_slice case_prod_unfold)

lemma successively_slice: "successively P xs \<Longrightarrow> successively P (take n (drop m xs))"
  by (metis append_take_drop_id successively_append_iff)

text \<open>The entries of the scan are what the loop needs.\<close>

lemma scan_entries:
  fixes stemmer :: "string \<Rightarrow> string" and body :: string and ts :: "string list"
  defines "ws \<equiv> ts_weighted (weigh_body stemmer ts body)"
  shows "list_all (marks_ok (is_term stemmer ts) body) ws"
    and "successively (\<lambda>e e'. entry_end e \<le> snd (snd e') \<and> entry_gap body e e') ws"
proof -
  have ok: "scan_ok stemmer ts (to_lower body) (weigh_body stemmer ts body)" by (rule weigh_body_ok)
  have words: "words_found body (length body) ws" unfolding ws_def by (rule weigh_body_words)
  have low: "to_lower (substring body i j) = substring (to_lower body) i j" for i j
    by (simp add: substring_def Let_def to_lower_def drop_map take_map)
  show "list_all (marks_ok (is_term stemmer ts) body) ws"
    using ok words
    by (fastforce simp: list_all_iff marks_ok_def low scan_ok_def entry_ok_def words_found_def entry_end_def ws_def)
  have "sorted_wrt entry_before ws" using ok by (simp add: scan_ok_def ws_def)
  then have "successively entry_before ws" by (rule successively_if_sorted_wrt)
  moreover have "successively (entry_gap body) ws" using words by (simp add: words_found_def)
  ultimately show "successively (\<lambda>e e'. entry_end e \<le> snd (snd e') \<and> entry_gap body e e') ws"
    by (induction ws rule: induct_list012) (auto simp: entry_end_def)
qed

lemma makeTeaser_pieces:
  fixes stemmer :: "string \<Rightarrow> string" and terms :: "string list"
  defines "ts \<equiv> map (\<lambda>w. stemmer (to_lower w)) terms"
  obtains xs p where "makeTeaser stemmer twc body terms = concat (map em_piece xs)"
    and "pieces_ok (is_term stemmer ts) body p xs" and "p \<le> length body"
proof -
  let ?st = "weigh_body stemmer ts body"
  let ?ws = "ts_weighted ?st"
  let ?T = "is_term stemmer ts"
  obtain m n where mn: "choose_window twc ?st = (m, n)" by fastforce
  have bound: "m + n \<le> length ?ws" by (rule choose_window_bounds [OF mn])
  show thesis
  proof (cases "?ws = []")
    case True
    then have all: "separators body 0 (length body)"
      using weigh_body_words [of body stemmer ts] by (simp add: words_found_def entries_end_def)
    have "piece_ok ?T body 0 (False, body)"
    proof (cases body rule: rev_cases)
      case (snoc us c)
      then have "separator body (length us)" using all by (simp add: separators_def)
      then have "c = CHR '' ''" using snoc by (simp add: separator_def starts_with_def)
      then show ?thesis using all snoc gap_piece_ok [OF all, of ?T] by (simp add: substring_le)
    qed (simp add: piece_ok_def whole_word_def)
    then show thesis using True
      by (intro that [of "[(False, body)]" 0]) (simp_all add: makeTeaser_def Let_def em_piece_def flip: ts_def)
  next
    case False
    define start where "start = snd (snd (?ws ! m))"
    let ?es = "take n (drop m ?ws)"
    have T: "makeTeaser stemmer twc body terms = concat (snd (foldl (mark_word body) (start, []) ?es))"
      using False mn by (simp add: makeTeaser_def Let_def teaser_text_slice [OF bound] start_def flip: ts_def)
    show thesis
    proof (cases "n = 0")
      case True
      then show thesis by (intro that [of "[]" 0]) (simp_all add: T)
    next
      case n: False
      with bound have m: "m < length ?ws" by simp
      have hd: "hd ?es = ?ws ! m" "?es \<noteq> []" using m n by (simp_all add: hd_drop_conv_nth)
      have "pieces_written ?T body start (start, [])"
        unfolding pieces_written_def by (auto intro!: exI [of _ "[]"])
      moreover have "list_all (marks_ok ?T body) ?es" using scan_entries(1) [where stemmer = stemmer and ts = ts and body = body]
        by (auto simp: list_all_iff dest!: in_set_takeD in_set_dropD)
      ultimately have "pieces_written ?T body start (foldl (mark_word body) (start, []) ?es)"
        by (rule mark_words_pieces)
          (use hd scan_entries(2) [where stemmer = stemmer and ts = ts and body = body] in \<open>simp_all add: start_def successively_slice\<close>)
      moreover have "start \<le> length body"
        using scan_entries(1) [where stemmer = stemmer and ts = ts and body = body] nth_mem [OF m] unfolding start_def
        by (cases "?ws ! m") (auto simp: list_all_iff marks_ok_def whole_word_def)
      ultimately show thesis using T by (auto simp: pieces_written_def split: prod.splits intro: that)
    qed
  qed
qed

lemma int_sum_list: "int (sum_list xs) = sum_list (map int xs)"
  by (induction xs) simp_all

text \<open>When some weight is positive the window kept is the last of the heaviest.\<close>

lemma best_window_heaviest:
  assumes v: "v \<in> set vs" "0 < v" and n: "n = min (length vs) twc" "0 < twc"
    and m: "m = best_window (window_sums n (map int vs))"
  shows "\<forall>i \<in> set [0..<length vs - n + 1].
    sum_list (take n (drop i vs)) \<le> sum_list (take n (drop m vs)) \<and>
    (m < i \<longrightarrow> sum_list (take n (drop i vs)) < sum_list (take n (drop m vs)))"
proof -
  let ?S = "\<lambda>i. sum_list (take n (drop i vs))"
  let ?ww = "window_sums n (map int vs)"
  have S: "sum_list (take n (drop i (map int vs))) = int (?S i)" for i
    by (simp add: drop_map take_map int_sum_list)
  have ww: "length ?ww = length vs - n + 1" "\<And>i. i < length vs - n + 1 \<Longrightarrow> ?ww ! i = int (?S i)"
    using window_sums_eq [of n "map int vs"] n(1) unfolding S by (simp_all del: upt_Suc)
  obtain k where k: "k < length vs" "vs ! k = v" using v(1) by (auto simp: in_set_conv_nth)
  define j where "j = min k (length vs - n)"
  have j: "j + n \<le> length vs" "j \<le> k" "k < j + n" using k n unfolding j_def by auto
  have "v \<in> set (take n (drop j vs))"
    using j k by (auto simp: in_set_conv_nth intro!: exI [of _ "k - j"])
  then have "0 < ?S j" using member_le_sum_list [of v] v(2) by fastforce
  then have "0 < ?ww ! j" using ww(2) [of j] j(1) by simp
  then have "m < length vs - n + 1 \<and> (\<forall>i < length vs - n + 1. ?ww ! i \<le> ?ww ! m) \<and>
      (\<forall>i < length vs - n + 1. m < i \<longrightarrow> ?ww ! i < ?ww ! m)"
    using best_window_max [of j ?ww] j(1) unfolding m [symmetric] ww(1) by simp
  then show ?thesis using ww(2) by (auto simp del: upt_Suc)
qed

lemma if_intro: "(a \<Longrightarrow> b) \<Longrightarrow> (\<not> a \<Longrightarrow> c) \<Longrightarrow> if a then b else c"
  by simp

section \<open>Promises\<close>

text \<open>
  C36: The teaser of a result is a contiguous part of the escaped body, cut into whole words and what
  separates them, in which exactly the words whose stem begins with that of a search term are
  enclosed in em tags, one pair around each word; apart from these tags there is no markup in it.
\<close>

theorem teaser_of_escaped_body:
  "\<exists>xs p. makeTeaser stemmer twc (escapeHTML body) terms = concat (map em_piece xs) \<and>
     pieces_ok (is_term stemmer (map (\<lambda>w. stemmer (to_lower w)) terms)) (escapeHTML body) p xs \<and>
     p + length (pieces_text xs) \<le> length (escapeHTML body) \<and>
     pieces_text xs = take (length (pieces_text xs)) (drop p (escapeHTML body)) \<and>
     set (pieces_text xs) \<inter> {CHR ''<'', CHR ''>'', CHR 0x22, CHR 0x27} = {}"
proof -
  obtain xs p where xs: "makeTeaser stemmer twc (escapeHTML body) terms = concat (map em_piece xs)"
    "pieces_ok (is_term stemmer (map (\<lambda>w. stemmer (to_lower w)) terms)) (escapeHTML body) p xs"
    "p \<le> length (escapeHTML body)" by (rule makeTeaser_pieces)
  note slice = pieces_slice [OF xs(2,3)]
  then have "set (pieces_text xs) \<subseteq> set (escapeHTML body)" by (metis set_drop_subset set_take_subset subset_trans)
  then show ?thesis using xs(1,2) slice escape_no_markup [of body] by blast
qed

text \<open>
  C21: What \<open>makeTeaser\<close> returns, for a body that has words, is the text of a window of its words, as
  many as \<open>teaser_word_count\<close> allows. When one of the words is a search term the window is the heaviest
  of its width, and among the heaviest the last; otherwise it is the first. A word weighs 40 when it is a
  search term, and otherwise 8 or 2.
\<close>

theorem teaser_window_heaviest:
  assumes "ts = map (\<lambda>w. stemmer (to_lower w)) terms" and "es = ts_weighted (weigh_body stemmer ts body)"
    and "es \<noteq> []" and "0 < twc" and "n = min (length es) twc"
    and "weight = (\<lambda>i. sum_list (map (\<lambda>(w, v, p). v) (take n (drop i es))))"
  shows "(\<exists>m. makeTeaser stemmer twc body terms = teaser_text body es m n \<and> m + n \<le> length es \<and>
      (if \<exists>(w, v, p) \<in> set es. is_term stemmer ts w
       then list_all (\<lambda>i. weight i \<le> weight m \<and> (if m < i then weight i < weight m else True)) [0..<length es - n + 1]
       else m = 0)) \<and>
    list_all (\<lambda>(w, v, p). if is_term stemmer ts w then v = 40 else v \<in> {2, 8}) es"
proof -
  let ?st = "weigh_body stemmer ts body"
  let ?vs = "map (\<lambda>(w, v, p). v) es"
  obtain m n' where mn: "choose_window twc ?st = (m, n')" by fastforce
  have ints: "map (\<lambda>(w, v, p). int v) es = map int ?vs" by auto
  have n: "n' = n" "m = (if ts_found ?st then best_window (window_sums n (map int ?vs)) else 0)"
    using mn assms(2,5) unfolding ints [symmetric] by (auto simp: choose_window_def Let_def)
  have bound: "m + n \<le> length es" using choose_window_bounds [OF mn] assms(2) n(1) by simp
  have ok: "scan_ok stemmer ts (to_lower body) ?st" by (rule weigh_body_ok)
  then have weights: "list_all (\<lambda>(w, v, p). if is_term stemmer ts w then v = 40 else v \<in> {2, 8}) es"
    and found: "ts_found ?st \<longleftrightarrow> (\<exists>(w, v, p) \<in> set es. is_term stemmer ts w)"
    by (fastforce simp: scan_ok_def entry_ok_def list_all_iff searchterm_weight_def assms(2))+
  have W: "weight i = sum_list (take n (drop i ?vs))" for i by (simp add: assms(6) drop_map take_map)
  have heaviest: "list_all (\<lambda>i. weight i \<le> weight m \<and> (if m < i then weight i < weight m else True)) [0..<length es - n + 1]"
    if f: "\<exists>(w, v, p) \<in> set es. is_term stemmer ts w"
  proof -
    obtain w v p where e: "(w, v, p) \<in> set es" "is_term stemmer ts w" using f by blast
    then have "v \<in> set ?vs" "0 < v" using weights by (force simp: list_all_iff)+
    then show ?thesis using best_window_heaviest [of v ?vs n twc m] assms(4,5) n(2) found f
      by (simp add: W list_all_iff del: upt_Suc)
  qed
  have first: "m = 0" if "\<not> (\<exists>(w, v, p) \<in> set es. is_term stemmer ts w)" using that found n(2) by simp
  have shown: "makeTeaser stemmer twc body terms = teaser_text body es m n"
    using mn n(1) assms(1-3) by (simp add: makeTeaser_def Let_def)
  show ?thesis by (intro conjI exI [of _ m] if_intro) (fact shown bound heaviest first weights)+
qed

theorem teaser_window_heaviest_witness:
  "makeTeaser (\<lambda>x. x) 1 ''A cat. Sat'' [''Ca''] = teaser_text ''A cat. Sat'' [(''a'', 8, 0), (''cat'', 40, 2), (''sat'', 8, 7)] 1 1"
proof -
  let ?es = "[(''a'', 8, 0), (''cat'', 40, 2), (''sat'', 8, 7)] :: entry list"
  have ts: "[''ca''] = map (\<lambda>w. (\<lambda>x. x) (to_lower w)) [''Ca'']" by code_simp
  have es: "?es = ts_weighted (weigh_body (\<lambda>x. x) [''ca''] ''A cat. Sat'')" by code_simp
  have "\<exists>(w, v, p) \<in> set ?es. is_term (\<lambda>x. x) [''ca''] w" by (simp add: is_term_def starts_with_def)
  then obtain m where m: "makeTeaser (\<lambda>x. x) 1 ''A cat. Sat'' [''Ca''] = teaser_text ''A cat. Sat'' ?es m 1" "m + 1 \<le> length ?es"
    "list_all (\<lambda>i. sum_list (map (\<lambda>(w, v, p). v) (take 1 (drop i ?es))) \<le> sum_list (map (\<lambda>(w, v, p). v) (take 1 (drop m ?es)))) [0, 1, 2]"
    using teaser_window_heaviest [OF ts es _ _ _ refl, where twc = 1 and n = 1]
    by (auto simp: upt_rec list_all_iff)
  have "m = 0 \<or> m = 1 \<or> m = 2" using m(2) by auto
  then have "m = 1" using m(3) by (elim disjE) simp_all
  then show ?thesis using m(1) by simp
qed

end
