(* ===== verification/Layout.thy ===== *)
theory Layout
  imports Complex_Main Browser
begin

text \<open>
  What the browser answers when a script asks where things are on the screen, as one record of
  functions per moment; numbers of pixels are real numbers (the rounding of doubles is left out).
  \<open>numbers\<close> holds how the language writes a number as a text and reads it again.
\<close>

record layout =
  rect_top :: "ref \<Rightarrow> real"
  rect_bottom :: "ref \<Rightarrow> real"
  inner_height :: real
  page_y_offset :: real
  root_scroll_top :: real
  root_scroll_height :: real
  clamp_scroll :: "real \<Rightarrow> real"

record numbers =
  number_text :: "real \<Rightarrow> string"
  parse_float :: "string \<Rightarrow> real option"

definition read_number :: "numbers \<Rightarrow> string \<Rightarrow> (real \<Rightarrow> real) \<Rightarrow> (real \<Rightarrow> real) \<Rightarrow> real" where
  \<comment> \<open>a position set to an expression of \<open>parseFloat(t)\<close>, clamped; a position that is not a number is 0\<close>
  "read_number nm t expr clamp = clamp (case parse_float nm t of None \<Rightarrow> 0 | Some v \<Rightarrow> expr v)"

definition to_fixed1 :: "real \<Rightarrow> string" where
  \<comment> \<open>\<open>x.toFixed(1)\<close> for numbers below \<open>10^21\<close>: the nearest tenth, the larger one of two\<close>
  "to_fixed1 x =
     (let y = (if x < 0 then - x else x);
          n = nat \<lfloor>10 * y + 1 / 2\<rfloor>
      in (if x < 0 then ''-'' else '''') @ string_of_nat (n div 10) @ ''.'' @ string_of_nat (n mod 10))"

definition at_class :: "'a dom_scheme \<Rightarrow> string \<Rightarrow> ref \<Rightarrow> bool" where
  \<comment> \<open>the selector of one class\<close>
  "at_class d c r \<longleftrightarrow> has_class d r c"

definition inside_id :: "'a dom_scheme \<Rightarrow> string \<Rightarrow> ref \<Rightarrow> bool" where
  \<comment> \<open>the part \<open>#i\<close> of a selector before a blank\<close>
  "inside_id d i r \<longleftrightarrow> list_ex (\<lambda>a. ident d a = i) (ancestors d r)"

end
