(* ===== verification/Toc_Chapters.thy ===== *)
theory Toc_Chapters
  imports Layout
begin

text \<open>
  The list of chapters in the sidebar, \<open>MDBookSidebarScrollbox\<close> of \<open>toc-d86eca13.js\<close>: the links
  are rooted, the link of the current page is made active and its chapters are unfolded, and the
  scroll position goes from page to page through the session storage. The list itself is one line
  of generated markup; what the browser builds from it is the parameter \<open>install\<close>.
\<close>

section \<open>State\<close>

text \<open>The variables of both parts of the script; the second part is in the two theories after this one.\<close>

datatype inline = Words string | Elem string "inline list"

record toc = page +
  toc_path_to_root :: string
  sidebar_scroll :: real
  fold_toggles :: "ref list"
  inlines :: "ref \<Rightarrow> inline list"
  lastKnownScrollPosition :: real
  threshold :: real
  disableScroll :: bool
  headers :: "ref list option"
  headerToggles :: "ref list"
  thresholdDebug :: bool
  summary_links :: "ref list"
  toggle_items :: "(ref \<times> ref) list"
  pending_frames :: "(nat \<times> ref) list"

abbreviation "scrollbox \<equiv> Named ''mdbook-sidebar-scrollbox''"

section \<open>Setting up the list\<close>

definition current_page_of :: "string \<Rightarrow> string" where
  "current_page_of location =
     (let page = js_split ''?'' (js_split ''#'' location ! 0) ! 0
      in if ends_with page ''/'' then page @ ''index.html'' else page)"

definition absolute_href :: "string \<Rightarrow> bool" where
  \<comment> \<open>\<open>/^(?:[a-z+]+:)?\/\//.test(h)\<close>\<close>
  "absolute_href h \<longleftrightarrow>
     starts_with h ''//''
     \<or> (let p = takeWhile (\<lambda>c. 97 \<le> code c \<and> code c \<le> 122 \<or> c = CHR ''+'') h
        in p \<noteq> [] \<and> starts_with (drop (length p) h) ''://'')"

definition rooted :: "string \<Rightarrow> string \<Rightarrow> string" where
  "rooted base h = (if h \<noteq> '''' \<and> \<not> starts_with h ''#'' \<and> \<not> absolute_href h then base @ h else h)"

definition root_link :: "ref \<Rightarrow> toc \<Rightarrow> toc" where
  "root_link link s =
     (case attrs s link ''href'' of
        None \<Rightarrow> s
      | Some h \<Rightarrow>
          if h \<noteq> '''' \<and> \<not> starts_with h ''#'' \<and> \<not> absolute_href h
          then set_attr link ''href'' (toc_path_to_root s @ h) s else s)"

definition reveal :: "string \<Rightarrow> ref \<Rightarrow> 'a dom_scheme \<Rightarrow> 'a dom_scheme" where
  \<comment> \<open>the loop \<open>while (parent)\<close> that unfolds the list items above a link\<close>
  "reveal c link s =
     fold (\<lambda>p s. if tag s p = ''LI'' \<and> has_class s p c then add_class p ''expanded'' s else s)
       (ancestors s link) s"

definition mark_link :: "platform \<Rightarrow> string \<Rightarrow> nat \<times> ref \<Rightarrow> toc \<Rightarrow> toc" where
  "mark_link pl current_page il s =
     (case il of (i, link) \<Rightarrow>
        let s1 = root_link link s
        in if link_href pl s1 link = current_page
              \<or> i = 0 \<and> toc_path_to_root s1 = '''' \<and> ends_with current_page ''/index.html''
           then reveal ''chapter-item'' link (add_class link ''active'' s1)
           else s1)"

definition mark_links :: "platform \<Rightarrow> toc \<Rightarrow> toc" where
  "mark_links pl s =
     fold (mark_link pl (current_page_of (href s)))
       (enumerate 0 (query_all s scrollbox (\<lambda>r. tag s r = ''A''))) s"

definition in_sidebar_active :: "'a dom_scheme \<Rightarrow> ref option" where
  \<comment> \<open>\<open>document.querySelector('#mdbook-sidebar .active')\<close>\<close>
  "in_sidebar_active s =
     query_first s html_root (\<lambda>r. at_class s ''active'' r \<and> inside_id s ''mdbook-sidebar'' r)"

definition restore_scroll :: "layout \<Rightarrow> numbers \<Rightarrow> toc \<Rightarrow> toc" where
  "restore_scroll lay nm s =
     (let saved = session_store s ''sidebar-scroll-offset'';
          s1 = s\<lparr>session_store := (session_store s)(''sidebar-scroll-offset'' := None)\<rparr>
      in case saved of
           Some offset \<Rightarrow>
             (case query_first s1 scrollbox (at_class s1 ''active'') of
                None \<Rightarrow> s1
              | Some active \<Rightarrow>
                  let currentOffset = rect_top lay active - rect_top lay scrollbox
                  in s1\<lparr>sidebar_scroll :=
                       read_number nm offset (\<lambda>v. sidebar_scroll s1 + (currentOffset - v))
                         (clamp_scroll lay)\<rparr>)
         | None \<Rightarrow>
             (case in_sidebar_active s1 of
                None \<Rightarrow> s1
              | Some active \<Rightarrow> emit (ScrollIntoView active) s1))"

definition connectedCallback :: "(toc \<Rightarrow> toc) \<Rightarrow> platform \<Rightarrow> layout \<Rightarrow> numbers \<Rightarrow> toc \<Rightarrow> toc" where
  "connectedCallback install pl lay nm s =
     (let s1 = restore_scroll lay nm (mark_links pl (install s))
      in s1\<lparr>fold_toggles := fold_toggles s1 @ query_all s1 html_root (at_class s1 ''chapter-fold-toggle'')\<rparr>)"

section \<open>Its listeners\<close>

definition scrollbox_clicked :: "layout \<Rightarrow> numbers \<Rightarrow> ref \<Rightarrow> toc \<Rightarrow> toc" where
  "scrollbox_clicked lay nm target s =
     (if tag s target = ''A'' then
        s\<lparr>session_store := (session_store s)(''sidebar-scroll-offset'' \<mapsto>
            number_text nm (rect_top lay target - rect_top lay scrollbox))\<rparr>
      else s)"

definition toggleSection :: "ref \<Rightarrow> 'a dom_scheme \<Rightarrow> 'a dom_scheme outcome" where
  \<comment> \<open>\<open>ev.currentTarget.parentElement.parentElement.classList.toggle('expanded')\<close>\<close>
  "toggleSection current_target s =
     (case par s current_target of
        None \<Rightarrow> Throws TypeError s
      | Some p \<Rightarrow>
          (case par s p of
             None \<Rightarrow> Throws TypeError s
           | Some item \<Rightarrow> Done (toggle_class item ''expanded'' s)))"

section \<open>Frames\<close>

lemma toc_frame [dom_simps, simp]:
  "toc_path_to_root (add_class r c d) = toc_path_to_root d" "sidebar_scroll (add_class r c d) = sidebar_scroll d" "fold_toggles (add_class r c d) = fold_toggles d" "inlines (add_class r c d) = inlines d" "lastKnownScrollPosition (add_class r c d) = lastKnownScrollPosition d" "threshold (add_class r c d) = threshold d" "disableScroll (add_class r c d) = disableScroll d" "headers (add_class r c d) = headers d" "headerToggles (add_class r c d) = headerToggles d" "thresholdDebug (add_class r c d) = thresholdDebug d" "summary_links (add_class r c d) = summary_links d" "toggle_items (add_class r c d) = toggle_items d" "pending_frames (add_class r c d) = pending_frames d"
  "toc_path_to_root (remove_class r c d) = toc_path_to_root d" "sidebar_scroll (remove_class r c d) = sidebar_scroll d" "fold_toggles (remove_class r c d) = fold_toggles d" "inlines (remove_class r c d) = inlines d" "lastKnownScrollPosition (remove_class r c d) = lastKnownScrollPosition d" "threshold (remove_class r c d) = threshold d" "disableScroll (remove_class r c d) = disableScroll d" "headers (remove_class r c d) = headers d" "headerToggles (remove_class r c d) = headerToggles d" "thresholdDebug (remove_class r c d) = thresholdDebug d" "summary_links (remove_class r c d) = summary_links d" "toggle_items (remove_class r c d) = toggle_items d" "pending_frames (remove_class r c d) = pending_frames d"
  "toc_path_to_root (toggle_class r c d) = toc_path_to_root d" "sidebar_scroll (toggle_class r c d) = sidebar_scroll d" "fold_toggles (toggle_class r c d) = fold_toggles d" "inlines (toggle_class r c d) = inlines d" "lastKnownScrollPosition (toggle_class r c d) = lastKnownScrollPosition d" "threshold (toggle_class r c d) = threshold d" "disableScroll (toggle_class r c d) = disableScroll d" "headers (toggle_class r c d) = headers d" "headerToggles (toggle_class r c d) = headerToggles d" "thresholdDebug (toggle_class r c d) = thresholdDebug d" "summary_links (toggle_class r c d) = summary_links d" "toggle_items (toggle_class r c d) = toggle_items d" "pending_frames (toggle_class r c d) = pending_frames d"
  "toc_path_to_root (set_classes r cs d) = toc_path_to_root d" "sidebar_scroll (set_classes r cs d) = sidebar_scroll d" "fold_toggles (set_classes r cs d) = fold_toggles d" "inlines (set_classes r cs d) = inlines d" "lastKnownScrollPosition (set_classes r cs d) = lastKnownScrollPosition d" "threshold (set_classes r cs d) = threshold d" "disableScroll (set_classes r cs d) = disableScroll d" "headers (set_classes r cs d) = headers d" "headerToggles (set_classes r cs d) = headerToggles d" "thresholdDebug (set_classes r cs d) = thresholdDebug d" "summary_links (set_classes r cs d) = summary_links d" "toggle_items (set_classes r cs d) = toggle_items d" "pending_frames (set_classes r cs d) = pending_frames d"
  "toc_path_to_root (set_attr r a v d) = toc_path_to_root d" "sidebar_scroll (set_attr r a v d) = sidebar_scroll d" "fold_toggles (set_attr r a v d) = fold_toggles d" "inlines (set_attr r a v d) = inlines d" "lastKnownScrollPosition (set_attr r a v d) = lastKnownScrollPosition d" "threshold (set_attr r a v d) = threshold d" "disableScroll (set_attr r a v d) = disableScroll d" "headers (set_attr r a v d) = headers d" "headerToggles (set_attr r a v d) = headerToggles d" "thresholdDebug (set_attr r a v d) = thresholdDebug d" "summary_links (set_attr r a v d) = summary_links d" "toggle_items (set_attr r a v d) = toggle_items d" "pending_frames (set_attr r a v d) = pending_frames d"
  "toc_path_to_root (set_content r v d) = toc_path_to_root d" "sidebar_scroll (set_content r v d) = sidebar_scroll d" "fold_toggles (set_content r v d) = fold_toggles d" "inlines (set_content r v d) = inlines d" "lastKnownScrollPosition (set_content r v d) = lastKnownScrollPosition d" "threshold (set_content r v d) = threshold d" "disableScroll (set_content r v d) = disableScroll d" "headers (set_content r v d) = headers d" "headerToggles (set_content r v d) = headerToggles d" "thresholdDebug (set_content r v d) = thresholdDebug d" "summary_links (set_content r v d) = summary_links d" "toggle_items (set_content r v d) = toggle_items d" "pending_frames (set_content r v d) = pending_frames d"
  "toc_path_to_root (set_display r v d) = toc_path_to_root d" "sidebar_scroll (set_display r v d) = sidebar_scroll d" "fold_toggles (set_display r v d) = fold_toggles d" "inlines (set_display r v d) = inlines d" "lastKnownScrollPosition (set_display r v d) = lastKnownScrollPosition d" "threshold (set_display r v d) = threshold d" "disableScroll (set_display r v d) = disableScroll d" "headers (set_display r v d) = headers d" "headerToggles (set_display r v d) = headerToggles d" "thresholdDebug (set_display r v d) = thresholdDebug d" "summary_links (set_display r v d) = summary_links d" "toggle_items (set_display r v d) = toggle_items d" "pending_frames (set_display r v d) = pending_frames d"
  "toc_path_to_root (set_ident r v d) = toc_path_to_root d" "sidebar_scroll (set_ident r v d) = sidebar_scroll d" "fold_toggles (set_ident r v d) = fold_toggles d" "inlines (set_ident r v d) = inlines d" "lastKnownScrollPosition (set_ident r v d) = lastKnownScrollPosition d" "threshold (set_ident r v d) = threshold d" "disableScroll (set_ident r v d) = disableScroll d" "headers (set_ident r v d) = headers d" "headerToggles (set_ident r v d) = headerToggles d" "thresholdDebug (set_ident r v d) = thresholdDebug d" "summary_links (set_ident r v d) = summary_links d" "toggle_items (set_ident r v d) = toggle_items d" "pending_frames (set_ident r v d) = pending_frames d"
  "toc_path_to_root (snd (create_element t d)) = toc_path_to_root d" "sidebar_scroll (snd (create_element t d)) = sidebar_scroll d" "fold_toggles (snd (create_element t d)) = fold_toggles d" "inlines (snd (create_element t d)) = inlines d" "lastKnownScrollPosition (snd (create_element t d)) = lastKnownScrollPosition d" "threshold (snd (create_element t d)) = threshold d" "disableScroll (snd (create_element t d)) = disableScroll d" "headers (snd (create_element t d)) = headers d" "headerToggles (snd (create_element t d)) = headerToggles d" "thresholdDebug (snd (create_element t d)) = thresholdDebug d" "summary_links (snd (create_element t d)) = summary_links d" "toggle_items (snd (create_element t d)) = toggle_items d" "pending_frames (snd (create_element t d)) = pending_frames d"
  "toc_path_to_root (append_child p r d) = toc_path_to_root d" "sidebar_scroll (append_child p r d) = sidebar_scroll d" "fold_toggles (append_child p r d) = fold_toggles d" "inlines (append_child p r d) = inlines d" "lastKnownScrollPosition (append_child p r d) = lastKnownScrollPosition d" "threshold (append_child p r d) = threshold d" "disableScroll (append_child p r d) = disableScroll d" "headers (append_child p r d) = headers d" "headerToggles (append_child p r d) = headerToggles d" "thresholdDebug (append_child p r d) = thresholdDebug d" "summary_links (append_child p r d) = summary_links d" "toggle_items (append_child p r d) = toggle_items d" "pending_frames (append_child p r d) = pending_frames d"
  "toc_path_to_root (remove_node r d) = toc_path_to_root d" "sidebar_scroll (remove_node r d) = sidebar_scroll d" "fold_toggles (remove_node r d) = fold_toggles d" "inlines (remove_node r d) = inlines d" "lastKnownScrollPosition (remove_node r d) = lastKnownScrollPosition d" "threshold (remove_node r d) = threshold d" "disableScroll (remove_node r d) = disableScroll d" "headers (remove_node r d) = headers d" "headerToggles (remove_node r d) = headerToggles d" "thresholdDebug (remove_node r d) = thresholdDebug d" "summary_links (remove_node r d) = summary_links d" "toggle_items (remove_node r d) = toggle_items d" "pending_frames (remove_node r d) = pending_frames d"
  "toc_path_to_root (insert_before p r b d) = toc_path_to_root d" "sidebar_scroll (insert_before p r b d) = sidebar_scroll d" "fold_toggles (insert_before p r b d) = fold_toggles d" "inlines (insert_before p r b d) = inlines d" "lastKnownScrollPosition (insert_before p r b d) = lastKnownScrollPosition d" "threshold (insert_before p r b d) = threshold d" "disableScroll (insert_before p r b d) = disableScroll d" "headers (insert_before p r b d) = headers d" "headerToggles (insert_before p r b d) = headerToggles d" "thresholdDebug (insert_before p r b d) = thresholdDebug d" "summary_links (insert_before p r b d) = summary_links d" "toggle_items (insert_before p r b d) = toggle_items d" "pending_frames (insert_before p r b d) = pending_frames d"
  by (simp_all add: add_class_def remove_class_def toggle_class_def set_classes_def set_attr_def
      set_content_def set_display_def set_ident_def create_element_def append_child_def
      remove_node_def insert_before_def Let_def split: option.split)

lemma toc_emit_frame [dom_simps, simp]:
  "toc_path_to_root (emit e d) = toc_path_to_root d" "sidebar_scroll (emit e d) = sidebar_scroll d" "fold_toggles (emit e d) = fold_toggles d" "inlines (emit e d) = inlines d" "lastKnownScrollPosition (emit e d) = lastKnownScrollPosition d" "threshold (emit e d) = threshold d" "disableScroll (emit e d) = disableScroll d" "headers (emit e d) = headers d" "headerToggles (emit e d) = headerToggles d" "thresholdDebug (emit e d) = thresholdDebug d" "summary_links (emit e d) = summary_links d" "toggle_items (emit e d) = toggle_items d" "pending_frames (emit e d) = pending_frames d"
  by (simp_all add: emit_def)

section \<open>What marking does\<close>

definition is_current :: "platform \<Rightarrow> string \<Rightarrow> toc \<Rightarrow> nat \<Rightarrow> ref \<Rightarrow> bool" where
  \<comment> \<open>the link leads to the current page, or it is the first one and the page is the index\<close>
  "is_current pl page s i link \<longleftrightarrow>
     (case attrs s link ''href'' of None \<Rightarrow> '''' | Some h \<Rightarrow> resolve pl (rooted (toc_path_to_root s) h)) = page
     \<or> i = 0 \<and> toc_path_to_root s = '''' \<and> ends_with page ''/index.html''"

lemma root_link_read [simp]:
  "attrs (root_link l s) x =
     (if x = l then (case attrs s l ''href'' of None \<Rightarrow> attrs s l
        | Some h \<Rightarrow> (attrs s l)(''href'' \<mapsto> rooted (toc_path_to_root s) h)) else attrs s x)"
  "has_class (root_link l s) = has_class s" "par (root_link l s) = par s"
  "nodes (root_link l s) = nodes s" "tag (root_link l s) = tag s" "kids (root_link l s) = kids s"
  "toc_path_to_root (root_link l s) = toc_path_to_root s" "ident (root_link l s) = ident s"
  "session_store (root_link l s) = session_store s" "sidebar_scroll (root_link l s) = sidebar_scroll s"
  "effects (root_link l s) = effects s" "href (root_link l s) = href s"
  by (auto simp: root_link_def rooted_def fun_eq_iff split: option.split)

lemma fold_reveal_read:
  fixes s :: "'a dom_scheme"
  assumes c: "c \<noteq> ''expanded''"
  defines "f \<equiv> \<lambda>p (t :: 'a dom_scheme). if tag t p = ''LI'' \<and> has_class t p c then add_class p ''expanded'' t else t"
  shows "has_class (fold f ps s) x k \<longleftrightarrow>
       has_class s x k \<or> k = ''expanded'' \<and> x \<in> set ps \<and> tag s x = ''LI'' \<and> has_class s x c"
    and "tag (fold f ps s) = tag s" and "par (fold f ps s) = par s" and "kids (fold f ps s) = kids s"
    and "attrs (fold f ps s) = attrs s" and "nodes (fold f ps s) = nodes s" and "ident (fold f ps s) = ident s"
    and "dom.more (fold f ps s) = dom.more s" and "fresh (fold f ps s) = fresh s"
proof -
  show "has_class (fold f ps s) x k \<longleftrightarrow>
       has_class s x k \<or> k = ''expanded'' \<and> x \<in> set ps \<and> tag s x = ''LI'' \<and> has_class s x c"
    using c by (induction ps arbitrary: s) (auto simp: f_def)
qed (rule fold_frame, simp add: f_def)+

lemma reveal_read:
  assumes "c \<noteq> ''expanded''"
  shows "has_class (reveal c l s) x k \<longleftrightarrow>
       has_class s x k
       \<or> k = ''expanded'' \<and> x \<in> set (ancestors s l) \<and> tag s x = ''LI'' \<and> has_class s x c"
    and "tag (reveal c l s) = tag s" and "par (reveal c l s) = par s" and "kids (reveal c l s) = kids s"
    and "attrs (reveal c l s) = attrs s" and "nodes (reveal c l s) = nodes s" and "ident (reveal c l s) = ident s"
    and "dom.more (reveal c l s) = dom.more s" and "fresh (reveal c l s) = fresh s"
  using fold_reveal_read [OF assms, where s = s] by (auto simp: reveal_def)

lemma reveal_frame [simp]:
  "focus (reveal c l s) = focus s" "href (reveal c l s) = href s" "past (reveal c l s) = past s" "future (reveal c l s) = future s" "local_store (reveal c l s) = local_store s" "session_store (reveal c l s) = session_store s" "effects (reveal c l s) = effects s" "toc_path_to_root (reveal c l s) = toc_path_to_root s" "sidebar_scroll (reveal c l s) = sidebar_scroll s" "fold_toggles (reveal c l s) = fold_toggles s" "inlines (reveal c l s) = inlines s" "lastKnownScrollPosition (reveal c l s) = lastKnownScrollPosition s" "threshold (reveal c l s) = threshold s" "disableScroll (reveal c l s) = disableScroll s" "headers (reveal c l s) = headers s" "headerToggles (reveal c l s) = headerToggles s" "thresholdDebug (reveal c l s) = thresholdDebug s" "summary_links (reveal c l s) = summary_links s" "toggle_items (reveal c l s) = toggle_items s" "pending_frames (reveal c l s) = pending_frames s"
  unfolding reveal_def by (rule fold_frame, simp)+

lemma mark_link_read:
  shows "has_class (mark_link pl page (i, l) s) x k \<longleftrightarrow>
       has_class s x k
       \<or> is_current pl page s i l
         \<and> (x = l \<and> k = ''active''
            \<or> k = ''expanded'' \<and> x \<in> set (ancestors s l) \<and> tag s x = ''LI'' \<and> has_class s x ''chapter-item'')"
    and "attrs (mark_link pl page (i, l) s) x = attrs (root_link l s) x"
    and "par (mark_link pl page (i, l) s) = par s" and "nodes (mark_link pl page (i, l) s) = nodes s"
    and "tag (mark_link pl page (i, l) s) = tag s" and "kids (mark_link pl page (i, l) s) = kids s"
    and "toc_path_to_root (mark_link pl page (i, l) s) = toc_path_to_root s"
proof -
  have cur: "link_href pl (root_link l s) l = page
      \<or> i = 0 \<and> toc_path_to_root (root_link l s) = '''' \<and> ends_with page ''/index.html''
      \<longleftrightarrow> is_current pl page s i l"
    by (auto simp: is_current_def link_href_def split: option.split)
  have anc: "ancestors (add_class l ''active'' (root_link l s)) l = ancestors s l"
    by (rule ancestors_frame) simp_all
  note rv = reveal_read [of "''chapter-item''", simplified]
  show "has_class (mark_link pl page (i, l) s) x k \<longleftrightarrow>
       has_class s x k
       \<or> is_current pl page s i l
         \<and> (x = l \<and> k = ''active''
            \<or> k = ''expanded'' \<and> x \<in> set (ancestors s l) \<and> tag s x = ''LI'' \<and> has_class s x ''chapter-item'')"
    using cur by (auto simp: mark_link_def Let_def rv anc)
  show "attrs (mark_link pl page (i, l) s) x = attrs (root_link l s) x"
    "par (mark_link pl page (i, l) s) = par s" "nodes (mark_link pl page (i, l) s) = nodes s"
    "tag (mark_link pl page (i, l) s) = tag s" "kids (mark_link pl page (i, l) s) = kids s"
    "toc_path_to_root (mark_link pl page (i, l) s) = toc_path_to_root s"
    by (auto simp: mark_link_def Let_def rv)
qed

lemma fold_mark_link:
  assumes "distinct (map snd ps)"
  shows "has_class (fold (mark_link pl page) ps s) x k \<longleftrightarrow>
       has_class s x k
       \<or> (\<exists>(i, l) \<in> set ps. is_current pl page s i l
         \<and> (x = l \<and> k = ''active''
            \<or> k = ''expanded'' \<and> x \<in> set (ancestors s l) \<and> tag s x = ''LI'' \<and> has_class s x ''chapter-item''))"
  using assms
proof (induction ps arbitrary: s)
  case Nil
  then show ?case by simp
next
  case (Cons p ps)
  obtain i l where p: "p = (i, l)" by (cases p)
  let ?t = "mark_link pl page (i, l) s"
  note mk = mark_link_read [of pl page i l s]
  have anc: "ancestors ?t m = ancestors s m" for m
    by (rule ancestors_frame) (simp_all add: mk)
  have item: "has_class ?t y ''chapter-item'' = has_class s y ''chapter-item''" for y
    by (simp add: mk(1))
  have cur: "is_current pl page ?t j m = is_current pl page s j m" if "(j, m) \<in> set ps" for j m
  proof -
    have "m \<noteq> l" using Cons.prems that p by force
    then show ?thesis by (simp add: is_current_def mk cong: option.case_cong)
  qed
  have "distinct (map snd ps)" using Cons.prems by simp
  note IH = Cons.IH [OF this, of ?t]
  have "(\<exists>(j, m) \<in> set ps. is_current pl page ?t j m
         \<and> (x = m \<and> k = ''active''
            \<or> k = ''expanded'' \<and> x \<in> set (ancestors ?t m) \<and> tag ?t x = ''LI'' \<and> has_class ?t x ''chapter-item''))
      \<longleftrightarrow> (\<exists>(j, m) \<in> set ps. is_current pl page s j m
         \<and> (x = m \<and> k = ''active''
            \<or> k = ''expanded'' \<and> x \<in> set (ancestors s m) \<and> tag s x = ''LI'' \<and> has_class s x ''chapter-item''))"
    using cur by (auto simp: anc item mk(5))
  with IH show ?case by (simp add: p mk(1))
qed

lemma fold_mark_link_frame:
  "tag (fold (mark_link pl page) ps s) = tag s" "par (fold (mark_link pl page) ps s) = par s"
  "kids (fold (mark_link pl page) ps s) = kids s" "nodes (fold (mark_link pl page) ps s) = nodes s"
  by (rule fold_frame; (case_tac x; simp add: mark_link_read))+

lemma restore_scroll_frame [simp]:
  "has_class (restore_scroll lay nm s) = has_class s" "attrs (restore_scroll lay nm s) = attrs s"
  "kids (restore_scroll lay nm s) = kids s" "par (restore_scroll lay nm s) = par s"
  "tag (restore_scroll lay nm s) = tag s" "nodes (restore_scroll lay nm s) = nodes s"
  by (auto simp: restore_scroll_def Let_def has_class_def fun_eq_iff emit_def split: option.splits)

lemma mark_links_frame [simp]:
  "session_store (mark_links pl s) = session_store s" "sidebar_scroll (mark_links pl s) = sidebar_scroll s"
  "href (mark_links pl s) = href s" "effects (mark_links pl s) = effects s"
  unfolding mark_links_def
  by (rule fold_frame; case_tac x; simp add: mark_link_def root_link_def Let_def split: option.split)+

section \<open>Properties\<close>

text \<open>
  Loading a page marks exactly the links of the chapter list that lead to it (or the first one
  when the page is the index of the book), and unfolds, beside the chapters unfolded before,
  exactly the chapters around a marked link.
\<close>

lemma chapter_marked:
  fixes s :: toc
  assumes "links = query_all (install s) scrollbox (\<lambda>r. tag (install s) r = ''A'')"
    and "distinct links" and "\<forall>x. \<not> has_class (install s) x ''active''"
    and "page = current_page_of (href (install s))"
    and "t = connectedCallback install pl lay nm s"
  shows "(\<forall>x. has_class t x ''active'' \<longleftrightarrow>
            (\<exists>i < length links. x = links ! i \<and> is_current pl page (install s) i x))
    \<and> (\<forall>x. has_class t x ''expanded'' \<longleftrightarrow>
            has_class (install s) x ''expanded''
            \<or> tag (install s) x = ''LI'' \<and> has_class (install s) x ''chapter-item''
              \<and> (\<exists>i < length links. is_current pl page (install s) i (links ! i)
                    \<and> x \<in> set (ancestors (install s) (links ! i))))"
proof -
  let ?s = "install s"
  have snd: "map snd (enumerate 0 links) = links" by (simp add: enumerate_eq_zip)
  have mem: "(\<exists>(i, l) \<in> set (enumerate 0 links). P i l) \<longleftrightarrow> (\<exists>i < length links. P i (links ! i))" for P
    by (auto simp: in_set_enumerate_eq)
  have t: "has_class t x k = has_class (mark_links pl ?s) x k" for x k
    by (simp add: assms(5) connectedCallback_def Let_def has_class_def [of "_\<lparr>fold_toggles := _\<rparr>"])
      (simp add: has_class_def [symmetric])
  have eq: "has_class t x k \<longleftrightarrow> has_class ?s x k
       \<or> (\<exists>i < length links. is_current pl page ?s i (links ! i)
         \<and> (x = links ! i \<and> k = ''active''
            \<or> k = ''expanded'' \<and> x \<in> set (ancestors ?s (links ! i)) \<and> tag ?s x = ''LI''
              \<and> has_class ?s x ''chapter-item''))" for x k
    using fold_mark_link [of "enumerate 0 links" pl page ?s x k] assms(2)
    by (simp add: t mark_links_def assms(1)[symmetric] assms(4)[symmetric] snd mem)
  show ?thesis using assms(3) by (auto simp: eq)
qed

definition example_toc :: toc where
  "example_toc =
     \<lparr>tag = (\<lambda>r. if r \<in> {Node 1, Node 4} then ''LI'' else if r \<in> {Node 2, Node 5} then ''A'' else ''OL''),
      ident = (\<lambda>r. if r = Named ''mdbook-sidebar'' then ''mdbook-sidebar'' else ''''),
      classes = (\<lambda>r. if r \<in> {Node 1, Node 4} then [''chapter-item''] else []),
      attrs = (\<lambda>r. if r = Node 2 then [''href'' \<mapsto> ''a.html''] else
                  if r = Node 5 then [''href'' \<mapsto> ''b.html''] else Map.empty),
      kids = (\<lambda>r. if r = html_root then [Named ''mdbook-sidebar''] else
                 if r = Named ''mdbook-sidebar'' then [scrollbox] else
                 if r = scrollbox then [Node 0] else if r = Node 0 then [Node 1] else
                 if r = Node 1 then [Node 2, Node 3] else if r = Node 3 then [Node 4] else
                 if r = Node 4 then [Node 5] else []),
      par = (\<lambda>r. if r = Named ''mdbook-sidebar'' then Some html_root else
                if r = scrollbox then Some (Named ''mdbook-sidebar'') else
                if r = Node 0 then Some scrollbox else if r = Node 1 then Some (Node 0) else
                if r = Node 2 \<or> r = Node 3 then Some (Node 1) else if r = Node 4 then Some (Node 3) else
                if r = Node 5 then Some (Node 4) else None),
      content = (\<lambda>r. ''''), display = (\<lambda>r. ''''),
      nodes = [html_root, Named ''mdbook-sidebar'', scrollbox, Node 0, Node 1, Node 2, Node 3, Node 4, Node 5],
      fresh = 6, focus = None, href = ''http://book/b.html?highlight=x#top'', past = [], future = [],
      local_store = Map.empty, session_store = Map.empty, effects = [],
      toc_path_to_root = '''', sidebar_scroll = 0, fold_toggles = [], inlines = (\<lambda>r. []),
      lastKnownScrollPosition = 0, threshold = 150, disableScroll = False, headers = None,
      headerToggles = [], thresholdDebug = False, summary_links = [], toggle_items = [], pending_frames = []\<rparr>"

definition toc_platform :: platform where
  "toc_platform =
     \<lparr>anchor_of = (\<lambda>u. \<lparr>a_protocol = '''', a_hostname = '''', a_port = '''', a_search = '''', a_pathname = '''', a_hash = ''''\<rparr>),
      resolve = (\<lambda>h. ''http://book/'' @ h), select_focuses = True\<rparr>"

definition toc_layout :: "real \<Rightarrow> layout" where
  "toc_layout y = \<lparr>rect_top = (\<lambda>r. if r = scrollbox then 0 else y), rect_bottom = (\<lambda>r. y + 20),
      inner_height = 600, page_y_offset = 0, root_scroll_top = 0, root_scroll_height = 900,
      clamp_scroll = (\<lambda>v. max 0 v)\<rparr>"

definition toc_numbers :: numbers where
  \<comment> \<open>whole numbers only\<close>
  "toc_numbers = \<lparr>number_text = (\<lambda>x. string_of_nat (nat \<lfloor>x\<rfloor>)),
      parse_float = (\<lambda>t. if t = ''70'' then Some 70 else None)\<rparr>"

lemma example_toc_links:
  "query_all example_toc scrollbox (\<lambda>r. tag example_toc r = ''A'') = [Node 2, Node 5]"
  by (simp add: query_all_def example_toc_def eval_nat_numeral)

lemma example_toc_page: "current_page_of (href example_toc) = ''http://book/b.html''"
  by code_simp

theorem chapter_marked_witness:
  "has_class (connectedCallback (\<lambda>s. s) toc_platform (toc_layout 0) toc_numbers example_toc) (Node 1) ''expanded''"
proof -
  have none: "\<forall>x. \<not> has_class example_toc x ''active''" by (simp add: has_class_def example_toc_def)
  have cur: "is_current toc_platform ''http://book/b.html'' example_toc 1 (Node 5)" by code_simp
  have anc: "Node 1 \<in> set (ancestors example_toc (Node 5))"
    by (simp add: ancestors_def example_toc_def eval_nat_numeral)
  have li: "tag example_toc (Node 1) = ''LI''" "has_class example_toc (Node 1) ''chapter-item''"
    by (simp_all add: has_class_def example_toc_def)
  have dist: "distinct [Node 2, Node 5]" by simp
  have "\<exists>i < length [Node 2, Node 5]. is_current toc_platform ''http://book/b.html'' example_toc i ([Node 2, Node 5] ! i)
      \<and> Node 1 \<in> set (ancestors example_toc ([Node 2, Node 5] ! i))"
    by (rule exI [of _ 1]) (use cur anc in simp)
  then show ?thesis
    using chapter_marked [where install = "\<lambda>s. s" and s = example_toc,
        OF example_toc_links [symmetric] dist none example_toc_page [symmetric] refl] li by blast
qed

text \<open>
  Following a link of the sidebar keeps the place of the list: the offset of the clicked link,
  stored by the click, is read by the next page, which scrolls the list so that its active link is
  at that offset again, and the stored offset is used up.
\<close>

lemma sidebar_place_kept:
  fixes s s' :: toc
  assumes "tag s link = ''A''" and "offset = rect_top lay link - rect_top lay scrollbox"
    and "parse_float nm (number_text nm offset) = Some offset"
    and "session_store (install s') = session_store (scrollbox_clicked lay nm link s)"
    and "query_first (mark_links pl (install s')) scrollbox (at_class (mark_links pl (install s')) ''active'') = Some active"
    and "new = rect_top lay' active - rect_top lay' scrollbox"
    and "clamp_scroll lay' (sidebar_scroll (install s') + (new - offset)) = sidebar_scroll (install s') + (new - offset)"
    and "t = connectedCallback install pl lay' nm s'"
  shows "new - (sidebar_scroll t - sidebar_scroll (install s')) = offset
    \<and> session_store t ''sidebar-scroll-offset'' = None"
proof -
  let ?m = "mark_links pl (install s')"
  have st: "session_store ?m ''sidebar-scroll-offset'' = Some (number_text nm offset)"
    by (simp add: assms(4) scrollbox_clicked_def assms(1,2))
  have at: "at_class (?m\<lparr>session_store := ss\<rparr>) = at_class ?m" for ss
    by (simp add: at_class_def has_class_def fun_eq_iff)
  have q: "query_first (?m\<lparr>session_store := ss\<rparr>) scrollbox (at_class ?m ''active'') = Some active" for ss
    using assms(5) by (simp add: query_first_def below_frame [of "?m\<lparr>session_store := ss\<rparr>" ?m])
  have "restore_scroll lay' nm ?m =
      ?m\<lparr>session_store := (session_store ?m)(''sidebar-scroll-offset'' := None),
         sidebar_scroll := sidebar_scroll (install s') + (new - offset)\<rparr>"
    using st assms(3,6,7) by (simp add: restore_scroll_def Let_def at q read_number_def)
  then show ?thesis
    by (simp add: assms(8) connectedCallback_def Let_def)
qed

theorem sidebar_place_kept_witness:
  "let next_page = example_toc\<lparr>session_store :=
         session_store (scrollbox_clicked (toc_layout 70) toc_numbers (Node 5) example_toc)\<rparr>
   in sidebar_scroll (connectedCallback (\<lambda>s. s) toc_platform (toc_layout 200) toc_numbers next_page) = 130"
proof -
  let ?n = "example_toc\<lparr>session_store :=
         session_store (scrollbox_clicked (toc_layout 70) toc_numbers (Node 5) example_toc)\<rparr>"
  let ?t = "connectedCallback (\<lambda>s. s) toc_platform (toc_layout 200) toc_numbers ?n"
  have a: "tag example_toc (Node 5) = ''A''" by (simp add: example_toc_def)
  have off: "70 = rect_top (toc_layout 70) (Node 5) - rect_top (toc_layout 70) scrollbox"
    "200 = rect_top (toc_layout 200) (Node 5) - rect_top (toc_layout 200) scrollbox"
    by (simp_all add: toc_layout_def)
  have "string_of_nat 70 = ''70''" by code_simp
  then have rd: "parse_float toc_numbers (number_text toc_numbers 70) = Some 70"
    by (simp add: toc_numbers_def)
  have scroll: "sidebar_scroll ?n = 0" by (simp add: example_toc_def)
  have kids: "below (length (nodes (mark_links toc_platform ?n))) (mark_links toc_platform ?n) scrollbox
      = [Node 0, Node 1, Node 2, Node 3, Node 4, Node 5]"
    by (simp add: mark_links_def fold_mark_link_frame example_toc_def eval_nat_numeral)
  have links: "query_all ?n scrollbox (\<lambda>r. tag ?n r = ''A'') = [Node 2, Node 5]"
    by (simp add: query_all_def example_toc_def eval_nat_numeral)
  have page: "current_page_of (href ?n) = ''http://book/b.html''" using example_toc_page by simp
  have cur: "is_current toc_platform ''http://book/b.html'' ?n 1 (Node 5)"
    "\<not> is_current toc_platform ''http://book/b.html'' ?n 0 (Node 2)" by code_simp+
  have none: "\<not> has_class ?n x ''active''" for x by (simp add: has_class_def example_toc_def)
  have act: "has_class (mark_links toc_platform ?n) x ''active'' \<longleftrightarrow> x = Node 5" for x
    using fold_mark_link [of "enumerate 0 [Node 2, Node 5]" toc_platform "''http://book/b.html''" ?n x "''active''"]
      cur none [of x]
    unfolding mark_links_def links page by simp
  have q: "query_first (mark_links toc_platform ?n) scrollbox
      (at_class (mark_links toc_platform ?n) ''active'') = Some (Node 5)"
    by (simp add: query_first_def kids at_class_def act)
  have clamp: "clamp_scroll (toc_layout 200) (sidebar_scroll ?n + (200 - 70)) = sidebar_scroll ?n + (200 - 70)"
    by (simp only: scroll) (simp add: toc_layout_def)
  have "200 - (sidebar_scroll ?t - sidebar_scroll ?n) = 70"
    using sidebar_place_kept [where install = "\<lambda>s. s", OF a off(1) rd _ q off(2) clamp refl] by simp
  then show ?thesis unfolding scroll by simp
qed

end
