(* ===== verification/Toc_Threshold.thy ===== *)
theory Toc_Threshold
  imports Toc_Chapters
begin

text \<open>
  The second part of \<open>toc-d86eca13.js\<close>: which header of the page is the current one. A virtual line,
  the threshold, follows the scrolling; the last header above it is current, its link in the
  sidebar is marked and the list items around the link are unfolded. A click on such a link moves
  the line to the header itself, two animation frames later, and keeps scrolling from moving it
  for a tenth of a second.
\<close>

section \<open>The threshold\<close>

definition scroll_position :: "layout \<Rightarrow> real" where
  \<comment> \<open>\<open>window.pageYOffset || document.documentElement.scrollTop\<close>\<close>
  "scroll_position lay = (if page_y_offset lay \<noteq> 0 then page_y_offset lay else root_scroll_top lay)"

definition defaultDownThreshold :: real where
  "defaultDownThreshold = 150"

definition defaultUpThreshold :: real where
  "defaultUpThreshold = 300"

lemmas default_defs = defaultDownThreshold_def defaultUpThreshold_def

definition pixelsBelow :: "layout \<Rightarrow> real" where
  "pixelsBelow lay = max 0 (root_scroll_height lay - (scroll_position lay + inner_height lay))"

definition pixelsAbove :: "layout \<Rightarrow> real" where
  "pixelsAbove lay = max 0 (defaultDownThreshold - scroll_position lay)"

definition bottomAdd :: "layout \<Rightarrow> real" where
  "bottomAdd lay = max 0 (inner_height lay - pixelsBelow lay - defaultDownThreshold)"

definition adjustedBottomAdd :: "layout \<Rightarrow> real" where
  "adjustedBottomAdd lay =
     (if root_scroll_height lay < inner_height lay * 2 then
        let maxPixelsBelow = root_scroll_height lay - inner_height lay;
            t = 1 - pixelsBelow lay / max 1 maxPixelsBelow;
            clamp = max 0 (min 1 t)
        in bottomAdd lay * clamp
      else bottomAdd lay)"

definition scrollingDown :: "layout \<Rightarrow> toc \<Rightarrow> bool" where
  "scrollingDown lay s \<longleftrightarrow> \<not> scroll_position lay < lastKnownScrollPosition s"

definition new_threshold :: "layout \<Rightarrow> toc \<Rightarrow> real" where
  "new_threshold lay s =
     (let moved =
        (if scrollingDown lay s then
           let amountScrolledDown = scroll_position lay - lastKnownScrollPosition s;
               adjustedDefault = defaultDownThreshold + adjustedBottomAdd lay
           in max adjustedDefault (threshold s - amountScrolledDown)
         else
           let amountScrolledUp = lastKnownScrollPosition s - scroll_position lay;
               adjustedDefault = defaultUpThreshold - pixelsAbove lay
                 + max 0 (adjustedBottomAdd lay - defaultDownThreshold)
           in min adjustedDefault (threshold s + amountScrolledUp))
      in if root_scroll_height lay \<le> inner_height lay then 0 else moved)"

section \<open>The debugging display\<close>

definition css_text :: "string list \<Rightarrow> string" where
  \<comment> \<open>one declaration per line; the browser does not keep the indentation of the template\<close>
  "css_text ds = concat (map (\<lambda>d. [CHR 0x0A] @ d @ '';'') ds) @ [CHR 0x0A]"

definition debug_row :: "string \<times> string \<Rightarrow> string" where
  "debug_row nv = ''<tr><td>'' @ fst nv @ ''</td><td>'' @ snd nv @ ''</td></tr>''"

definition debug_rows :: "layout \<Rightarrow> toc \<Rightarrow> string" where
  "debug_rows lay s =
     ''<table>'' @ concat (map debug_row
       [(''documentHeight'', to_fixed1 (root_scroll_height lay)),
        (''windowHeight'', to_fixed1 (inner_height lay)),
        (''scrollTop'', to_fixed1 (scroll_position lay)),
        (''pixelsAbove'', to_fixed1 (pixelsAbove lay)),
        (''pixelsBelow'', to_fixed1 (pixelsBelow lay)),
        (''bottomAdd'', to_fixed1 (bottomAdd lay)),
        (''adjustedBottomAdd'', to_fixed1 (adjustedBottomAdd lay)),
        (''scrollingDown'', if scrollingDown lay s then ''true'' else ''false''),
        (''threshold'', to_fixed1 (threshold s))]) @ ''</table>''"

definition drawDebugLine :: "numbers \<Rightarrow> toc \<Rightarrow> toc" where
  "drawDebugLine nm s =
     (if html_body \<notin> set (nodes s) then s
      else
        let s1 = (case by_id s ''mdbook-threshold-debug-line'' of None \<Rightarrow> s | Some l \<Rightarrow> remove_node l s);
            (line, s2) = create_element ''DIV'' s1;
            s3 = set_ident line ''mdbook-threshold-debug-line'' s2;
            s4 = set_attr line ''style''
                   (css_text [''position: fixed'', ''top: '' @ number_text nm (threshold s) @ ''px'', ''left: 0'',
                      ''width: 100vw'', ''height: 2px'', ''background-color: red'', ''z-index: 9999'',
                      ''pointer-events: none'']) s3
        in append_child html_body line s4)"

definition debug_data :: "layout \<Rightarrow> toc \<Rightarrow> toc" where
  "debug_data lay s =
     (let (data, s1) =
        (case by_id s ''mdbook-threshold-debug-data'' of
           Some d \<Rightarrow> (d, s)
         | None \<Rightarrow>
             let (d, t1) = create_element ''DIV'' s;
                 t2 = set_ident d ''mdbook-threshold-debug-data'' t1;
                 t3 = set_attr d ''style''
                        (css_text [''position: fixed'', ''top: 50px'', ''right: 10px'',
                           ''background-color: 0xeeeeee'', ''z-index: 9999'', ''pointer-events: none'']) t2
             in (d, append_child html_body d t3))
      in set_content data (debug_rows lay s) s1)"

definition updateThreshold :: "layout \<Rightarrow> numbers \<Rightarrow> toc \<Rightarrow> toc" where
  "updateThreshold lay nm s =
     (let s1 = s\<lparr>threshold := new_threshold lay s\<rparr>;
          s2 = (if thresholdDebug s1 then drawDebugLine nm (debug_data lay s1) else s1)
      in s2\<lparr>lastKnownScrollPosition := scroll_position lay\<rparr>)"

definition mdbookEnableThresholdDebug :: "layout \<Rightarrow> numbers \<Rightarrow> toc \<Rightarrow> toc" where
  "mdbookEnableThresholdDebug lay nm s =
     drawDebugLine nm (updateThreshold lay nm (s\<lparr>thresholdDebug := True\<rparr>))"

section \<open>The current header\<close>

definition updateHeaderExpanded :: "ref \<Rightarrow> toc \<Rightarrow> toc" where
  "updateHeaderExpanded currentA s = reveal ''header-item'' currentA s"

abbreviation current_headers :: "toc \<Rightarrow> ref list" where
  "current_headers s \<equiv> query_all s html_root (at_class s ''current-header'')"

lemma current_headers_remove:
  "current_headers (remove_class r ''current-header'' s) = filter (\<lambda>x. x \<noteq> r) (current_headers s)"
  by (auto simp: query_all_def at_class_def [abs_def] below_frame [of "remove_class r ''current-header'' s" s]
      intro: filter_cong)

function clear_live :: "nat \<Rightarrow> toc \<Rightarrow> toc" where
  \<comment> \<open>the loop over the live collection: what loses the class leaves the collection while the index
    moves on\<close>
  "clear_live i s =
     (if i < length (current_headers s)
      then clear_live (i + 1) (remove_class (current_headers s ! i) ''current-header'' s)
      else s)"
  by pat_completeness auto

termination
proof (relation "measure (\<lambda>(i, s). length (current_headers s) - i)")
  show "wf (measure (\<lambda>(i, s). length (current_headers s) - i))" by simp
next
  fix i s
  assume "i < length (current_headers s)"
  then show "((i + 1, remove_class (current_headers s ! i) ''current-header'' s), (i, s))
      \<in> measure (\<lambda>(i, s). length (current_headers s) - i)"
    using length_filter_le [of "\<lambda>x. x \<noteq> current_headers s ! i" "current_headers s"]
    unfolding current_headers_remove in_measure prod.case by linarith
qed

declare clear_live.simps [simp del]

fun last_above :: "layout \<Rightarrow> real \<Rightarrow> ref list \<Rightarrow> ref option \<Rightarrow> ref option" where
  \<comment> \<open>the loop over the headers, with its \<open>break\<close>\<close>
  "last_above lay thr [] lastHeader = lastHeader"
| "last_above lay thr (h # hs) lastHeader =
     (if rect_top lay h \<le> thr then last_above lay thr hs (Some h) else lastHeader)"

definition summary_link :: "'a dom_scheme \<Rightarrow> ref \<Rightarrow> ref option" where
  \<comment> \<open>the anchor of a header in the sidebar\<close>
  "summary_link s header =
     List.find (\<lambda>e. attrs s e ''href'' = Some (''#'' @ ident s header))
       (query_all s html_root (at_class s ''header-in-summary''))"

definition updateCurrentHeader :: "layout \<Rightarrow> toc \<Rightarrow> toc" where
  "updateCurrentHeader lay s =
     (case headers s of
        None \<Rightarrow> s
      | Some [] \<Rightarrow> s
      | Some (h0 # hs) \<Rightarrow>
          let s1 = clear_live 0 s;
              s2 = fold (\<lambda>toggle. remove_class toggle ''expanded'') (headerToggles s1) s1;
              above = last_above lay (threshold s2) (h0 # hs) None
          in if above = None \<and> inner_height lay \<le> rect_top lay h0 then s2
             else
               let lastHeader = (case above of None \<Rightarrow> h0 | Some h \<Rightarrow> h)
               in case summary_link s2 lastHeader of
                    None \<Rightarrow> s2
                  | Some a \<Rightarrow> updateHeaderExpanded a (add_class a ''current-header'' s2))"

definition reloadCurrentHeader :: "layout \<Rightarrow> numbers \<Rightarrow> toc \<Rightarrow> toc" where
  "reloadCurrentHeader lay nm s =
     (if disableScroll s then s else updateCurrentHeader lay (updateThreshold lay nm s))"

section \<open>Clicks in the sidebar\<close>

definition headerThresholdClick :: "ref \<Rightarrow> toc \<Rightarrow> toc" where
  "headerThresholdClick target s =
     (emit (StartTimer 100 ''disableScroll = false'') (s\<lparr>disableScroll := True\<rparr>))
       \<lparr>pending_frames := pending_frames s @ [(2, target)]\<rparr>"

definition scroll_enabled :: "toc \<Rightarrow> toc" where
  \<comment> \<open>the timer of \<open>headerThresholdClick\<close>\<close>
  "scroll_enabled s = s\<lparr>disableScroll := False\<rparr>"

definition header_reached :: "layout \<Rightarrow> ref \<Rightarrow> toc \<Rightarrow> toc outcome" where
  \<comment> \<open>the inner callback, once the browser has scrolled\<close>
  "header_reached lay target s =
     (case List.find (\<lambda>r. tag s r = ''A'') (target # ancestors s target) of
        None \<Rightarrow> Throws TypeError s
      | Some a \<Rightarrow>
          (case attrs s a ''href'' of
             None \<Rightarrow> Throws TypeError s
           | Some h \<Rightarrow>
               (case by_id s (drop 1 h) of
                  None \<Rightarrow> Done s
                | Some e \<Rightarrow> Done (updateCurrentHeader lay (s\<lparr>threshold := rect_bottom lay e\<rparr>)))))"

definition animation_frame :: "layout \<Rightarrow> toc \<Rightarrow> toc" where
  \<comment> \<open>the callbacks asked for before the frame; one asked for inside a frame waits for the next\<close>
  "animation_frame lay s =
     fold (\<lambda>(n, target) s.
         if 1 < n then s\<lparr>pending_frames := pending_frames s @ [(n - 1, target)]\<rparr>
         else final (header_reached lay target s))
       (pending_frames s) (s\<lparr>pending_frames := []\<rparr>)"

definition node_clicked :: "layout \<Rightarrow> numbers \<Rightarrow> ref \<Rightarrow> ref \<Rightarrow> toc \<Rightarrow> toc" where
  \<comment> \<open>the click listeners of one node, for a click on \<open>target\<close>\<close>
  "node_clicked lay nm target r s =
     (let s1 = fold (\<lambda>t s. if t = r then final (toggleSection t s) else s) (fold_toggles s) s;
          s2 = (if r \<in> set (summary_links s1) then headerThresholdClick target s1 else s1);
          s3 = fold (\<lambda>(t, li) s. if t = r then toggle_class li ''expanded'' s else s) (toggle_items s2) s2
      in if r = scrollbox then scrollbox_clicked lay nm target s3 else s3)"

definition sidebar_click :: "layout \<Rightarrow> numbers \<Rightarrow> ref \<Rightarrow> toc \<Rightarrow> toc" where
  \<comment> \<open>the click rises from its target to the root\<close>
  "sidebar_click lay nm target s = fold (node_clicked lay nm target) (target # ancestors s target) s"

datatype toc_event =
    Scrolled layout
  | Clicked layout ref
  | Frame layout
  | ScrollTimer

fun toc_step :: "numbers \<Rightarrow> toc_event \<Rightarrow> toc \<Rightarrow> toc" where
  "toc_step nm (Scrolled lay) s = reloadCurrentHeader lay nm s"
| "toc_step nm (Clicked lay r) s = sidebar_click lay nm r s"
| "toc_step nm (Frame lay) s = animation_frame lay s"
| "toc_step nm ScrollTimer s = scroll_enabled s"

section \<open>The loops\<close>

lemma last_above_takeWhile:
  "last_above lay thr hs acc =
     (let a = takeWhile (\<lambda>h. rect_top lay h \<le> thr) hs in if a = [] then acc else Some (last a))"
  by (induction hs arbitrary: acc) (auto simp: Let_def)

lemma clear_live_frame:
  assumes "\<And>r t. g (remove_class r ''current-header'' t) = g t"
  shows "g (clear_live i s) = g s"
  by (induction i s rule: clear_live.induct) (subst clear_live.simps, simp add: assms)

lemma clear_live_other: "c \<noteq> ''current-header'' \<Longrightarrow> has_class (clear_live i s) x c = has_class s x c"
  by (rule clear_live_frame) simp

text \<open>With one marked element the loop over the live collection clears it.\<close>

lemma clear_live_one:
  assumes "set (current_headers s) = {a}"
  shows "clear_live 0 s = remove_class a ''current-header'' s"
proof -
  let ?t = "remove_class a ''current-header'' s"
  obtain cs where cs: "current_headers s = a # cs" "set cs \<subseteq> {a}"
    using assms by (cases "current_headers s") auto
  have "current_headers ?t = []"
    using assms by (auto simp: current_headers_remove filter_empty_conv)
  then have "clear_live (Suc 0) ?t = ?t" by (subst clear_live.simps) simp
  then show ?thesis using cs by (subst clear_live.simps) simp
qed

text \<open>With two it would leave the second: the loop relies on there never being two.\<close>

lemma clear_live_two:
  assumes "current_headers s = [a, b]" "a \<noteq> b"
  shows "clear_live 0 s = remove_class a ''current-header'' s"
proof -
  let ?t = "remove_class a ''current-header'' s"
  have "current_headers ?t = [b]" using assms by (simp add: current_headers_remove)
  then have "clear_live (Suc 0) ?t = ?t" by (subst clear_live.simps) simp
  then show ?thesis using assms by (subst clear_live.simps) simp
qed

section \<open>One current header\<close>

definition one_current :: "toc \<Rightarrow> bool" where
  "one_current s \<longleftrightarrow>
     (\<forall>x. has_class s x ''current-header'' \<longrightarrow> x \<in> set (below (length (nodes s)) s html_root))
     \<and> (\<forall>x y. has_class s x ''current-header'' \<longrightarrow> has_class s y ''current-header'' \<longrightarrow> x = y)"

definition toc_inv :: "toc \<Rightarrow> bool" where
  "toc_inv s \<longleftrightarrow> one_current s \<and> \<not> thresholdDebug s"

lemma one_current_cong:
  assumes "kids t = kids s" "nodes t = nodes s"
    and "\<And>x. has_class t x ''current-header'' = has_class s x ''current-header''"
  shows "one_current t = one_current s"
  using assms by (simp add: one_current_def below_frame [of t s])

lemma one_current_cleared:
  assumes "one_current s"
  shows "\<not> has_class (clear_live 0 s) x ''current-header''"
proof -
  have mem: "has_class s x ''current-header'' \<longleftrightarrow> x \<in> set (current_headers s)" for x
    using assms by (auto simp: one_current_def query_all_def at_class_def)
  show ?thesis
  proof (cases "current_headers s")
    case Nil
    then have "clear_live 0 s = s" by (subst clear_live.simps) simp
    then show ?thesis using mem Nil by simp
  next
    case (Cons a as)
    then have "has_class s a ''current-header''" by (simp add: mem)
    then have "set (current_headers s) = {a}" using assms mem by (auto simp: one_current_def)
    then show ?thesis using mem by (auto simp: clear_live_one)
  qed
qed

text \<open>The state after the two clearing loops of \<open>updateCurrentHeader\<close>.\<close>

definition cleared :: "toc \<Rightarrow> toc" where
  "cleared s = fold (\<lambda>toggle. remove_class toggle ''expanded'') (headerToggles s) (clear_live 0 s)"

lemma fold_collapse_class:
  "has_class (fold (\<lambda>toggle. remove_class toggle c) rs s) x k \<longleftrightarrow>
     has_class s x k \<and> \<not> (x \<in> set rs \<and> k = c)"
  by (induction rs arbitrary: s) auto

lemma cleared_frame [simp]:
  "kids (cleared s) = kids s" "nodes (cleared s) = nodes s" "par (cleared s) = par s"
  "tag (cleared s) = tag s" "attrs (cleared s) = attrs s" "ident (cleared s) = ident s"
  "threshold (cleared s) = threshold s" "headers (cleared s) = headers s"
  "headerToggles (cleared s) = headerToggles s" "thresholdDebug (cleared s) = thresholdDebug s"
  "session_store (cleared s) = session_store s" "disableScroll (cleared s) = disableScroll s"
  "pending_frames (cleared s) = pending_frames s"
  unfolding cleared_def by (subst fold_frame, simp, rule clear_live_frame, simp)+

lemma cleared_class:
  assumes "one_current s"
  shows "has_class (cleared s) x k \<longleftrightarrow>
    has_class s x k \<and> k \<noteq> ''current-header'' \<and> \<not> (x \<in> set (headerToggles s) \<and> k = ''expanded'')"
  using one_current_cleared [OF assms] clear_live_other [of k 0 s x]
  by (cases "k = ''current-header''") (auto simp: cleared_def fold_collapse_class)

lemma summary_link_cleared:
  "summary_link (cleared s) h = summary_link s h"
proof -
  have "has_class (cleared s) x ''header-in-summary'' = has_class s x ''header-in-summary''" for x
    by (simp add: cleared_def fold_collapse_class clear_live_other)
  then show ?thesis
    by (simp add: summary_link_def query_all_def at_class_def [abs_def] below_frame [of "cleared s" s])
qed

definition chosen_header :: "layout \<Rightarrow> real \<Rightarrow> ref list \<Rightarrow> ref option" where
  \<comment> \<open>what the comments promise: the last of the headers from the top on that are above the line;
    when there is none, the first header if it is on the screen\<close>
  "chosen_header lay thr hs =
     (let a = takeWhile (\<lambda>h. rect_top lay h \<le> thr) hs
      in if a \<noteq> [] then Some (last a)
         else if hs \<noteq> [] \<and> rect_top lay (hd hs) < inner_height lay then Some (hd hs) else None)"

lemma updateCurrentHeader_eq:
  assumes "headers s = Some hs" "hs \<noteq> []"
  shows "updateCurrentHeader lay s =
    (case Option.bind (chosen_header lay (threshold s) hs) (summary_link s) of
       None \<Rightarrow> cleared s
     | Some a \<Rightarrow> updateHeaderExpanded a (add_class a ''current-header'' (cleared s)))"
proof -
  obtain h0 tl where hs: "hs = h0 # tl" using assms(2) by (cases hs) auto
  have tg: "headerToggles (clear_live 0 s) = headerToggles s" by (rule clear_live_frame) simp
  show ?thesis
    using assms(1)
    by (auto simp: updateCurrentHeader_def hs Let_def tg cleared_def [symmetric] last_above_takeWhile
        chosen_header_def summary_link_cleared split: option.split)
qed

lemma reveal_header_class:
  "has_class (updateHeaderExpanded a (add_class a ''current-header'' t)) x k \<longleftrightarrow>
     has_class t x k \<or> x = a \<and> k = ''current-header''
     \<or> k = ''expanded'' \<and> x \<in> set (ancestors t a) \<and> tag t x = ''LI'' \<and> has_class t x ''header-item''"
  by (auto simp: updateHeaderExpanded_def reveal_read ancestors_frame [of "add_class a ''current-header'' t" t])

lemma summary_link_in_tree:
  "summary_link s h = Some a \<Longrightarrow> a \<in> set (below (length (nodes s)) s html_root)"
  by (auto simp: summary_link_def query_all_def dest!: find_Some_iff_set)

lemma updateCurrentHeader_inv:
  assumes "one_current s"
  shows "one_current (updateCurrentHeader lay s)"
proof (cases "headers s")
  case None
  then show ?thesis using assms by (simp add: updateCurrentHeader_def)
next
  case (Some hs)
  show ?thesis
  proof (cases "hs = []")
    case True
    then show ?thesis using assms Some by (simp add: updateCurrentHeader_def)
  next
    case False
    note eq = updateCurrentHeader_eq [OF Some False, of lay]
    have none: "\<not> has_class (cleared s) x ''current-header''" for x
      using cleared_class [OF assms] by blast
    then have base: "one_current (cleared s)" by (simp add: one_current_def)
    show ?thesis
    proof (cases "Option.bind (chosen_header lay (threshold s) hs) (summary_link s)")
      case None
      then show ?thesis using base by (simp add: eq)
    next
      case (Some a)
      let ?t = "updateHeaderExpanded a (add_class a ''current-header'' (cleared s))"
      have kids: "kids ?t = kids s" "nodes ?t = nodes s" by (simp_all add: updateHeaderExpanded_def reveal_read)
      have cur: "has_class ?t x ''current-header'' \<longleftrightarrow> x = a" for x
        by (simp add: reveal_header_class none)
      obtain h where "summary_link s h = Some a" using Some by (auto simp: bind_eq_Some_conv)
      then have "a \<in> set (below (length (nodes s)) s html_root)" by (rule summary_link_in_tree)
      then have "one_current ?t" by (simp add: one_current_def cur kids below_frame [of ?t s])
      then show ?thesis by (simp add: eq Some)
    qed
  qed
qed

section \<open>Every step keeps one current header\<close>

lemma updateCurrentHeader_debug [simp]:
  "thresholdDebug (updateCurrentHeader lay s) = thresholdDebug s"
proof (cases "headers s")
  case (Some hs)
  then show ?thesis
    by (cases "hs = []")
      (simp add: updateCurrentHeader_def,
        simp add: updateCurrentHeader_eq updateHeaderExpanded_def split: option.split)
qed (simp add: updateCurrentHeader_def)

lemma updateCurrentHeader_toc_inv: "toc_inv s \<Longrightarrow> toc_inv (updateCurrentHeader lay s)"
  by (simp add: toc_inv_def updateCurrentHeader_inv)

lemma toc_inv_fields [simp]:
  "toc_inv (s\<lparr>threshold := v\<rparr>) = toc_inv s" "toc_inv (s\<lparr>lastKnownScrollPosition := v\<rparr>) = toc_inv s"
  "toc_inv (s\<lparr>disableScroll := b\<rparr>) = toc_inv s" "toc_inv (s\<lparr>pending_frames := q\<rparr>) = toc_inv s"
  "toc_inv (s\<lparr>session_store := m\<rparr>) = toc_inv s" "toc_inv (emit e s) = toc_inv s"
  by (simp_all add: toc_inv_def one_current_def has_class_def emit_def below_frame [of "s\<lparr>threshold := v\<rparr>" s]
      below_frame [of "s\<lparr>lastKnownScrollPosition := v\<rparr>" s] below_frame [of "s\<lparr>disableScroll := b\<rparr>" s]
      below_frame [of "s\<lparr>pending_frames := q\<rparr>" s] below_frame [of "s\<lparr>session_store := m\<rparr>" s]
      below_frame [of "s\<lparr>effects := effects s @ [e]\<rparr>" s])

lemma toc_inv_toggle:
  "c \<noteq> ''current-header'' \<Longrightarrow> toc_inv (toggle_class r c s) = toc_inv s"
  by (simp add: toc_inv_def one_current_cong [of "toggle_class r c s" s])

lemma header_reached_inv: "toc_inv s \<Longrightarrow> toc_inv (final (header_reached lay target s))"
  by (auto simp: header_reached_def updateCurrentHeader_toc_inv split: option.split)

lemma animation_frame_inv: "toc_inv s \<Longrightarrow> toc_inv (animation_frame lay s)"
  unfolding animation_frame_def
  by (rule fold_invariant_list) (auto simp: header_reached_inv split: prod.split)

lemma updateThreshold_inv: "toc_inv s \<Longrightarrow> toc_inv (updateThreshold lay nm s)"
  by (simp add: updateThreshold_def Let_def) (simp add: toc_inv_def)

lemma toggleSection_inv: "toc_inv s \<Longrightarrow> toc_inv (final (toggleSection r s))"
  by (auto simp: toggleSection_def toc_inv_toggle split: option.split)

lemma headerThresholdClick_inv: "toc_inv s \<Longrightarrow> toc_inv (headerThresholdClick target s)"
  by (simp add: headerThresholdClick_def)

lemma scrollbox_clicked_inv: "toc_inv s \<Longrightarrow> toc_inv (scrollbox_clicked lay nm target s)"
  by (simp add: scrollbox_clicked_def)

lemma node_clicked_inv:
  assumes "toc_inv s"
  shows "toc_inv (node_clicked lay nm target r s)"
proof -
  let ?s1 = "fold (\<lambda>t s. if t = r then final (toggleSection t s) else s) (fold_toggles s) s"
  let ?s2 = "if r \<in> set (summary_links ?s1) then headerThresholdClick target ?s1 else ?s1"
  let ?s3 = "fold (\<lambda>(t, li) s. if t = r then toggle_class li ''expanded'' s else s) (toggle_items ?s2) ?s2"
  have "toc_inv ?s1"
    by (rule fold_invariant_list [where P = toc_inv, OF assms]) (simp add: toggleSection_inv)
  then have s2: "toc_inv ?s2" by (simp add: headerThresholdClick_inv)
  have "toc_inv ?s3"
    by (rule fold_invariant_list [where P = toc_inv, OF s2]) (auto simp: toc_inv_toggle split: prod.split)
  moreover have "node_clicked lay nm target r s = (if r = scrollbox then scrollbox_clicked lay nm target ?s3 else ?s3)"
    unfolding node_clicked_def Let_def ..
  ultimately show ?thesis using scrollbox_clicked_inv by presburger
qed

interpretation toc_machine: machine "toc_step nm" toc_inv for nm
proof
  fix s e
  assume inv: "toc_inv s"
  show "toc_inv (toc_step nm e s)"
  proof (cases e)
    case (Scrolled lay)
    then show ?thesis
      using inv by (simp add: reloadCurrentHeader_def updateCurrentHeader_toc_inv updateThreshold_inv)
  next
    case (Clicked lay r)
    have "toc_inv (sidebar_click lay nm r s)"
      unfolding sidebar_click_def by (rule fold_invariant_list [where P = toc_inv, OF inv]) (rule node_clicked_inv)
    then show ?thesis using Clicked by simp
  next
    case (Frame lay)
    then show ?thesis using inv by (simp add: animation_frame_inv)
  next
    case ScrollTimer
    then show ?thesis using inv by (simp add: scroll_enabled_def)
  qed
qed

section \<open>Where the threshold goes\<close>

lemma adjusted_bounds:
  "0 \<le> adjustedBottomAdd lay \<and> adjustedBottomAdd lay \<le> bottomAdd lay"
proof -
  have "0 \<le> bottomAdd lay" by (simp add: bottomAdd_def)
  then show ?thesis
    by (auto simp: adjustedBottomAdd_def Let_def intro: mult_left_le)
qed

lemma at_end_adjusted:
  assumes "pixelsBelow lay = 0" "150 \<le> inner_height lay"
  shows "adjustedBottomAdd lay = inner_height lay - 150"
  using assms by (simp add: adjustedBottomAdd_def bottomAdd_def Let_def defaultDownThreshold_def)

lemma updateThreshold_reads:
  assumes "\<not> thresholdDebug s"
  shows "updateThreshold lay nm s
    = s\<lparr>threshold := new_threshold lay s, lastKnownScrollPosition := scroll_position lay\<rparr>"
  using assms by (simp add: updateThreshold_def Let_def)

section \<open>Properties\<close>

text \<open>
  Along every run of scrolling, clicks in the sidebar, animation frames and timers at most one
  link of the sidebar is marked as the current header, whatever the layout and the headers are.
\<close>

lemma one_current_header:
  assumes "toc_inv s"
  shows "card {x. has_class (fold (toc_step nm) es s) x ''current-header''} \<le> 1"
proof -
  let ?C = "{x. has_class (fold (toc_step nm) es s) x ''current-header''}"
  have "toc_inv (fold (toc_step nm) es s)" by (rule toc_machine.run_inv [OF assms])
  then have eq: "\<And>x y. x \<in> ?C \<Longrightarrow> y \<in> ?C \<Longrightarrow> x = y" by (simp add: toc_inv_def one_current_def)
  show ?thesis
  proof (cases "?C = {}")
    case False
    then obtain a where "a \<in> ?C" by blast
    then have "?C = {a}" using eq by blast
    then show ?thesis by simp
  qed simp
qed

definition headed_toc :: toc where
  "headed_toc = example_toc
     \<lparr>attrs := (\<lambda>r. if r = Node 2 then [''href'' \<mapsto> ''#a''] else if r = Node 5 then [''href'' \<mapsto> ''#b''] else Map.empty),
      classes := (\<lambda>r. if r \<in> {Node 1, Node 4} then [''header-item''] else
                     if r \<in> {Node 2, Node 5} then [''header-in-summary''] else []),
      ident := (\<lambda>r. if r = Named ''first'' then ''a'' else if r = Named ''second'' then ''b'' else ''''),
      headers := Some [Named ''first'', Named ''second'']\<rparr>"

definition end_layout :: layout where
  "end_layout = \<lparr>rect_top = (\<lambda>r. if r = Named ''first'' then 100 else 500), rect_bottom = (\<lambda>r. 520),
      inner_height = 600, page_y_offset = 300, root_scroll_top = 0, root_scroll_height = 900,
      clamp_scroll = (\<lambda>v. v)\<rparr>"

lemma headed_toc_inv: "toc_inv headed_toc"
  by (auto simp: toc_inv_def one_current_def headed_toc_def example_toc_def has_class_def)

lemma headed_toc_headers: "headers headed_toc = Some [Named ''first'', Named ''second'']"
  by (simp add: headed_toc_def)

lemma headed_toc_below:
  "below (length (nodes headed_toc)) headed_toc html_root
     = [Named ''mdbook-sidebar'', scrollbox, Node 0, Node 1, Node 2, Node 3, Node 4, Node 5]"
  by (simp add: headed_toc_def example_toc_def eval_nat_numeral)

lemma headed_toc_link: "summary_link headed_toc (Named ''second'') = Some (Node 5)"
  by (simp add: summary_link_def query_all_def headed_toc_below at_class_def has_class_def)
    (simp add: headed_toc_def)

theorem one_current_header_witness:
  "card {x. has_class (fold (toc_step toc_numbers) [Scrolled end_layout, Clicked end_layout (Node 2), Frame end_layout]
      headed_toc) x ''current-header''} \<le> 1"
  by (rule one_current_header [OF headed_toc_inv])

text \<open>
  C25: Updating the current header marks exactly the sidebar link of the chosen header, which is the
  last of the headers above the threshold, or the first header when none is above it but the first
  is on the screen; it unfolds exactly the header items around that link, after folding every item
  that has a toggle; without such a link nothing is marked.
\<close>

theorem current_header_marked:
  assumes "toc_inv s" and "headers s = Some hs" and "hs \<noteq> []"
    and "target = Option.bind (chosen_header lay (threshold s) hs) (summary_link s)"
    and "t = updateCurrentHeader lay s"
  shows "(\<forall>x. has_class t x ''current-header'' \<longleftrightarrow> target = Some x)
    \<and> (\<forall>x. has_class t x ''expanded'' \<longleftrightarrow>
         has_class s x ''expanded'' \<and> x \<notin> set (headerToggles s)
         \<or> tag s x = ''LI'' \<and> has_class s x ''header-item''
           \<and> (\<exists>a. target = Some a \<and> x \<in> set (ancestors s a)))"
proof -
  have one: "one_current s" using assms(1) by (simp add: toc_inv_def)
  note eq = updateCurrentHeader_eq [OF assms(2,3), of lay]
  note cl = cleared_class [OF one]
  have anc: "ancestors (cleared s) a = ancestors s a" for a by (rule ancestors_frame) simp_all
  show ?thesis
    by (cases target) (auto simp: assms(5) eq assms(4)[symmetric] cl reveal_header_class anc)
qed

theorem current_header_marked_witness:
  "has_class (updateCurrentHeader end_layout (headed_toc\<lparr>threshold := 510\<rparr>)) (Node 5) ''current-header''"
proof -
  have inv: "toc_inv (headed_toc\<lparr>threshold := 510\<rparr>)" using headed_toc_inv by simp
  have hs: "headers (headed_toc\<lparr>threshold := 510\<rparr>) = Some [Named ''first'', Named ''second'']"
    by (simp add: headed_toc_headers)
  have "summary_link (headed_toc\<lparr>threshold := 510\<rparr>) (Named ''second'') = Some (Node 5)"
    using headed_toc_link
    by (simp add: summary_link_def query_all_def at_class_def [abs_def] has_class_def
        below_frame [of "headed_toc\<lparr>threshold := 510\<rparr>" headed_toc])
  then show ?thesis
    using current_header_marked [OF inv hs _ refl refl, of end_layout]
    by (simp add: chosen_header_def Let_def end_layout_def)
qed

text \<open>
  Scrolled down to the end of a page that is longer than the window, the threshold is at the
  bottom edge of the window or below it, so the last header of the page becomes the current one
  wherever on the screen it is.
\<close>

lemma last_header_reached:
  assumes "toc_inv s" and "\<not> disableScroll s" and "headers s = Some hs" and "hs \<noteq> []"
    and "inner_height lay < root_scroll_height lay" and "150 \<le> inner_height lay"
    and "root_scroll_height lay \<le> scroll_position lay + inner_height lay"
    and "lastKnownScrollPosition s \<le> scroll_position lay"
    and "\<forall>h \<in> set hs. rect_top lay h \<le> inner_height lay"
    and "summary_link s (last hs) = Some a"
  shows "inner_height lay \<le> threshold (updateThreshold lay nm s)
    \<and> (\<forall>x. has_class (reloadCurrentHeader lay nm s) x ''current-header'' \<longleftrightarrow> x = a)"
proof -
  let ?u = "updateThreshold lay nm s"
  have u: "?u = s\<lparr>threshold := new_threshold lay s, lastKnownScrollPosition := scroll_position lay\<rparr>"
    using assms(1) by (simp add: updateThreshold_reads toc_inv_def)
  have "pixelsBelow lay = 0" using assms(7) by (simp add: pixelsBelow_def)
  then have "adjustedBottomAdd lay = inner_height lay - 150" using assms(6) by (rule at_end_adjusted)
  then have thr: "inner_height lay \<le> new_threshold lay s"
    using assms(5,8) by (simp add: new_threshold_def Let_def scrollingDown_def default_defs)
  have tw: "takeWhile (\<lambda>h. rect_top lay h \<le> new_threshold lay s) hs = hs"
    using assms(9) thr by (auto simp: takeWhile_eq_all_conv)
  have "threshold ?u = new_threshold lay s" by (simp add: u)
  then have chosen: "chosen_header lay (threshold ?u) hs = Some (last hs)"
    using assms(4) by (simp only: chosen_header_def Let_def tw) simp
  have inv: "toc_inv ?u" using assms(1) by (rule updateThreshold_inv)
  have hs: "headers ?u = Some hs" using assms(3) by (simp add: u)
  have link: "summary_link ?u (last hs) = Some a"
    using assms(10)
    by (simp add: u summary_link_def query_all_def at_class_def [abs_def] has_class_def
        below_frame [of "s\<lparr>threshold := new_threshold lay s, lastKnownScrollPosition := scroll_position lay\<rparr>" s])
  have one: "one_current ?u" using inv by (simp add: toc_inv_def)
  have "has_class (updateCurrentHeader lay ?u) x ''current-header'' \<longleftrightarrow> x = a" for x
    using updateCurrentHeader_eq [OF hs assms(4), of lay] cleared_class [OF one] chosen link
    by (simp add: reveal_header_class)
  then show ?thesis using thr assms(2) by (simp add: u reloadCurrentHeader_def)
qed

theorem last_header_reached_witness:
  "has_class (reloadCurrentHeader end_layout toc_numbers headed_toc) (Node 5) ''current-header''"
proof -
  have "\<not> disableScroll headed_toc" "lastKnownScrollPosition headed_toc = 0"
    by (simp_all add: headed_toc_def example_toc_def)
  then show ?thesis
    using last_header_reached [OF headed_toc_inv _ headed_toc_headers, of end_layout "Node 5" toc_numbers]
    by (simp add: end_layout_def scroll_position_def headed_toc_link)
qed

text \<open>
  The threshold stays where the comments put it: on a page that fits the window it is 0;
  scrolling up it rests at most at 300 pixels, less what is missing at the top of the page, plus
  the part of the bottom offset above 150, and moves down at most as far as was scrolled;
  scrolling down it rests at 150 pixels plus the bottom offset at least and otherwise moves up by
  what was scrolled. The bottom offset is between 0 and the height of the window less 150, or 0.
\<close>

lemma threshold_range:
  "(if root_scroll_height lay \<le> inner_height lay then new_threshold lay s = 0
    else if scrollingDown lay s then
      150 + adjustedBottomAdd lay \<le> new_threshold lay s
      \<and> new_threshold lay s \<le> max (150 + adjustedBottomAdd lay) (threshold s)
    else
      new_threshold lay s \<le> 300 - pixelsAbove lay + max 0 (adjustedBottomAdd lay - 150)
      \<and> new_threshold lay s \<le> threshold s + (lastKnownScrollPosition s - scroll_position lay))
   \<and> 0 \<le> adjustedBottomAdd lay \<and> adjustedBottomAdd lay \<le> max 0 (inner_height lay - 150)"
proof -
  have "bottomAdd lay \<le> max 0 (inner_height lay - 150)"
    by (simp add: bottomAdd_def pixelsBelow_def defaultDownThreshold_def)
  then have "0 \<le> adjustedBottomAdd lay \<and> adjustedBottomAdd lay \<le> max 0 (inner_height lay - 150)"
    using adjusted_bounds [of lay] by linarith
  then show ?thesis
    by (auto simp: new_threshold_def Let_def scrollingDown_def default_defs)
qed

end
