(* ===== verification/Doc_Tree.thy ===== *)
theory Doc_Tree
  imports Dom
begin

text \<open>
  Document trees as values: a node with its subtrees in order, when a store represents one, and
  what appending below a node on the right edge of a tree does. Scripts that only append build
  such trees from left to right; the lemmas turn statements about the store into list equations.
\<close>

datatype tree = Tree ref "tree list"

primrec tree_root :: "tree \<Rightarrow> ref" where
  "tree_root (Tree r ts) = r"

primrec flat :: "tree \<Rightarrow> ref list" where
  "flat (Tree r ts) = r # concat (map flat ts)"

primrec spine :: "tree \<Rightarrow> ref list" where
  \<comment> \<open>the root, its last child, the last child of that, and so on\<close>
  "spine (Tree r ts) = r # (if ts = [] then [] else last (map spine ts))"

primrec graft :: "ref \<Rightarrow> tree \<Rightarrow> tree \<Rightarrow> tree" where
  \<comment> \<open>a new last child for a node of the spine\<close>
  "graft x u (Tree r ts) =
     (if r = x then Tree r (ts @ [u])
      else if ts = [] then Tree r [] else Tree r (butlast ts @ [last (map (graft x u) ts)]))"

fun rep :: "'a dom_scheme \<Rightarrow> tree \<Rightarrow> bool" where
  \<comment> \<open>the store has this tree\<close>
  "rep d (Tree r ts) \<longleftrightarrow> kids d r = map tree_root ts \<and> list_all (rep d) ts"

lemma tree_root_in_flat: "tree_root t \<in> set (flat t)"
  by (cases t) simp

lemma spine_subset_flat: "set (spine t) \<subseteq> set (flat t)"
proof (induction t)
  case (Tree r ts)
  show ?case
  proof (cases "ts = []")
    case False
    then have "last ts \<in> set ts" "last (map spine ts) = spine (last ts)" by (simp_all add: last_map)
    then show ?thesis using Tree [of "last ts"] by auto
  qed simp
qed

lemma spine_not_empty [simp]: "spine t \<noteq> []"
  by (cases t) simp

lemma hd_spine: "hd (spine t) = tree_root t"
  by (cases t) simp

lemma root_graft [simp]: "tree_root (graft x u t) = tree_root t"
  by (cases t) simp

lemma rep_frame:
  assumes "rep d t" and "\<And>r. r \<in> set (flat t) \<Longrightarrow> kids d' r = kids d r"
  shows "rep d' t"
  using assms
proof (induction t)
  case (Tree r ts)
  have "list_all (rep d') ts"
    using Tree by (auto simp: list_all_iff)
  then show ?case using Tree.prems by simp
qed

lemma spine_cases:
  assumes "spine (Tree r ts) = ys @ x # zs" "r \<noteq> x"
  obtains ys' where "ys = r # ys'" "ts \<noteq> []" "spine (last ts) = ys' @ x # zs"
  using assms by (cases ys) (auto simp: last_map split: if_splits)

lemma flat_graft:
  assumes "spine t = ys @ x # zs"
  shows "flat (graft x u t) = flat t @ flat u"
  using assms
proof (induction t arbitrary: ys)
  case (Tree r ts)
  show ?case
  proof (cases "r = x")
    case False
    with Tree.prems obtain ys' where "ts \<noteq> []" "spine (last ts) = ys' @ x # zs"
      by (rule spine_cases)
    moreover from this have "flat (graft x u (last ts)) = flat (last ts) @ flat u" using Tree.IH by simp
    moreover obtain bs l where "ts = bs @ [l]" using calculation(1) by (cases ts rule: rev_cases) auto
    ultimately show ?thesis using False by simp
  qed simp
qed

lemma spine_graft:
  assumes "spine t = ys @ x # zs" "x \<notin> set ys"
  shows "spine (graft x u t) = ys @ x # spine u"
  using assms
proof (induction t arbitrary: ys)
  case (Tree r ts)
  show ?case
  proof (cases "r = x")
    case True
    then have "ys = []" using Tree.prems by (cases ys) auto
    then show ?thesis using True by simp
  next
    case False
    with Tree.prems(1) obtain ys' where "ys = r # ys'" "ts \<noteq> []" "spine (last ts) = ys' @ x # zs"
      by (rule spine_cases)
    then show ?thesis using Tree False by (simp add: last_map)
  qed
qed

lemma rep_graft:
  assumes "rep d t" "rep d u" "distinct (flat t)" "set (flat u) \<inter> set (flat t) = {}"
    and "spine t = ys @ x # zs" "kids d' = (kids d)(x := kids d x @ [tree_root u])"
  shows "rep d' (graft x u t)"
  using assms(1,3,4,5)
proof (induction t arbitrary: ys)
  case (Tree r ts)
  have "x \<in> set (spine (Tree r ts))" using Tree.prems(4) by (simp only:) simp
  then have xin: "x \<in> set (flat (Tree r ts))" using spine_subset_flat by blast
  have u: "rep d' u"
    by (rule rep_frame [OF assms(2)]) (use xin Tree.prems(3) in \<open>auto simp: assms(6)\<close>)
  have same: "rep d' v" if "v \<in> set ts" "x \<notin> set (flat v)" for v
    by (rule rep_frame [of d]) (use that Tree.prems(1) in \<open>auto simp: assms(6) list_all_iff\<close>)
  show ?case
  proof (cases "r = x")
    case True
    then have "list_all (rep d') ts"
      using Tree.prems(2) same by (auto simp: list_all_iff)
    then show ?thesis using True u Tree.prems(1) by (simp add: assms(6))
  next
    case False
    with Tree.prems(4) obtain ys' where ts: "ts \<noteq> []" "spine (last ts) = ys' @ x # zs"
      by (rule spine_cases)
    obtain bs l where spl: "ts = bs @ [l]" using ts(1) by (cases ts rule: rev_cases) auto
    have sub: "distinct (flat (last ts))" "set (flat u) \<inter> set (flat (last ts)) = {}" "rep d (last ts)"
      using Tree.prems(1-3) by (auto simp: spl list_all_iff)
    have "rep d' (graft x u (last ts))"
      by (rule Tree.IH [OF _ sub(3,1,2) ts(2)]) (use ts(1) in simp)
    moreover have "rep d' v" if "v \<in> set (butlast ts)" for v
    proof (rule same)
      show "v \<in> set ts" using that by (rule in_set_butlastD)
      have "x \<in> set (flat (last ts))" using spine_subset_flat [of "last ts"] ts(2) by auto
      then show "x \<notin> set (flat v)" using that Tree.prems(2) by (auto simp: spl)
    qed
    moreover have "kids d' r = map tree_root (butlast ts) @ [tree_root (last ts)]"
      using Tree.prems(1) False by (simp add: assms(6) spl)
    ultimately show ?thesis using False by (simp add: spl list_all_iff)
  qed
qed

lemma flat_child_shorter:
  "t \<in> set ts \<Longrightarrow> length (flat t) < length (flat (Tree r ts))"
  by (induction ts) auto

lemma below_rep:
  assumes "rep d t" "length (flat t) \<le> n"
  shows "below n d (tree_root t) = tl (flat t)"
  using assms
proof (induction t arbitrary: n)
  case (Tree r ts)
  then obtain m where n: "n = Suc m" by (cases n) auto
  have "tree_root u # below m d (tree_root u) = flat u" if "u \<in> set ts" for u
  proof -
    have "length (flat u) \<le> m" using flat_child_shorter [OF that, of r] Tree.prems(2) n by linarith
    then have "below m d (tree_root u) = tl (flat u)"
      using Tree that by (simp add: list_all_iff)
    then show ?thesis by (cases u) simp
  qed
  then have "map (\<lambda>k. k # below m d k) (map tree_root ts) = map flat ts" by simp
  moreover have "kids d r = map tree_root ts" using Tree.prems(1) by simp
  ultimately show ?case by (simp only: n below.simps tree_root.simps flat.simps list.sel)
qed

text \<open>What comes after a node on the spine is its last child.\<close>

lemma spine_next:
  assumes "rep d t" "spine t = ys @ x # zs" "distinct (flat t)"
  shows "zs = [] \<and> kids d x = [] \<or> (\<exists>zs'. zs = last (kids d x) # zs' \<and> kids d x \<noteq> [])"
  using assms
proof (induction t arbitrary: ys)
  case (Tree r ts)
  show ?case
  proof (cases "r = x")
    case True
    have "ys = []"
    proof (rule ccontr)
      assume "ys \<noteq> []"
      then obtain ys' where "ys = r # ys'" using Tree.prems(2) by (cases ys) auto
      then have "ts \<noteq> [] \<and> x \<in> set (spine (last ts))" using Tree.prems(2) by (auto simp: last_map split: if_splits)
      then have "x \<in> set (concat (map flat ts))" using spine_subset_flat [of "last ts"] by auto
      then show False using Tree.prems(3) True by simp
    qed
    then have zs: "zs = (if ts = [] then [] else last (map spine ts))" using Tree.prems(2) True by simp
    show ?thesis
    proof (cases "ts = []")
      case False
      then have "zs = spine (last ts)" "last (kids d x) = tree_root (last ts)" "kids d x \<noteq> []"
        using zs Tree.prems(1) True by (simp_all add: last_map)
      then show ?thesis using hd_spine [of "last ts"] spine_not_empty [of "last ts"]
        by (metis list.exhaust_sel)
    qed (use zs Tree.prems(1) True in simp)
  next
    case False
    with Tree.prems(2) obtain ys' where ts: "ts \<noteq> []" "spine (last ts) = ys' @ x # zs"
      by (rule spine_cases)
    then show ?thesis
      using Tree.IH [of "last ts" ys'] Tree.prems(1,3) by (auto simp: list_all_iff distinct_concat_iff)
  qed
qed

lemma distinct_spine:
  assumes "distinct (flat t)"
  shows "distinct (spine t)"
  using assms
proof (induction t)
  case (Tree r ts)
  show ?case
  proof (cases ts rule: rev_cases)
    case (snoc bs l)
    then have "distinct (spine l)" using Tree by simp
    moreover have "r \<notin> set (spine l)" using Tree.prems snoc spine_subset_flat [of l] by auto
    ultimately show ?thesis by (simp add: snoc)
  qed simp
qed

lemma spine_split_first:
  "distinct (flat t) \<Longrightarrow> spine t = ys @ x # zs \<Longrightarrow> x \<notin> set ys \<and> x \<in> set (flat t)"
  using distinct_spine [of t] spine_subset_flat [of t] by auto

end
