(* ===== verification/Toc_Headers.thy ===== *)
theory Toc_Headers
  imports Toc_Threshold Doc_Tree
begin

text \<open>
  The list of headers the last part of \<open>toc-d86eca13.js\<close> puts under the active chapter when the
  document is ready: a stack of open lists, one per level, a list item per header, and a toggle on
  the items that can be folded. Reading the finished list back gives the headers with their levels.
\<close>

section \<open>The labels\<close>

text \<open>
  \<open>filterHeader\<close>: the clone's \<open>mark\<close> elements are replaced, in document order, by their children;
  in the end no mark is left and everything else is in its place.
\<close>

fun unmark :: "inline \<Rightarrow> inline list" where
  "unmark (Words w) = [Words w]"
| "unmark (Elem t ks) =
     (if t = ''MARK'' then concat (map unmark ks) else [Elem t (concat (map unmark ks))])"

definition filterHeader :: "ref \<Rightarrow> ref \<Rightarrow> toc \<Rightarrow> toc" where
  "filterHeader source dest s =
     s\<lparr>inlines := (inlines s)(dest := inlines s dest @ concat (map unmark (inlines s source)))\<rparr>"

section \<open>Building the list\<close>

type_synonym open_lists = "(nat \<times> ref) list"
  \<comment> \<open>\<open>stack\<close>, the last element first\<close>

definition header_level :: "'a dom_scheme \<Rightarrow> ref \<Rightarrow> nat" where
  \<comment> \<open>\<open>parseInt(header.tagName.charAt(1))\<close>\<close>
  "header_level s h = code (tag s h ! 1) - 48"

definition start_list :: "nat \<Rightarrow> open_lists \<times> toc \<Rightarrow> open_lists \<times> toc" where
  "start_list i st =
     (case st of (stack, s) \<Rightarrow>
        let (ol, s1) = create_element ''OL'' s;
            s2 = add_class ol ''section'' s1;
            s3 = (case stack of [] \<Rightarrow> s2 | (l, last_ol) # _ \<Rightarrow> append_child last_ol ol s2)
        in ((i + 1, ol) # stack, s3))"

definition nest_list :: "nat \<Rightarrow> open_lists \<times> toc \<Rightarrow> (open_lists \<times> toc) outcome" where
  "nest_list nextLevel st =
     (case st of (stack, s) \<Rightarrow>
        let (ol, s1) = create_element ''OL'' s;
            s2 = add_class ol ''section'' s1
        in case stack of
             [] \<Rightarrow> Throws TypeError (stack, s2)
           | (l, last_ol) # _ \<Rightarrow>
               Done ((nextLevel, ol) # stack,
                 (case last_child s2 last_ol of
                    Some lastChild \<Rightarrow> append_child lastChild ol s2
                  | None \<Rightarrow> append_child last_ol ol s2)))"

fun nest_lists :: "nat list \<Rightarrow> open_lists \<times> toc \<Rightarrow> (open_lists \<times> toc) outcome" where
  "nest_lists [] st = Done st"
| "nest_lists (l # ls) st = and_then (nest_list l st) (nest_lists ls)"

fun pop_lists :: "nat \<Rightarrow> open_lists \<Rightarrow> open_lists" where
  "pop_lists level ((l, ol) # (l', ol') # stack) =
     (if level < l then pop_lists level ((l', ol') # stack) else (l, ol) # (l', ol') # stack)"
| "pop_lists level stack = stack"

definition foldLevel :: nat where
  "foldLevel = 3"

definition add_toggle :: "ref \<Rightarrow> ref \<Rightarrow> toc \<Rightarrow> toc" where
  \<comment> \<open>the toggle, its listener, and the sign in it (the three bytes of U+2771)\<close>
  "add_toggle li spn s =
     (let (toggle, s1) = create_element ''A'' s;
          s2 = add_class toggle ''header-toggle'' (add_class toggle ''chapter-fold-toggle'' s1);
          s3 = s2\<lparr>toggle_items := toggle_items s2 @ [(toggle, li)]\<rparr>;
          (toggleDiv, s4) = create_element ''DIV'' s3;
          s5 = set_content toggleDiv [CHR 0xE2, CHR 0x9D, CHR 0xB1] s4;
          s6 = append_child toggle toggleDiv s5;
          s7 = append_child spn toggle s6
      in s7\<lparr>headerToggles := headerToggles s7 @ [li]\<rparr>)"

definition make_link :: "ref \<Rightarrow> ref \<Rightarrow> toc \<Rightarrow> ref \<times> toc" where
  \<comment> \<open>the anchor of a header inside its span\<close>
  "make_link header spn s =
     (let (a, s1) = create_element ''A'' s;
          s2 = append_child spn a s1;
          s3 = set_attr a ''href'' (''#'' @ ident s2 header) s2;
          s4 = add_class a ''header-in-summary'' s3;
          s5 = filterHeader (kids s4 header ! 0) a s4
      in (a, s5\<lparr>summary_links := summary_links s5 @ [a]\<rparr>))"

definition make_item :: "ref \<Rightarrow> ref option \<Rightarrow> toc \<Rightarrow> ref \<times> toc" where
  "make_item header nextHeader s =
     (let level = header_level s header;
          (li, s1) = create_element ''LI'' s;
          s2 = add_class li ''expanded'' (add_class li ''header-item'' s1);
          s3 = (if level < foldLevel then add_class li ''expanded'' s2 else s2);
          (spn, s4) = create_element ''SPAN'' s3;
          s5 = add_class spn ''chapter-link-wrapper'' s4;
          (a, s6) = make_link header spn s5;
          s7 = (case nextHeader of
                  None \<Rightarrow> s6
                | Some nh \<Rightarrow>
                    if level < header_level s6 nh \<and> foldLevel \<le> level
                    then add_toggle li spn s6 else s6)
      in (li, append_child li spn s7))"

definition add_header :: "ref \<Rightarrow> ref option \<Rightarrow> open_lists \<times> toc \<Rightarrow> (open_lists \<times> toc) outcome" where
  "add_header header nextHeader st =
     (case st of (stack, s) \<Rightarrow>
        (case stack of
           [] \<Rightarrow> Throws TypeError st
         | (currentLevel, cur) # _ \<Rightarrow>
             let level = header_level s header
             in and_then
                  (if currentLevel < level then nest_lists [currentLevel + 1..<level + 1] st
                   else if level < currentLevel then Done (pop_lists level stack, s)
                   else Done st)
                  (\<lambda>(stack1, s1).
                     let (li, s2) = make_item header nextHeader s1
                     in case stack1 of
                          [] \<Rightarrow> Throws TypeError (stack1, s2)
                        | (l, ol) # _ \<Rightarrow> Done (stack1, append_child ol li s2))))"

fun add_headers :: "ref list \<Rightarrow> open_lists \<times> toc \<Rightarrow> (open_lists \<times> toc) outcome" where
  "add_headers [] st = Done st"
| "add_headers (h # hs) st =
     and_then (add_header h (case hs of [] \<Rightarrow> None | nh # _ \<Rightarrow> Some nh) st) (add_headers hs)"

definition find_headers :: "toc \<Rightarrow> ref \<Rightarrow> ref list" where
  "find_headers s main =
     filter (\<lambda>h. ident s h \<noteq> '''' \<and> kids s h \<noteq> [] \<and> tag s (kids s h ! 0) = ''A'')
       (query_all s main (\<lambda>r. tag s r \<in> {''H2'', ''H3'', ''H4'', ''H5'', ''H6''}))"

definition place_section :: "ref \<Rightarrow> open_lists \<times> toc \<Rightarrow> toc outcome" where
  \<comment> \<open>the end of the listener: the outermost list goes after the wrapper of the active link\<close>
  "place_section active st =
     (case st of (stack, s) \<Rightarrow>
        let (onThisPage, s1) = create_element ''DIV'' s;
            s2 = add_class onThisPage ''on-this-page'' s1
        in if stack = [] then Throws TypeError s2
           else
             let s3 = append_child onThisPage (snd (last stack)) s2
             in case par s3 active of
                  None \<Rightarrow> Throws TypeError s3
                | Some activeItemSpan \<Rightarrow>
                    (case par s3 activeItemSpan of
                       None \<Rightarrow> Done s3
                     | Some p \<Rightarrow> Done (insert_before p onThisPage (next_sibling s3 activeItemSpan) s3)))"

definition build_headers :: "toc \<Rightarrow> toc outcome" where
  \<comment> \<open>the listener of \<open>DOMContentLoaded\<close>\<close>
  "build_headers s =
     (case in_sidebar_active s of
        None \<Rightarrow> Done s
      | Some activeSection \<Rightarrow>
          (case query_first s html_root (\<lambda>r. tag s r = ''MAIN'') of
             None \<Rightarrow> Throws TypeError s
           | Some main \<Rightarrow>
               let hs = find_headers s main;
                   s1 = s\<lparr>headers := Some hs\<rparr>
               in if hs = [] then Done s1
                  else
                    let firstLevel = header_level s1 (hs ! 0)
                    in case add_headers hs (fold start_list [1..<firstLevel] ([], s1)) of
                         Throws e (stack, t) \<Rightarrow> Throws e t
                       | Done st \<Rightarrow> place_section activeSection st))"

definition toc_loaded :: "layout \<Rightarrow> numbers \<Rightarrow> toc \<Rightarrow> toc" where
  \<comment> \<open>both listeners of \<open>DOMContentLoaded\<close>, in the order they are registered\<close>
  "toc_loaded lay nm s = reloadCurrentHeader lay nm (final (build_headers s))"

section \<open>Reading the list back\<close>

fun outline :: "nat \<Rightarrow> nat \<Rightarrow> 'a dom_scheme \<Rightarrow> ref \<Rightarrow> (nat \<times> string option) list" where
  \<comment> \<open>the header links below a node in document order, each with one more than the number of lists
    around it\<close>
  "outline 0 k d r = []"
| "outline (Suc n) k d r =
     (if has_class d r ''header-in-summary'' then [(k, attrs d r ''href'')] else [])
     @ concat (map (outline n (if tag d r = ''OL'' then k + 1 else k) d) (kids d r))"

primrec tree_outline :: "tree \<Rightarrow> 'a dom_scheme \<Rightarrow> nat \<Rightarrow> (nat \<times> string option) list" where
  "tree_outline (Tree r ts) d k =
     (if has_class d r ''header-in-summary'' then [(k, attrs d r ''href'')] else [])
     @ concat (map (\<lambda>t. tree_outline t d (if tag d r = ''OL'' then k + 1 else k)) ts)"

definition lists_on :: "'a dom_scheme \<Rightarrow> ref list \<Rightarrow> ref list" where
  "lists_on d rs = filter (\<lambda>r. tag d r = ''OL'') rs"

lemma outline_rep:
  assumes "rep d t" "length (flat t) \<le> n"
  shows "outline n k d (tree_root t) = tree_outline t d k"
  using assms
proof (induction t arbitrary: n k)
  case (Tree r ts)
  then obtain m where n: "n = Suc m" by (cases n) auto
  have "outline m j d (tree_root u) = tree_outline u d j" if "u \<in> set ts" for u j
  proof -
    have "length (flat u) \<le> m" using flat_child_shorter [OF that, of r] Tree.prems(2) n by linarith
    then show ?thesis using Tree that by (simp add: list_all_iff)
  qed
  then have "map (outline m j d) (map tree_root ts) = map (\<lambda>t. tree_outline t d j) ts" for j
    by simp
  moreover have "kids d r = map tree_root ts" using Tree.prems(1) by simp
  ultimately show ?case by (simp only: n outline.simps tree_outline.simps tree_root.simps)
qed

lemma tree_outline_frame:
  assumes "\<And>r. r \<in> set (flat t) \<Longrightarrow> classes d' r = classes d r \<and> attrs d' r = attrs d r \<and> tag d' r = tag d r"
  shows "tree_outline t d' k = tree_outline t d k"
  using assms
proof (induction t arbitrary: k)
  case (Tree r ts)
  then have "map (\<lambda>t. tree_outline t d' j) ts = map (\<lambda>t. tree_outline t d j) ts" for j
    by (intro map_cong) auto
  moreover have "classes d' r = classes d r" "attrs d' r = attrs d r" "tag d' r = tag d r"
    using Tree.prems by auto
  ultimately show ?case by (simp only: tree_outline.simps has_class_def)
qed

lemma tree_outline_graft:
  assumes "spine t = ys @ x # zs" "x \<notin> set ys"
  shows "tree_outline (graft x u t) d k
    = tree_outline t d k @ tree_outline u d (k + length (lists_on d (ys @ [x])))"
  using assms
proof (induction t arbitrary: ys k)
  case (Tree r ts)
  show ?case
  proof (cases "r = x")
    case True
    then have "ys = []" using Tree.prems by (cases ys) auto
    then show ?thesis using True by (simp add: lists_on_def)
  next
    case False
    with Tree.prems(1) obtain ys' where ys: "ys = r # ys'" "ts \<noteq> []" "spine (last ts) = ys' @ x # zs"
      by (rule spine_cases)
    obtain bs l where ts: "ts = bs @ [l]" using ys(2) by (cases ts rule: rev_cases) auto
    have "tree_outline (graft x u l) d j = tree_outline l d j @ tree_outline u d (j + length (lists_on d (ys' @ [x])))"
      for j
      by (rule Tree.IH) (use ys Tree.prems(2) in \<open>auto simp: ts\<close>)
    then show ?thesis using False by (simp add: ts ys(1) lists_on_def)
  qed
qed

section \<open>What is new and what stays\<close>

definition fresh_between :: "nat \<Rightarrow> nat \<Rightarrow> ref set" where
  "fresh_between m n = Node ` {m..<n}"

definition grows :: "toc \<Rightarrow> toc \<Rightarrow> bool" where
  \<comment> \<open>new elements, all in the document; the old ones as they were, with their places\<close>
  "grows s s' \<longleftrightarrow>
     fresh s \<le> fresh s' \<and> set (nodes s') = set (nodes s) \<union> fresh_between (fresh s) (fresh s')
     \<and> (\<forall>r. known s r \<longrightarrow> kids s' r = kids s r \<and> par s' r = par s r \<and> tag s' r = tag s r
          \<and> ident s' r = ident s r \<and> attrs s' r = attrs s r \<and> classes s' r = classes s r)
     \<and> headers s' = headers s"

lemma fresh_between_split:
  "k \<le> m \<Longrightarrow> m \<le> n \<Longrightarrow> fresh_between k n = fresh_between k m \<union> fresh_between m n"
  unfolding fresh_between_def image_Un [symmetric] by (metis ivl_disj_un_two(3))

lemma grows_refl [simp]: "grows s s"
  by (simp add: grows_def fresh_between_def)

lemma grows_trans:
  assumes "grows s t" "grows t u"
  shows "grows s u"
proof -
  have le: "fresh s \<le> fresh t" "fresh t \<le> fresh u" using assms by (simp_all add: grows_def)
  have "known t r" if "known s r" for r using that le(1) by (auto simp: known_def)
  then show ?thesis
    using assms le fresh_between_split [OF le] by (auto simp: grows_def)
qed

lemma grown_not_old: "r \<in> fresh_between (fresh s) n \<Longrightarrow> \<not> known s r"
  by (auto simp: fresh_between_def known_def)

section \<open>What each step writes\<close>

lemma make_link_writes:
  assumes "make_link h spn s = (a, s')" "spn \<noteq> Node (fresh s)" "h \<noteq> Node (fresh s)"
  shows "a = Node (fresh s)" "fresh s' = Suc (fresh s)" "nodes s' = nodes s @ [a]"
    "kids s' = (kids s)(a := [], spn := kids s spn @ [a])" "par s' = (par s)(a := Some spn)"
    "tag s' = (tag s)(a := ''A'')" "ident s' = (ident s)(a := '''')"
    "attrs s' = (attrs s)(a := [''href'' \<mapsto> ''#'' @ ident s h])"
    "classes s' = (classes s)(a := [''header-in-summary''])" "headers s' = headers s"
  using assms
  by (auto simp: make_link_def create_element_def append_child_def remove_node_def set_attr_def
      add_class_def filterHeader_def Let_def fun_eq_iff)

lemma classes_add_class: "classes (add_class r c d) = (classes d)(r := (if c \<in> set (classes d r) then classes d r else classes d r @ [c]))"
  by (simp add: add_class_def)

lemma add_toggle_writes:
  assumes "spn \<noteq> Node (fresh s)" "spn \<noteq> Node (Suc (fresh s))"
  defines "g \<equiv> Node (fresh s)" and "e \<equiv> Node (Suc (fresh s))"
  shows "fresh (add_toggle li spn s) = Suc (Suc (fresh s))"
    "nodes (add_toggle li spn s) = nodes s @ [g, e]"
    "kids (add_toggle li spn s) = (kids s)(g := [e], e := [], spn := kids s spn @ [g])"
    "par (add_toggle li spn s) = (par s)(e := Some g, g := Some spn)"
    "tag (add_toggle li spn s) = (tag s)(g := ''A'', e := ''DIV'')"
    "ident (add_toggle li spn s) = (ident s)(g := '''', e := '''')"
    "attrs (add_toggle li spn s) = (attrs s)(g := Map.empty, e := Map.empty)"
    "classes (add_toggle li spn s) = (classes s)(g := [''chapter-fold-toggle'', ''header-toggle''], e := [])"
    "headers (add_toggle li spn s) = headers s"
  using assms(1,2)
  by (simp_all add: add_toggle_def Let_def split_beta create_writes append_writes classes_add_class g_def e_def
      fun_upd_twist)

text \<open>One item: a subtree of new elements that reads as one link.\<close>

definition reads_as :: "toc \<Rightarrow> toc \<Rightarrow> tree \<Rightarrow> string \<Rightarrow> bool" where
  "reads_as s s' u link \<longleftrightarrow>
     grows s s' \<and> tree_root u = Node (fresh s) \<and> rep s' u \<and> distinct (flat u)
     \<and> set (flat u) = fresh_between (fresh s) (fresh s') \<and> par s' (tree_root u) = None
     \<and> tag s' (tree_root u) = ''LI'' \<and> (\<forall>k. tree_outline u s' k = [(k, Some link)])"

lemma growsI:
  assumes "fresh s' = fresh s + m" "nodes s' = nodes s @ map Node [fresh s..<fresh s + m]"
    and "\<And>r. known s r \<Longrightarrow> kids s' r = kids s r \<and> par s' r = par s r \<and> tag s' r = tag s r
          \<and> ident s' r = ident s r \<and> attrs s' r = attrs s r \<and> classes s' r = classes s r"
    and "headers s' = headers s"
  shows "grows s s'"
  using assms by (auto simp: grows_def fresh_between_def)

lemma known_Node [simp]: "known s (Node n) \<longleftrightarrow> n < fresh s"
  by (simp add: known_def)

lemma known_not_new: "known s r \<Longrightarrow> fresh s \<le> n \<Longrightarrow> r \<noteq> Node n"
  by (auto simp: known_def)

lemma make_item_reads:
  assumes item: "make_item h nh s = (li, s')" and h: "known s h"
  obtains u where "reads_as s s' u (''#'' @ ident s h)" "tree_root u = li"
proof -
  let ?f = "fresh s"
  let ?li = "Node ?f" and ?sp = "Node (Suc ?f)" and ?a = "Node (Suc (Suc ?f))"
  let ?s2 = "add_class ?li ''expanded'' (add_class ?li ''header-item'' (snd (create_element ''LI'' s)))"
  define s5 where "s5 = add_class ?sp ''chapter-link-wrapper'' (snd (create_element ''SPAN''
      (if header_level s h < foldLevel then add_class ?li ''expanded'' ?s2 else ?s2)))"
  have s5: "fresh s5 = Suc (Suc ?f)" "kids s5 = (kids s)(?li := [], ?sp := [])"
    "par s5 = (par s)(?li := None, ?sp := None)" "tag s5 = (tag s)(?li := ''LI'', ?sp := ''SPAN'')"
    "ident s5 = (ident s)(?li := '''', ?sp := '''')" "attrs s5 = (attrs s)(?li := Map.empty, ?sp := Map.empty)"
    "classes s5 = (classes s)(?li := [''header-item'', ''expanded''], ?sp := [''chapter-link-wrapper''])"
    "nodes s5 = nodes s @ [?li, ?sp]" "headers s5 = headers s"
    by (auto simp: s5_def create_writes classes_add_class)
  have hn: "h \<noteq> Node n" if "?f \<le> n" for n using h that by (rule known_not_new)
  obtain a s6 where link: "make_link h ?sp s5 = (a, s6)" by fastforce
  have "?sp \<noteq> Node (fresh s5)" "h \<noteq> Node (fresh s5)" using hn by (simp_all add: s5(1))
  note w6 = make_link_writes [OF link this, unfolded s5]
  have hid: "ident s5 h = ident s h" using hn by (simp add: s5)
  define s7 where "s7 = (case nh of None \<Rightarrow> s6
      | Some n \<Rightarrow> if header_level s h < header_level s6 n \<and> foldLevel \<le> header_level s h
                 then add_toggle ?li ?sp s6 else s6)"
  have res: "make_item h nh s = (?li, append_child ?li ?sp s7)"
    using link by (cases nh; cases "header_level s h < foldLevel") (simp_all add: make_item_def Let_def split_beta s5_def s7_def create_writes)
  then have s': "s' = append_child ?li ?sp s7" and li: "li = ?li" using item by simp_all
  show thesis
  proof (cases "s7 = s6")
    case True
    have "par s7 ?sp = None" by (simp add: True w6)
    note w7 = append_writes [OF this, of ?li, unfolded True w6]
    let ?u = "Tree ?li [Tree ?sp [Tree ?a []]]"
    have "grows s s'"
      by (rule growsI [where m = 3])
        (auto simp: s' w7 True s5 w6(10) numeral_3_eq_3 upt_rec)
    moreover have "set (flat ?u) = fresh_between ?f (fresh s')"
      by (auto simp: s' w7 True fresh_between_def less_Suc_eq)
    ultimately have "reads_as s s' ?u (''#'' @ ident s h)"
      using hn by (simp add: reads_as_def s' w7 True has_class_def)
    then show thesis by (rule that) (simp add: li)
  next
    case False
    then have s7: "s7 = add_toggle ?li ?sp s6" by (auto simp: s7_def split: option.splits if_splits)
    have "?sp \<noteq> Node (fresh s6)" "?sp \<noteq> Node (Suc (fresh s6))" by (simp_all add: w6)
    note wt = add_toggle_writes [OF this, of ?li, folded s7, unfolded w6]
    have "par s7 ?sp = None" by (simp add: wt)
    note w7 = append_writes [OF this, of ?li, unfolded wt]
    let ?g = "Node (Suc (Suc (Suc ?f)))" and ?e = "Node (Suc (Suc (Suc (Suc ?f))))"
    let ?u = "Tree ?li [Tree ?sp [Tree ?a [], Tree ?g [Tree ?e []]]]"
    have "grows s s'"
      by (rule growsI [where m = 5])
        (auto simp: s' w7 s5 wt(9) eval_nat_numeral upt_rec)
    moreover have "set (flat ?u) = fresh_between ?f (fresh s')"
      by (auto simp: s' w7 fresh_between_def less_Suc_eq)
    ultimately have "reads_as s s' ?u (''#'' @ ident s h)"
      using hn by (simp add: reads_as_def s' w7 has_class_def)
    then show thesis by (rule that) (simp add: li)
  qed
qed

section \<open>The list grows on its right edge\<close>

definition builds :: "toc \<Rightarrow> (nat \<times> string option) list \<Rightarrow> tree \<Rightarrow> toc \<Rightarrow> bool" where
  \<comment> \<open>since \<open>s0\<close> the script has made the tree \<open>t\<close>, which reads as \<open>ls\<close>, and nothing else\<close>
  "builds s0 ls t s \<longleftrightarrow>
     grows s0 s \<and> rep s t \<and> distinct (flat t)
     \<and> set (flat t) = fresh_between (fresh s0) (fresh s) \<and> par s (tree_root t) = None
     \<and> tree_outline t s 1 = ls"

lemma between_known: "r \<in> fresh_between m (fresh s) \<Longrightarrow> known s r"
  by (auto simp: fresh_between_def)

lemma between_new: "r \<in> fresh_between (fresh s) n \<Longrightarrow> \<not> known s r"
  by (auto simp: fresh_between_def)

lemma grows_fields:
  assumes "grows s s'" "known s r"
  shows "kids s' r = kids s r" "par s' r = par s r" "tag s' r = tag s r" "ident s' r = ident s r"
    "attrs s' r = attrs s r" "classes s' r = classes s r"
  using assms by (simp_all add: grows_def)

lemma lists_on_grows:
  assumes "grows s s'" "\<forall>r \<in> set rs. known s r"
  shows "lists_on s' rs = lists_on s rs"
  unfolding lists_on_def by (rule filter_cong [OF refl]) (use assms in \<open>simp add: grows_def\<close>)

lemma builds_graft:
  assumes b: "builds s0 ls t s" and g: "grows s s1" and u: "rep s1 u" "distinct (flat u)"
    "set (flat u) = fresh_between (fresh s) (fresh s1)" "par s1 (tree_root u) = None"
    and x: "spine t = ys @ x # zs" and s2: "s2 = append_child x (tree_root u) s1"
  shows "builds s0 (ls @ tree_outline u s1 (Suc (length (lists_on s (ys @ [x]))))) (graft x u t) s2"
proof -
  have t: "grows s0 s" "rep s t" "distinct (flat t)" "set (flat t) = fresh_between (fresh s0) (fresh s)"
    "par s (tree_root t) = None" "tree_outline t s 1 = ls"
    using b by (simp_all add: builds_def)
  have kn: "known s r" if "r \<in> set (flat t)" for r using that t(4) between_known by blast
  note w = append_writes [OF u(4), of x]
  have le: "fresh s0 \<le> fresh s" "fresh s \<le> fresh s1" using t(1) g by (simp_all add: grows_def)
  have xin: "x \<notin> set ys" "x \<in> set (flat t)" using spine_split_first [OF t(3) x] by simp_all
  have uin: "\<not> known s (tree_root u)" using tree_root_in_flat [of u] u(3) between_new by blast
  have rep1: "rep s1 t" by (rule rep_frame [OF t(2)]) (use kn grows_fields [OF g] in simp)
  have disj: "set (flat u) \<inter> set (flat t) = {}" using kn u(3) between_new by blast
  have "rep s2 (graft x u t)"
    by (rule rep_graft [OF rep1 u(1) t(3) disj x]) (simp add: s2 w)
  moreover have fl: "flat (graft x u t) = flat t @ flat u" by (rule flat_graft [OF x])
  moreover have "set (flat t @ flat u) = fresh_between (fresh s0) (fresh s2)"
    using fresh_between_split [OF le] t(4) u(3) by (simp add: s2 w)
  moreover have "grows s0 s1" by (rule grows_trans [OF t(1) g])
  have x0: "\<not> known s0 x" using xin(2) t(4) between_new by blast
  have u0: "\<not> known s0 (tree_root u)" using uin le(1) by (auto simp: known_def)
  have hd2: "headers s2 = headers s1" by (simp add: s2)
  have "grows s0 s2"
    using \<open>grows s0 s1\<close> x0 u0 hd2 by (auto simp: grows_def s2 w)
  moreover have "par s2 (tree_root t) = None"
  proof -
    have "known s (tree_root t)" using kn tree_root_in_flat by blast
    then show ?thesis using t(5) grows_fields(2) [OF g] uin by (auto simp: s2 w)
  qed
  moreover have "tree_outline (graft x u t) s2 1
      = ls @ tree_outline u s1 (Suc (length (lists_on s (ys @ [x]))))"
  proof -
    have "tree_outline t s2 1 = ls"
      using tree_outline_frame [of t s2 s 1] kn grows_fields [OF g] t(6) by (simp add: s2 w)
    moreover have "tree_outline u s2 k = tree_outline u s1 k" for k
      by (rule tree_outline_frame) (simp add: s2 w)
    moreover have "lists_on s2 (ys @ [x]) = lists_on s (ys @ [x])"
    proof -
      have "set (ys @ [x]) \<subseteq> set (flat t)" using spine_subset_flat [of t] x by auto
      then have "lists_on s1 (ys @ [x]) = lists_on s (ys @ [x])"
        by (intro lists_on_grows [OF g]) (use kn in blast)
      then show ?thesis by (simp add: lists_on_def s2 w)
    qed
    ultimately show ?thesis using tree_outline_graft [OF x xin(1), of u s2 1] by simp
  qed
  ultimately show ?thesis
    using t(3) u(2) disj by (auto simp: builds_def)
qed

definition open_at :: "tree \<Rightarrow> toc \<Rightarrow> open_lists \<Rightarrow> bool" where
  \<comment> \<open>the stack holds the lists around the right end of the tree, one per level from 2 on\<close>
  "open_at t s stack \<longleftrightarrow>
     stack \<noteq> [] \<and> snd (last stack) = tree_root t \<and> map fst stack = rev [2..<length stack + 2]
     \<and> (\<exists>ys zs. spine t = ys @ snd (hd stack) # zs
          \<and> lists_on s (ys @ [snd (hd stack)]) = rev (map snd stack))"

lemma open_at_level: "open_at t s ((l, x) # stack) \<Longrightarrow> l = length stack + 2"
  by (auto simp: open_at_def)

lemma lists_on_graft:
  assumes "builds s0 ls t s" "grows s s1" "par s1 r = None" "set rs \<subseteq> set (flat t)"
  shows "lists_on (append_child x r s1) rs = lists_on s rs"
proof -
  have "\<forall>r \<in> set rs. known s r" using assms(1,4) between_known by (fastforce simp: builds_def)
  then have "lists_on s1 rs = lists_on s rs" by (rule lists_on_grows [OF assms(2)])
  then show ?thesis by (simp add: lists_on_def append_writes [OF assms(3)])
qed

text \<open>A new list becomes the last child of a node of the spine and is opened.\<close>

lemma create_list:
  assumes "create_element ''OL'' s = (ol, s1)"
  defines "s2 \<equiv> add_class ol ''section'' s1"
  shows "ol = Node (fresh s)" "grows s s2" "rep s2 (Tree ol [])" "par s2 ol = None" "tag s2 ol = ''OL''"
    "tree_outline (Tree ol []) s2 k = []" "set (flat (Tree ol [])) = fresh_between (fresh s) (fresh s2)"
    "fresh s2 = Suc (fresh s)" "known s r \<Longrightarrow> kids s2 r = kids s r" "kids s2 ol = []"
proof -
  have s1: "s1 = snd (create_element ''OL'' s)" and ol: "ol = Node (fresh s)"
    using assms(1) create_fst [of "''OL''" s] by simp_all
  show "ol = Node (fresh s)" by (fact ol)
  show "grows s s2"
    by (rule growsI [where m = 1]) (auto simp: s2_def s1 ol create_writes classes_add_class)
  show "rep s2 (Tree ol [])" "par s2 ol = None" "tag s2 ol = ''OL''" "fresh s2 = Suc (fresh s)"
    "tree_outline (Tree ol []) s2 k = []" "kids s2 ol = []"
    by (simp_all add: s2_def s1 ol create_writes) (simp add: has_class_def create_writes)
  show "set (flat (Tree ol [])) = fresh_between (fresh s) (fresh s2)"
    by (simp add: s2_def s1 ol create_writes fresh_between_def)
  show "known s r \<Longrightarrow> kids s2 r = kids s r" by (auto simp: s2_def s1 create_writes)
qed

lemma open_list:
  assumes b: "builds s0 ls t s" and o: "open_at t s stack"
    and new: "create_element ''OL'' s = (ol, s1)"
    and x: "spine t = ys @ x # zs" "lists_on s (ys @ [x]) = rev (map snd stack)"
    and s3: "s3 = append_child x ol (add_class ol ''section'' s1)"
  shows "builds s0 ls (graft x (Tree ol []) t) s3"
    and "open_at (graft x (Tree ol []) t) s3 ((length stack + 2, ol) # stack)"
    and "kids s3 ol = []"
proof -
  let ?s2 = "add_class ol ''section'' s1"
  note c = create_list [OF new]
  have dt: "distinct (flat t)" using b by (simp add: builds_def)
  note first = spine_split_first [OF dt x(1)]
  have par: "par ?s2 (tree_root (Tree ol [])) = None" using c(4) by simp
  have "builds s0 (ls @ tree_outline (Tree ol []) ?s2 (Suc (length (lists_on s (ys @ [x])))))
      (graft x (Tree ol []) t) (append_child x (tree_root (Tree ol [])) ?s2)"
    by (rule builds_graft [OF b c(2,3) _ c(7) par x(1) refl]) simp
  then show "builds s0 ls (graft x (Tree ol []) t) s3" by (simp only: c(6) s3 tree_root.simps append_Nil2)
  have sub: "set (ys @ [x]) \<subseteq> set (flat t)" using spine_subset_flat [of t] x(1) by auto
  have "lists_on s3 (ys @ [x]) = rev (map snd stack)"
    unfolding s3 using lists_on_graft [OF b c(2,4) sub] x(2) by simp
  moreover have "lists_on s3 (rs @ [ol]) = lists_on s3 rs @ [ol]" for rs
    using c(4,5) by (simp add: s3 append_writes lists_on_def)
  moreover have "spine (graft x (Tree ol []) t) = (ys @ [x]) @ ol # []"
    using spine_graft [OF x(1)] first by simp
  ultimately have "\<exists>ys' zs'. spine (graft x (Tree ol []) t) = ys' @ ol # zs'
      \<and> lists_on s3 (ys' @ [ol]) = rev (map snd stack) @ [ol]" by metis
  then show "open_at (graft x (Tree ol []) t) s3 ((length stack + 2, ol) # stack)"
    using o by (simp add: open_at_def)
  have "known s x" using first b between_known by (fastforce simp: builds_def)
  then have "x \<noteq> ol" using c(1) by auto
  then show "kids s3 ol = []" using c(4,10) by (simp add: s3 append_writes)
qed

definition ready :: "toc \<Rightarrow> open_lists \<Rightarrow> bool" where
  \<comment> \<open>the innermost open list is empty or ends in an item\<close>
  "ready s stack \<longleftrightarrow>
     kids s (snd (hd stack)) = [] \<or> tag s (last (kids s (snd (hd stack)))) \<noteq> ''OL''"

lemma open_at_spine:
  assumes "open_at t s stack"
  obtains l x st ys zs where "stack = (l, x) # st" "spine t = ys @ x # zs"
    "lists_on s (ys @ [x]) = rev (map snd stack)"
  using assms by (cases stack) (auto simp: open_at_def)

lemma open_at_top_known:
  assumes "builds s0 ls t s" "open_at t s ((l, x) # st)"
  shows "known s x" "x \<in> set (flat t)"
proof -
  obtain ys zs where "spine t = ys @ x # zs" using assms(2) by (auto simp: open_at_def)
  then show "x \<in> set (flat t)" using spine_subset_flat [of t] by auto
  then show "known s x" using assms(1) between_known by (fastforce simp: builds_def)
qed

lemma last_child_last: "last_child d r = (if kids d r = [] then None else Some (last (kids d r)))"
  by (cases "kids d r" rule: rev_cases) auto

lemma nest_list_step:
  assumes b: "builds s0 ls t s" and o: "open_at t s stack" and r: "ready s stack"
  shows "\<exists>t' stack' s'. nest_list (length stack + 2) (stack, s) = Done (stack', s')
    \<and> builds s0 ls t' s' \<and> open_at t' s' stack' \<and> ready s' stack' \<and> length stack' = Suc (length stack)"
proof -
  obtain l x st ys zs where st: "stack = (l, x) # st" and sp: "spine t = ys @ x # zs"
    and li: "lists_on s (ys @ [x]) = rev (map snd stack)"
    using o by (rule open_at_spine)
  obtain ol s1 where new: "create_element ''OL'' s = (ol, s1)" by fastforce
  let ?s2 = "add_class ol ''section'' s1"
  have "known s x" using open_at_top_known [OF b] o st by blast
  then have "kids ?s2 x = kids s x" by (rule create_list(9) [OF new])
  then have kids: "kids s1 x = kids s x" by simp
  have t: "rep s t" "distinct (flat t)" using b by (simp_all add: builds_def)
  let ?y = "if kids s x = [] then x else last (kids s x)"
  have nest: "nest_list (length stack + 2) (stack, s)
      = Done ((length stack + 2, ol) # stack, append_child ?y ol ?s2)"
    by (simp add: nest_list_def st new last_child_last kids Let_def del: last_child.simps)
  have "\<exists>ys' zs'. spine t = ys' @ ?y # zs' \<and> lists_on s (ys' @ [?y]) = rev (map snd stack)"
  proof (cases "kids s x = []")
    case True
    then show ?thesis using sp li by auto
  next
    case False
    then obtain zs' where "zs = last (kids s x) # zs'" using spine_next [OF t(1) sp t(2)] by auto
    moreover have "lists_on s ((ys @ [x]) @ [last (kids s x)]) = lists_on s (ys @ [x])"
      using r False by (simp add: ready_def st lists_on_def)
    ultimately show ?thesis using False sp li by (intro exI [of _ "ys @ [x]"] exI [of _ zs']) simp
  qed
  then obtain ys' zs' where y: "spine t = ys' @ ?y # zs'" "lists_on s (ys' @ [?y]) = rev (map snd stack)"
    by blast
  note ol = open_list [OF b o new y refl]
  have "ready (append_child ?y ol ?s2) ((length stack + 2, ol) # stack)"
    using ol(3) by (simp add: ready_def)
  then show ?thesis using nest ol(1,2) by auto
qed

lemma nest_lists_step:
  assumes "builds s0 ls t s" "open_at t s stack" "ready s stack" "length stack + 1 \<le> level"
  shows "\<exists>t' stack' s'. nest_lists [length stack + 2..<level + 1] (stack, s) = Done (stack', s')
    \<and> builds s0 ls t' s' \<and> open_at t' s' stack' \<and> length stack' + 1 = level"
  using assms
proof (induction "level - (length stack + 1)" arbitrary: t stack s)
  case 0
  then show ?case by auto
next
  case (Suc n)
  then have up: "[length stack + 2..<level + 1] = (length stack + 2) # [Suc (length stack) + 2..<level + 1]"
    by (simp add: upt_rec)
  obtain t' stack' s' where one: "nest_list (length stack + 2) (stack, s) = Done (stack', s')"
    "builds s0 ls t' s'" "open_at t' s' stack'" "ready s' stack'" "length stack' = Suc (length stack)"
    using nest_list_step [OF Suc.prems(1-3)] by blast
  have "n = level - (length stack' + 1)" "length stack' + 1 \<le> level"
    using Suc.hyps(2) Suc.prems(4) one(5) by linarith+
  from Suc.hyps(1) [OF this(1) one(2-4) this(2)] show ?case
    unfolding up nest_lists.simps one(1) and_then.simps one(5) .
qed

lemma open_at_pop:
  assumes "open_at t s ((l, x) # (l', x') # st)"
  shows "open_at t s ((l', x') # st)"
proof -
  obtain ys zs where sp: "spine t = ys @ x # zs" and li: "lists_on s (ys @ [x]) = rev (map snd st) @ [x', x]"
    using assms by (auto simp: open_at_def)
  have "tag s x = ''OL''"
  proof -
    have "x \<in> set (lists_on s (ys @ [x]))" by (simp add: li)
    then show ?thesis by (auto simp: lists_on_def split: if_splits)
  qed
  then have "filter (\<lambda>r. tag s r = ''OL'') ys = rev (map snd st) @ [x']"
    using li by (simp add: lists_on_def)
  then obtain us vs where ys: "ys = us @ x' # vs" "filter (\<lambda>r. tag s r = ''OL'') us = rev (map snd st)"
    "tag s x' = ''OL''"
    using filter_split [of "\<lambda>r. tag s r = ''OL''" ys "rev (map snd st)" x' "[]"] by auto
  then have "\<exists>ys zs. spine t = ys @ x' # zs \<and> lists_on s (ys @ [x']) = rev (map snd st) @ [x']"
    using sp by (intro exI [of _ us] exI [of _ "vs @ x # zs"]) (simp add: lists_on_def)
  then show ?thesis using assms by (cases st) (simp_all add: open_at_def)
qed

lemma pop_lists_step:
  assumes "open_at t s stack" "2 \<le> level" "level \<le> length stack + 1"
  shows "open_at t s (pop_lists level stack) \<and> length (pop_lists level stack) + 1 = level"
  using assms
proof (induction level stack rule: pop_lists.induct)
  case (1 level l x l' x' stack)
  have l: "l = length stack + 3" using open_at_level [OF 1(2)] by simp
  show ?case
  proof (cases "level < l")
    case True
    have "open_at t s ((l', x') # stack)" by (rule open_at_pop [OF 1(2)])
    then show ?thesis using 1 True l by simp
  next
    case False
    then show ?thesis using 1 l by simp
  qed
qed (simp add: open_at_def, simp)

section \<open>One header\<close>

lemma place_item:
  assumes b: "builds s0 ls t s" and o: "open_at t s ((l, x) # st)" and h: "known s h"
    and item: "make_item h nh s = (li, s2)"
  defines "s3 \<equiv> append_child x li s2"
  shows "\<exists>t'. builds s0 (ls @ [(l, Some (''#'' @ ident s h))]) t' s3
    \<and> open_at t' s3 ((l, x) # st) \<and> ready s3 ((l, x) # st)"
proof -
  obtain u where u: "reads_as s s2 u (''#'' @ ident s h)" and li: "tree_root u = li"
    using item h by (rule make_item_reads)
  obtain ys zs where sp: "spine t = ys @ x # zs" and ol: "lists_on s (ys @ [x]) = rev (map snd ((l, x) # st))"
    using o by (auto simp: open_at_def)
  have g: "grows s s2" "rep s2 u" "distinct (flat u)" "set (flat u) = fresh_between (fresh s) (fresh s2)"
    "par s2 (tree_root u) = None"
    using u unfolding reads_as_def by blast+
  have "tree_outline u s2 (Suc (length (lists_on s (ys @ [x])))) = [(l, Some (''#'' @ ident s h))]"
    using u open_at_level [OF o] by (simp add: ol reads_as_def)
  then have builds: "builds s0 (ls @ [(l, Some (''#'' @ ident s h))]) (graft x u t) s3"
    using builds_graft [OF b g sp refl] by (simp add: s3_def li)
  have dt: "distinct (flat t)" using b by (simp add: builds_def)
  have sub: "set (ys @ [x]) \<subseteq> set (flat t)" using spine_subset_flat [of t] sp by auto
  have "lists_on s3 (ys @ [x]) = rev (map snd ((l, x) # st))"
    using lists_on_graft [OF b g(1) _ sub, of li x] g(5) ol by (simp add: s3_def li)
  moreover have "spine (graft x u t) = ys @ x # spine u"
    using spine_graft [OF sp] spine_split_first [OF dt sp] by simp
  ultimately have "open_at (graft x u t) s3 ((l, x) # st)"
    using o by (auto simp: open_at_def)
  moreover have "ready s3 ((l, x) # st)"
  proof -
    have "tag s2 li = ''LI''" "par s2 li = None" using u li by (auto simp: reads_as_def)
    then show ?thesis by (simp add: ready_def s3_def append_writes)
  qed
  ultimately show ?thesis using builds by blast
qed

lemma add_header_step:
  assumes b: "builds s0 ls t s" and o: "open_at t s stack" and h: "known s0 h"
    and level: "header_level s0 h = level" "2 \<le> level" and r: "ready s stack \<or> level \<le> length stack + 1"
  shows "\<exists>t' stack' s'. add_header h nh (stack, s) = Done (stack', s')
    \<and> builds s0 (ls @ [(level, Some (''#'' @ ident s0 h))]) t' s' \<and> open_at t' s' stack' \<and> ready s' stack'"
proof -
  obtain l x st where st: "stack = (l, x) # st" using o by (rule open_at_spine)
  have l: "l = length stack + 1" using open_at_level o st by simp
  have g: "grows s0 s" using b by (simp add: builds_def)
  have lev: "header_level s h = level" using grows_fields(3) [OF g h] level(1) by (simp add: header_level_def)
  let ?adjust = "if l < level then nest_lists [l + 1..<level + 1] (stack, s)
      else if level < l then Done (pop_lists level stack, s) else Done (stack, s)"
  have "\<exists>t1 stack1 s1. ?adjust = Done (stack1, s1)
      \<and> builds s0 ls t1 s1 \<and> open_at t1 s1 stack1 \<and> length stack1 + 1 = level"
  proof (cases l level rule: linorder_cases)
    case less
    then have "ready s stack" "length stack + 1 \<le> level" using r l by auto
    from nest_lists_step [OF b o this] show ?thesis using less l by simp
  next
    case equal
    then show ?thesis using b o l by auto
  next
    case greater
    have "open_at t s (pop_lists level stack) \<and> length (pop_lists level stack) + 1 = level"
      by (rule pop_lists_step [OF o level(2)]) (use greater l in simp)
    then show ?thesis using greater b by auto
  qed
  then obtain t1 stack1 s1 where adj: "?adjust = Done (stack1, s1)" and b1: "builds s0 ls t1 s1"
    and o1: "open_at t1 s1 stack1" and len: "length stack1 + 1 = level"
    by blast
  obtain l1 x1 st1 where st1: "stack1 = (l1, x1) # st1" using o1 by (rule open_at_spine)
  have l1: "l1 = level" using open_at_level o1 st1 len by simp
  obtain li s2 where item: "make_item h nh s1 = (li, s2)" by fastforce
  have g1: "grows s0 s1" using b1 by (simp add: builds_def)
  then have "known s1 h" "ident s1 h = ident s0 h"
    using h grows_fields(4) [OF g1 h] by (auto simp: known_def grows_def)
  with place_item [OF b1 _ _ item, of level x1 st1] o1 st1 l1
  obtain t' where t': "builds s0 (ls @ [(level, Some (''#'' @ ident s0 h))]) t' (append_child x1 li s2)"
    "open_at t' (append_child x1 li s2) stack1" "ready (append_child x1 li s2) stack1"
    by auto
  have "add_header h nh (stack, s) = Done (stack1, append_child x1 li s2)"
  proof -
    have "add_header h nh (stack, s) = and_then ?adjust (\<lambda>(stack1, s1).
        let (li, s2) = make_item h nh s1
        in case stack1 of [] \<Rightarrow> Throws TypeError (stack1, s2) | (l, ol) # _ \<Rightarrow> Done (stack1, append_child ol li s2))"
      by (simp add: add_header_def st lev Let_def)
    then show ?thesis unfolding adj by (simp add: item st1)
  qed
  then show ?thesis using t' by blast
qed

lemma add_headers_step:
  assumes "builds s0 ls t s" "open_at t s stack"
    and "\<forall>h \<in> set hs. known s0 h \<and> 2 \<le> header_level s0 h"
    and "ready s stack \<or> hs \<noteq> [] \<and> header_level s0 (hd hs) \<le> length stack + 1"
  shows "\<exists>t' stack' s'. add_headers hs (stack, s) = Done (stack', s')
    \<and> builds s0 (ls @ map (\<lambda>h. (header_level s0 h, Some (''#'' @ ident s0 h))) hs) t' s' \<and> open_at t' s' stack'"
  using assms
proof (induction hs arbitrary: ls t s stack)
  case Nil
  then show ?case by auto
next
  case (Cons h hs)
  let ?nh = "case hs of [] \<Rightarrow> None | nh # _ \<Rightarrow> Some nh"
  let ?ls = "ls @ [(header_level s0 h, Some (''#'' @ ident s0 h))]"
  have hk: "known s0 h" "2 \<le> header_level s0 h" using Cons.prems(3) by simp_all
  have r: "ready s stack \<or> header_level s0 h \<le> length stack + 1" using Cons.prems(4) by auto
  obtain t1 stack1 s1 where one: "add_header h ?nh (stack, s) = Done (stack1, s1)"
    "builds s0 ?ls t1 s1" "open_at t1 s1 stack1" "ready s1 stack1"
    using add_header_step [OF Cons.prems(1,2) hk(1) refl hk(2) r, of ?nh] by blast
  have "\<exists>t' stack' s'. add_headers hs (stack1, s1) = Done (stack', s')
    \<and> builds s0 (?ls @ map (\<lambda>h. (header_level s0 h, Some (''#'' @ ident s0 h))) hs) t' s' \<and> open_at t' s' stack'"
    by (rule Cons.IH [OF one(2,3)]) (use Cons.prems(3) one(4) in auto)
  then show ?case unfolding add_headers.simps one(1) and_then.simps by simp
qed

section \<open>The first lists\<close>

lemma start_first:
  "\<exists>t s. start_list 1 ([], s0) = ([(2, Node (fresh s0))], s)
    \<and> builds s0 [] t s \<and> open_at t s [(2, Node (fresh s0))] \<and> kids s (Node (fresh s0)) = []"
proof -
  let ?ol = "Node (fresh s0)"
  obtain s1 where new: "create_element ''OL'' s0 = (?ol, s1)"
    using create_fst [of "''OL''" s0] by (cases "create_element ''OL'' s0") simp
  let ?s2 = "add_class ?ol ''section'' s1"
  note c = create_list [OF new]
  have "start_list 1 ([], s0) = ([(2, ?ol)], ?s2)" by (simp add: start_list_def new numeral_2_eq_2)
  moreover have "builds s0 [] (Tree ?ol []) ?s2"
    unfolding builds_def using c(2-4,7) c(6) [of 1] by simp
  moreover have "open_at (Tree ?ol []) ?s2 [(2, ?ol)]"
    using c(5) by (auto simp: open_at_def lists_on_def intro: exI [of _ "[]"])
  ultimately show ?thesis using c(10) by blast
qed

lemma start_next:
  assumes b: "builds s0 ls t s" and o: "open_at t s stack" and e: "kids s (snd (hd stack)) = []"
  shows "\<exists>t' stack' s'. start_list (length stack + 1) (stack, s) = (stack', s')
    \<and> builds s0 ls t' s' \<and> open_at t' s' stack' \<and> kids s' (snd (hd stack')) = []
    \<and> length stack' = Suc (length stack)"
proof -
  obtain l x st ys zs where st: "stack = (l, x) # st" and sp: "spine t = ys @ x # zs"
    and li: "lists_on s (ys @ [x]) = rev (map snd stack)"
    using o by (rule open_at_spine)
  obtain ol s1 where new: "create_element ''OL'' s = (ol, s1)" by fastforce
  note res = open_list [OF b o new sp li refl]
  have "start_list (length stack + 1) (stack, s)
      = ((length stack + 2, ol) # stack, append_child x ol (add_class ol ''section'' s1))"
    by (simp add: start_list_def st new)
  then show ?thesis using res by auto
qed

lemma start_lists:
  assumes "builds s0 ls t s" "open_at t s stack" "kids s (snd (hd stack)) = []" "length stack + 1 \<le> m"
  shows "\<exists>t' stack' s'. fold start_list [length stack + 1..<m] (stack, s) = (stack', s')
    \<and> builds s0 ls t' s' \<and> open_at t' s' stack' \<and> length stack' + 1 = m"
  using assms
proof (induction "m - (length stack + 1)" arbitrary: t stack s)
  case 0
  then show ?case by auto
next
  case (Suc n)
  then have up: "[length stack + 1..<m] = (length stack + 1) # [Suc (length stack) + 1..<m]"
    by (simp add: upt_rec)
  obtain t' stack' s' where one: "start_list (length stack + 1) (stack, s) = (stack', s')"
    "builds s0 ls t' s'" "open_at t' s' stack'" "kids s' (snd (hd stack')) = []"
    "length stack' = Suc (length stack)"
    using start_next [OF Suc.prems(1-3)] by blast
  have "n = m - (length stack' + 1)" "length stack' + 1 \<le> m"
    using Suc.hyps(2) Suc.prems(4) one(5) by linarith+
  from Suc.hyps(1) [OF this(1) one(2-4) this(2)] show ?case
    unfolding up fold_simps one(1) one(5) .
qed

section \<open>The finished section\<close>

lemma header_levels:
  assumes "h \<in> set (find_headers s main)"
  shows "2 \<le> header_level s h"
  using assms by (auto simp: find_headers_def query_all_def header_level_def code_def)

lemma all_lists:
  assumes "hs \<noteq> []" "\<forall>h \<in> set hs. known s0 h \<and> 2 \<le> header_level s0 h"
  shows "\<exists>t stack s. add_headers hs (fold start_list [1..<header_level s0 (hs ! 0)] ([], s0)) = Done (stack, s)
    \<and> builds s0 (map (\<lambda>h. (header_level s0 h, Some (''#'' @ ident s0 h))) hs) t s \<and> open_at t s stack"
proof -
  let ?m = "header_level s0 (hs ! 0)"
  have m: "2 \<le> ?m" using assms by (cases hs) auto
  then have up: "[1..<?m] = 1 # [2..<?m]" by (simp add: upt_rec numeral_2_eq_2)
  obtain t s where one: "start_list 1 ([], s0) = ([(2, Node (fresh s0))], s)" "builds s0 [] t s"
    "open_at t s [(2, Node (fresh s0))]" "kids s (Node (fresh s0)) = []"
    using start_first by blast
  have "\<exists>t' stack' s'. fold start_list [2..<?m] ([(2, Node (fresh s0))], s) = (stack', s')
    \<and> builds s0 [] t' s' \<and> open_at t' s' stack' \<and> length stack' + 1 = ?m"
    using start_lists [OF one(2,3), of ?m] one(4) m by (simp add: numeral_2_eq_2)
  then obtain t' stack' s' where all: "fold start_list [1..<?m] ([], s0) = (stack', s')"
    "builds s0 [] t' s'" "open_at t' s' stack'" "length stack' + 1 = ?m"
    unfolding up fold_simps one(1) by blast
  have "ready s' stack' \<or> hs \<noteq> [] \<and> header_level s0 (hd hs) \<le> length stack' + 1"
    using assms(1) all(4) by (simp add: hd_conv_nth)
  from add_headers_step [OF all(2,3) assms(2) this] show ?thesis unfolding all(1) append_Nil by blast
qed

lemma outline_of_section:
  assumes b: "builds s0 ls t s" and sec: "kids s' sec = [tree_root t]" "tag s' sec = ''DIV''"
    "classes s' sec = [''on-this-page'']"
    and same: "\<And>r. r \<in> set (flat t) \<Longrightarrow> kids s' r = kids s r \<and> classes s' r = classes s r
        \<and> attrs s' r = attrs s r \<and> tag s' r = tag s r"
    and fuel: "length (flat t) < length (nodes s')"
  shows "outline (length (nodes s')) 1 s' sec = ls"
proof -
  obtain n where n: "length (nodes s') = Suc n" "length (flat t) \<le> n" using fuel by (cases "length (nodes s')") auto
  have "rep s' t" by (rule rep_frame [of s]) (use b same in \<open>simp_all add: builds_def\<close>)
  then have "outline n 1 s' (tree_root t) = tree_outline t s' 1" using n(2) by (rule outline_rep)
  also have "\<dots> = tree_outline t s 1" by (rule tree_outline_frame) (use same in simp)
  also have "\<dots> = ls" using b by (simp add: builds_def)
  finally show ?thesis by (simp add: n(1) sec has_class_def)
qed

lemma enough_nodes:
  assumes "builds s0 ls t s" "set (nodes s) \<subseteq> set ns" "Node (fresh s) \<in> set ns"
  shows "length (flat t) < length ns"
proof -
  have "insert (Node (fresh s)) (set (flat t)) \<subseteq> set ns"
    using assms by (auto simp: builds_def grows_def)
  moreover have "Node (fresh s) \<notin> set (flat t)" using assms(1) by (auto simp: builds_def fresh_between_def)
  ultimately have "Suc (card (set (flat t))) \<le> card (set ns)"
    using card_mono [of "set ns" "insert (Node (fresh s)) (set (flat t))"] by simp
  also have "\<dots> \<le> length ns" by (rule card_length)
  finally have "card (set (flat t)) < length ns" by simp
  moreover have "card (set (flat t)) = length (flat t)"
    by (rule distinct_card) (use assms(1) in \<open>simp add: builds_def\<close>)
  ultimately show ?thesis by simp
qed

lemma place_section_places:
  assumes b: "builds s0 ls t s1" and o: "open_at t s1 stack"
    and par0: "par s0 act = Some wrapper" "par s0 wrapper = Some item"
    and kn: "known s0 act" "known s0 wrapper" "known s0 item"
  shows "\<exists>t' sec. place_section act (stack, s1) = Done t' \<and> headers t' = headers s0
    \<and> kids t' item = insert_at sec (next_sibling s0 wrapper) (kids s0 item)
    \<and> outline (length (nodes t')) 1 t' sec = ls"
proof -
  have g: "grows s0 s1" and pn: "par s1 (tree_root t) = None" using b by (simp_all add: builds_def)
  let ?sec = "Node (fresh s1)"
  let ?s2 = "add_class ?sec ''on-this-page'' (snd (create_element ''DIV'' s1))"
  let ?s3 = "append_child ?sec (tree_root t) ?s2"
  let ?t = "insert_before item ?sec (next_sibling ?s3 wrapper) ?s3"
  have ft: "set (flat t) = fresh_between (fresh s0) (fresh s1)" using b by (simp add: builds_def)
  have new: "known s1 r" "\<not> known s0 r" if "r \<in> set (flat t)" for r
    using that ft between_known between_new by blast+
  have "\<not> known s1 ?sec" by simp
  then have ne: "tree_root t \<noteq> ?sec" "?sec \<noteq> tree_root t" using new(1) [OF tree_root_in_flat] by metis+
  have le: "fresh s0 \<le> fresh s1" using g by (simp add: grows_def)
  have old: "r \<noteq> ?sec" "r \<noteq> tree_root t" "par s1 r = par s0 r" "kids s1 r = kids s0 r" if "known s0 r" for r
    using that new(2) [OF tree_root_in_flat] le grows_fields [OF g, of r] by (auto simp: known_def)
  have p2: "par ?s2 (tree_root t) = None" using pn ne by (simp add: create_writes)
  note w = append_writes [OF p2, of ?sec]
  have par: "par ?s3 act = Some wrapper" "par ?s3 wrapper = Some item" "par ?s3 ?sec = None"
    using par0 kn old ne by (simp_all add: w create_writes)
  have kid: "kids ?s3 item = kids s0 item" using kn(3) old by (simp add: w create_writes)
  have nx: "next_sibling ?s3 wrapper = next_sibling s0 wrapper"
    using par(2) par0(2) kid by (simp add: next_sibling_def)
  have tw: "kids ?t = (kids ?s3)(item := insert_at ?sec (next_sibling s0 wrapper) (kids s0 item))"
    "classes ?t = classes ?s3" "attrs ?t = attrs ?s3" "tag ?t = tag ?s3" "nodes ?t = nodes ?s3"
    using par(3) by (simp_all add: insert_before_def remove_node_def Let_def nx kid)
  have "create_element ''DIV'' s1 = (?sec, snd (create_element ''DIV'' s1))"
    by (metis create_fst prod.collapse)
  then have fin: "place_section act (stack, s1) = Done ?t"
    using o par by (simp add: place_section_def open_at_def split_beta Let_def)
  have fl: "r \<noteq> ?sec \<and> r \<noteq> item" if "r \<in> set (flat t)" for r using new [OF that] kn(3) by auto
  have fuel: "length (flat t) < length (nodes ?t)"
    by (rule enough_nodes [OF b]) (auto simp: tw w create_writes)
  have "outline (length (nodes ?t)) 1 ?t ?sec = ls"
    by (rule outline_of_section [OF b])
      (use old [OF kn(3)] ne fl fuel in \<open>auto simp: tw w create_writes classes_add_class\<close>)
  moreover have "headers ?t = headers s0" using g by (simp add: grows_def)
  ultimately show ?thesis using fin tw(1) by auto
qed

text \<open>
  C12: The list of headers the script builds when the document is ready, read back from the sidebar,
  is the list of the page's headers: every header once, in the order of the page, each under as
  many lists as its level says and with a link to its id. It stands right after the wrapper of the
  active link, and building it does not fail.
\<close>

theorem headers_listed:
  fixes s :: toc
  assumes "in_sidebar_active s = Some act" and "query_first s html_root (\<lambda>r. tag s r = ''MAIN'') = Some main"
    and "hs = find_headers s main" and "hs \<noteq> []" and "\<forall>h \<in> set hs. known s h"
    and "par s act = Some wrapper" and "par s wrapper = Some item"
    and "known s act" and "known s wrapper" and "known s item"
  shows "\<exists>t sec. build_headers s = Done t \<and> headers t = Some hs
    \<and> kids t item = insert_at sec (next_sibling s wrapper) (kids s item)
    \<and> outline (length (nodes t)) 1 t sec = map (\<lambda>h. (header_level s h, Some (''#'' @ ident s h))) hs"
proof -
  let ?s0 = "s\<lparr>headers := Some hs\<rparr>"
  let ?ls = "map (\<lambda>h. (header_level s h, Some (''#'' @ ident s h))) hs"
  have lev: "header_level ?s0 h = header_level s h" "known ?s0 h = known s h" "next_sibling ?s0 h = next_sibling s h" for h
    by (simp_all add: header_level_def known_def next_sibling_def cong: option.case_cong)
  have "\<forall>h \<in> set hs. known s h \<and> 2 \<le> header_level s h"
    using assms(5) header_levels [of _ s main] unfolding assms(3)[symmetric] by blast
  then have hs: "\<forall>h \<in> set hs. known ?s0 h \<and> 2 \<le> header_level ?s0 h" by (simp add: lev)
  obtain t stack s1 where made: "add_headers hs (fold start_list [1..<header_level ?s0 (hs ! 0)] ([], ?s0)) = Done (stack, s1)"
    and b: "builds ?s0 ?ls t s1" and o: "open_at t s1 stack"
    using all_lists [OF assms(4) hs] by (auto simp: lev)
  have "build_headers s = place_section act (stack, s1)"
    using assms(1,2) made by (simp add: build_headers_def Let_def assms(3)[symmetric] assms(4))
  then show ?thesis
    using place_section_places [OF b o, of act wrapper item] assms(6-10) by (simp add: lev)
qed

definition page_toc :: toc where
  \<comment> \<open>the example page with three headers: of level 2, of level 4, of level 3\<close>
  "page_toc = example_toc
     \<lparr>tag := (\<lambda>r. if r = Named ''main'' then ''MAIN'' else if r = Named ''a'' then ''H2''
            else if r = Named ''b'' then ''H4'' else if r = Named ''c'' then ''H3''
            else if r \<in> {Node 1, Node 4} then ''LI''
            else if r \<in> {Node 2, Node 5, Named ''ta'', Named ''tb'', Named ''tc''} then ''A'' else ''OL''),
      ident := (\<lambda>r. case r of Named i \<Rightarrow> i | Node n \<Rightarrow> ''''),
      classes := (\<lambda>r. if r = Node 5 then [''active''] else []),
      kids := (kids example_toc)(html_root := [Named ''mdbook-sidebar'', Named ''main''],
         Named ''main'' := [Named ''a'', Named ''b'', Named ''c''],
         Named ''a'' := [Named ''ta''], Named ''b'' := [Named ''tb''], Named ''c'' := [Named ''tc''])\<rparr>"

lemma page_toc_below:
  "below (length (nodes page_toc)) page_toc html_root =
     [Named ''mdbook-sidebar'', scrollbox, Node 0, Node 1, Node 2, Node 3, Node 4, Node 5,
      Named ''main'', Named ''a'', Named ''ta'', Named ''b'', Named ''tb'', Named ''c'', Named ''tc'']"
  "below (length (nodes page_toc)) page_toc (Named ''main'') =
     [Named ''a'', Named ''ta'', Named ''b'', Named ''tb'', Named ''c'', Named ''tc'']"
  by (simp_all add: page_toc_def example_toc_def eval_nat_numeral)

lemma page_toc_reads:
  "has_class page_toc r c \<longleftrightarrow> r = Node 5 \<and> c = ''active''" "ident page_toc (Named i) = i"
  "ident page_toc (Node n) = ''''" "tag page_toc (Named ''a'') = ''H2''" "tag page_toc (Named ''b'') = ''H4''"
  "tag page_toc (Named ''c'') = ''H3''"
  by (auto simp: page_toc_def has_class_def)

theorem headers_listed_witness:
  "\<exists>t sec. build_headers page_toc = Done t
     \<and> outline (length (nodes t)) 1 t sec = [(2, Some ''#a''), (4, Some ''#b''), (3, Some ''#c'')]"
proof -
  have anc: "ancestors page_toc (Node 5)
      = [Node 4, Node 3, Node 1, Node 0, scrollbox, Named ''mdbook-sidebar'', html_root]"
    by (simp add: ancestors_def page_toc_def example_toc_def eval_nat_numeral)
  have act: "in_sidebar_active page_toc = Some (Node 5)"
    unfolding in_sidebar_active_def query_first_def page_toc_below
    by (simp add: at_class_def inside_id_def anc page_toc_reads)
  have main: "query_first page_toc html_root (\<lambda>r. tag page_toc r = ''MAIN'') = Some (Named ''main'')"
    unfolding query_first_def page_toc_below by (simp add: page_toc_def)
  have hs: "[Named ''a'', Named ''b'', Named ''c''] = find_headers page_toc (Named ''main'')"
    unfolding find_headers_def query_all_def page_toc_below by (simp add: page_toc_def)
  have kn: "\<forall>h \<in> set [Named ''a'', Named ''b'', Named ''c'']. known page_toc h" by (simp add: known_def)
  have par: "par page_toc (Node 5) = Some (Node 4)" "par page_toc (Node 4) = Some (Node 3)" "fresh page_toc = 6"
    by (simp_all add: page_toc_def example_toc_def)
  have lev: "header_level page_toc (Named ''a'') = 2" "header_level page_toc (Named ''b'') = 4"
    "header_level page_toc (Named ''c'') = 3"
    by (simp_all add: header_level_def page_toc_reads code_def)
  show ?thesis
    using headers_listed [OF act main hs _ kn par(1,2)] by (simp add: par(3) lev page_toc_reads) blast
qed

section \<open>The labels of the links\<close>

primrec inline_text :: "inline \<Rightarrow> string" where
  "inline_text (Words w) = w"
| "inline_text (Elem t ks) = concat (map inline_text ks)"

primrec mark_free :: "inline \<Rightarrow> bool" where
  "mark_free (Words w) = True"
| "mark_free (Elem t ks) \<longleftrightarrow> t \<noteq> ''MARK'' \<and> list_all mark_free ks"

lemma unmark_text: "concat (map inline_text (unmark k)) = inline_text k"
proof (induction k rule: unmark.induct)
  case (2 t ks)
  have "concat (map inline_text (concat (map unmark ks))) = concat (map (\<lambda>k. concat (map inline_text (unmark k))) ks)"
    by (induction ks) simp_all
  also have "\<dots> = concat (map inline_text ks)"
    using 2 by (cases "t = ''MARK''") (intro arg_cong [of _ _ concat] map_cong refl; simp)+
  finally show ?case by simp
qed simp

lemma unmark_free: "list_all mark_free (unmark k)"
proof (induction k rule: unmark.induct)
  case (2 t ks)
  then show ?case by (cases "t = ''MARK''") (auto simp: list_all_iff)
qed simp

text \<open>
  The label of a link in the sidebar is the header's label without the highlighting a search
  has put there: no mark element is left at any depth, and the text is the same.
\<close>

lemma labels_unmarked:
  "inlines (filterHeader source dest s) dest = inlines s dest @ concat (map unmark (inlines s source))
   \<and> list_all mark_free (concat (map unmark (inlines s source)))
   \<and> concat (map inline_text (concat (map unmark (inlines s source)))) = concat (map inline_text (inlines s source))"
proof -
  have "list_all mark_free (concat (map unmark ks))" for ks
    using unmark_free by (induction ks) auto
  moreover have "concat (map inline_text (concat (map unmark ks))) = concat (map inline_text ks)" for ks
    by (induction ks) (simp_all add: unmark_text)
  ultimately show ?thesis by (simp add: filterHeader_def)
qed

end
