(* ===== verification/Book_Themes.thy ===== *)
theory Book_Themes
  imports Browser
begin

text \<open>
  The theme switcher, \<open>themes\<close> of \<open>book-a0b12cfe.js\<close>: which style sheets are on, the class of the
  root element, the stored choice, and the list of themes as a popup worked with mouse and keyboard.
  The storage may be blocked (\<open>storage_works\<close>); the preference for dark colours is the browser's.
\<close>

section \<open>State\<close>

record themes = page +
  previousTheme :: string
  ayu_disabled :: bool
  tomorrow_disabled :: bool
  highlight_disabled :: bool
  has_ace :: bool
  editor_themes :: "string list"
  storage_works :: bool
  prefers_dark :: bool
  default_theme :: string
  dark_and_light :: "(string \<times> string) option"
  themeIds :: "string list"

abbreviation "theme_toggle \<equiv> Named ''mdbook-theme-toggle''"
abbreviation "theme_popup \<equiv> Named ''mdbook-theme-list''"
abbreviation "theme_color_tag \<equiv> Named ''theme-color''"

definition collect_theme_ids :: "themes \<Rightarrow> themes" where
  "collect_theme_ids s =
     s\<lparr>themeIds := map (ident s) (query_all s theme_popup (\<lambda>r. tag s r = ''BUTTON'' \<and> has_class s r ''theme''))\<rparr>"

section \<open>Which theme\<close>

definition get_saved_theme :: "themes \<Rightarrow> string option" where
  \<comment> \<open>null also when the storage throws\<close>
  "get_saved_theme s = (if storage_works s then local_store s ''mdbook-theme'' else None)"

definition delete_saved_theme :: "themes \<Rightarrow> themes outcome" where
  \<comment> \<open>not guarded by a \<open>try\<close>\<close>
  "delete_saved_theme s =
     (if storage_works s then Done (s\<lparr>local_store := (local_store s)(''mdbook-theme'' := None)\<rparr>)
      else Throws StorageError s)"

definition fallback_theme :: "themes \<Rightarrow> string" where
  "fallback_theme s =
     (case dark_and_light s of
        None \<Rightarrow> default_theme s
      | Some (dark, light) \<Rightarrow> if prefers_dark s then dark else light)"

definition get_theme :: "themes \<Rightarrow> string" where
  "get_theme s =
     (case get_saved_theme s of
        None \<Rightarrow> fallback_theme s
      | Some theme \<Rightarrow> if ''mdbook-theme-'' @ theme \<in> set (themeIds s) then theme else fallback_theme s)"

definition plain_name :: "string \<Rightarrow> bool" where
  \<comment> \<open>a text that means itself in a selector and as a class\<close>
  "plain_name t \<longleftrightarrow> t \<noteq> [] \<and> list_all (\<lambda>c. 97 \<le> code c \<and> code c \<le> 122 \<or> 65 \<le> code c \<and> code c \<le> 90
     \<or> 48 \<le> code c \<and> code c \<le> 57 \<or> c = CHR ''-'' \<or> c = CHR ''_'') t"

definition theme_button :: "themes \<Rightarrow> string \<Rightarrow> ref option" where
  \<comment> \<open>\<open>themePopup.querySelector('button#mdbook-theme-' + theme)\<close>\<close>
  "theme_button s theme =
     query_first s theme_popup (\<lambda>r. tag s r = ''BUTTON'' \<and> ident s r = ''mdbook-theme-'' @ theme)"

section \<open>Showing the choice\<close>

definition updateThemeSelected :: "themes \<Rightarrow> themes outcome" where
  "updateThemeSelected s =
     (let s1 = fold (\<lambda>el. remove_class el ''theme-selected'')
            (query_all s theme_popup (\<lambda>r. has_class s r ''theme-selected'')) s;
          selected = (case get_saved_theme s1 of None \<Rightarrow> ''default_theme'' | Some t \<Rightarrow> t)
      in if \<not> plain_name selected then Throws OutOfModel s1
         else case theme_button s1 selected of
             Some element \<Rightarrow> Done (add_class element ''theme-selected'' s1)
           | None \<Rightarrow>
               (case theme_button s1 (get_theme s1) of
                  Some element \<Rightarrow> Done (add_class element ''theme-selected'' s1)
                | None \<Rightarrow> Throws TypeError s1))"

definition choose_sheets :: "string \<Rightarrow> themes \<Rightarrow> themes" where
  "choose_sheets theme s =
     (if theme = ''coal'' \<or> theme = ''navy'' then
        s\<lparr>ayu_disabled := True, tomorrow_disabled := False, highlight_disabled := True\<rparr>
      else if theme = ''ayu'' then
        s\<lparr>ayu_disabled := False, tomorrow_disabled := True, highlight_disabled := True\<rparr>
      else
        s\<lparr>ayu_disabled := True, tomorrow_disabled := True, highlight_disabled := False\<rparr>)"

definition ace_theme_for :: "string \<Rightarrow> string" where
  "ace_theme_for theme =
     (if theme = ''coal'' \<or> theme = ''navy'' then ''ace/theme/tomorrow_night''
      else if theme = ''ayu'' then ''ace/theme/tomorrow_night''
      else ''ace/theme/dawn'')"

definition set_theme :: "string \<Rightarrow> bool \<Rightarrow> themes \<Rightarrow> themes outcome" where
  "set_theme theme store s =
     (let s1 = choose_sheets theme s;
          s2 = emit (StartTimer 1 ''theme color'') s1;
          s3 = (if has_ace s2
                then s2\<lparr>editor_themes := map (\<lambda>editor. ace_theme_for theme) (editor_themes s2)\<rparr> else s2);
          s4 = (if store \<and> storage_works s3
                then s3\<lparr>local_store := (local_store s3)(''mdbook-theme'' \<mapsto> theme)\<rparr> else s3);
          s5 = remove_class html_root (previousTheme s4) s4
      in if \<not> plain_name theme then Throws OutOfModel s5
         else updateThemeSelected ((add_class html_root theme s5)\<lparr>previousTheme := theme\<rparr>))"

definition theme_color_timer :: "string \<Rightarrow> themes \<Rightarrow> themes" where
  "theme_color_timer background s = set_attr theme_color_tag ''content'' background s"

section \<open>The popup\<close>

definition showThemes :: "themes \<Rightarrow> themes outcome" where
  "showThemes s =
     (let s1 = set_attr theme_toggle ''aria-expanded'' ''true'' (set_display theme_popup ''block'' s)
      in if \<not> plain_name (get_theme s1) then Throws OutOfModel s1
         else case theme_button s1 (get_theme s1) of
             None \<Rightarrow> Throws TypeError s1
           | Some b \<Rightarrow> Done (focus_on b s1))"

definition hideThemes :: "themes \<Rightarrow> themes" where
  "hideThemes s =
     focus_on theme_toggle
       (set_attr theme_toggle ''aria-expanded'' ''false'' (set_display theme_popup ''none'' s))"

definition toggle_clicked :: "themes \<Rightarrow> themes outcome" where
  "toggle_clicked s =
     (if display s theme_popup = ''block'' then Done (hideThemes s) else showThemes s)"

definition clicked_theme :: "themes \<Rightarrow> ref \<Rightarrow> string option outcome" where
  \<comment> \<open>the id of the theme clicked; the class name must be exactly \<open>theme\<close>\<close>
  "clicked_theme s target =
     (if classes s target = [''theme''] then Done (Some (ident s target))
      else case par s target of
          None \<Rightarrow> Throws TypeError None
        | Some p \<Rightarrow> Done (if classes s p = [''theme''] then Some (ident s p) else None))"

definition strip_theme_prefix :: "string \<Rightarrow> string" where
  \<comment> \<open>\<open>theme.replace(/^mdbook-theme-/, '')\<close>\<close>
  "strip_theme_prefix i = (if starts_with i ''mdbook-theme-'' then drop (length ''mdbook-theme-'') i else i)"

definition popup_clicked :: "ref \<Rightarrow> themes \<Rightarrow> themes outcome" where
  "popup_clicked target s =
     (case clicked_theme s target of
        Throws e x \<Rightarrow> Throws e s
      | Done None \<Rightarrow> Done s
      | Done (Some i) \<Rightarrow>
          (let theme = strip_theme_prefix i
           in if theme = ''default_theme''
              then and_then (delete_saved_theme s) (\<lambda>s1. set_theme (get_theme s1) False s1)
              else set_theme theme True s))"

definition outside_popup :: "themes \<Rightarrow> ref \<Rightarrow> bool" where
  "outside_popup s r \<longleftrightarrow> \<not> contains_node s theme_toggle r \<and> \<not> contains_node s theme_popup r"

definition popup_focusout :: "ref option \<Rightarrow> themes \<Rightarrow> themes" where
  "popup_focusout related s =
     (case related of None \<Rightarrow> s | Some r \<Rightarrow> if outside_popup s r then hideThemes s else s)"

definition document_clicked :: "ref \<Rightarrow> themes \<Rightarrow> themes" where
  "document_clicked target s =
     (if display s theme_popup = ''block'' \<and> outside_popup s target then hideThemes s else s)"

definition theme_click :: "ref \<Rightarrow> themes \<Rightarrow> themes" where
  \<comment> \<open>one click: the listeners of the toggle or of the popup, when it is inside, then the document's\<close>
  "theme_click target s =
     (let s1 = (if contains_node s theme_toggle target then final (toggle_clicked s) else s);
          s2 = (if contains_node s theme_popup target then final (popup_clicked target s1) else s1)
      in document_clicked target s2)"

definition focus_button :: "ref option \<Rightarrow> themes \<Rightarrow> themes outcome" where
  \<comment> \<open>\<open>li.querySelector('button').focus()\<close> for a neighbour of the item, when there is one\<close>
  "focus_button neighbour s =
     (case neighbour of
        None \<Rightarrow> Done s
      | Some li \<Rightarrow>
          (case query_first s li (\<lambda>r. tag s r = ''BUTTON'') of
             None \<Rightarrow> Throws TypeError s
           | Some b \<Rightarrow> Done (focus_on b s)))"

definition edge_button :: "('a dom_scheme \<Rightarrow> ref \<Rightarrow> ref option) \<Rightarrow> 'a dom_scheme \<Rightarrow> ref option" where
  \<comment> \<open>\<open>themePopup.querySelector('li:first-child button')\<close>, or with \<open>last\<close>\<close>
  "edge_button edge s =
     query_first s theme_popup (\<lambda>r. tag s r = ''BUTTON'' \<and>
       list_ex (\<lambda>li. tag s li = ''LI'' \<and> (case par s li of None \<Rightarrow> False | Some p \<Rightarrow> edge s p = Some li))
         (ancestors s r))"

definition focused_item :: "'a page_scheme \<Rightarrow> ref option" where
  \<comment> \<open>\<open>document.activeElement.parentElement\<close>\<close>
  "focused_item s = par s (case focus s of None \<Rightarrow> html_body | Some r \<Rightarrow> r)"

definition theme_key :: "key_event \<Rightarrow> themes \<Rightarrow> themes outcome" where
  "theme_key e s =
     (if alt_key e \<or> ctrl_key e \<or> meta_key e \<or> shift_key e then Done s
      else if \<not> contains_node s theme_popup (key_target e) then Done s
      else if key e = ''Escape'' then Done (hideThemes (emit PreventDefault s))
      else if key e = ''ArrowUp'' then
        let s1 = emit PreventDefault s
        in focus_button (case focused_item s1 of None \<Rightarrow> None | Some li \<Rightarrow> prev_sibling s1 li) s1
      else if key e = ''ArrowDown'' then
        let s1 = emit PreventDefault s
        in focus_button (case focused_item s1 of None \<Rightarrow> None | Some li \<Rightarrow> next_sibling s1 li) s1
      else if key e = ''Home'' then
        let s1 = emit PreventDefault s
        in (case edge_button first_child s1 of None \<Rightarrow> Throws TypeError s1 | Some b \<Rightarrow> Done (focus_on b s1))
      else if key e = ''End'' then
        let s1 = emit PreventDefault s
        in (case edge_button last_child s1 of None \<Rightarrow> Throws TypeError s1 | Some b \<Rightarrow> Done (focus_on b s1))
      else Done s)"

definition color_scheme_changed :: "bool \<Rightarrow> themes \<Rightarrow> themes outcome" where
  \<comment> \<open>\<open>query.onchange\<close>\<close>
  "color_scheme_changed dark s =
     (let s1 = s\<lparr>prefers_dark := dark\<rparr> in set_theme (get_theme s1) False s1)"

definition start_themes :: "themes \<Rightarrow> themes" where
  "start_themes s =
     (let s1 = collect_theme_ids s;
          s2 = s1\<lparr>previousTheme := default_theme s1\<rparr>
      in final (set_theme (get_theme s2) False s2))"

datatype theme_event =
    ThemeClick ref
  | ThemeKey key_event
  | FocusLeaves "ref option"
  | SchemeChanged bool
  | ColorTimer string
  | FocusMoves "ref option"

fun theme_step :: "theme_event \<Rightarrow> themes \<Rightarrow> themes" where
  "theme_step (ThemeClick r) s = theme_click r s"
| "theme_step (ThemeKey e) s = final (theme_key e s)"
| "theme_step (FocusLeaves r) s = popup_focusout r s"
| "theme_step (SchemeChanged b) s = final (color_scheme_changed b s)"
| "theme_step (ColorTimer c) s = theme_color_timer c s"
| "theme_step (FocusMoves r) s = s\<lparr>focus := r\<rparr>"

section \<open>Frames\<close>

lemma themes_frame [dom_simps, simp]:
  "previousTheme (add_class r c d) = previousTheme d" "ayu_disabled (add_class r c d) = ayu_disabled d" "tomorrow_disabled (add_class r c d) = tomorrow_disabled d" "highlight_disabled (add_class r c d) = highlight_disabled d" "has_ace (add_class r c d) = has_ace d" "editor_themes (add_class r c d) = editor_themes d" "storage_works (add_class r c d) = storage_works d" "prefers_dark (add_class r c d) = prefers_dark d" "default_theme (add_class r c d) = default_theme d" "dark_and_light (add_class r c d) = dark_and_light d" "themeIds (add_class r c d) = themeIds d"
  "previousTheme (remove_class r c d) = previousTheme d" "ayu_disabled (remove_class r c d) = ayu_disabled d" "tomorrow_disabled (remove_class r c d) = tomorrow_disabled d" "highlight_disabled (remove_class r c d) = highlight_disabled d" "has_ace (remove_class r c d) = has_ace d" "editor_themes (remove_class r c d) = editor_themes d" "storage_works (remove_class r c d) = storage_works d" "prefers_dark (remove_class r c d) = prefers_dark d" "default_theme (remove_class r c d) = default_theme d" "dark_and_light (remove_class r c d) = dark_and_light d" "themeIds (remove_class r c d) = themeIds d"
  "previousTheme (toggle_class r c d) = previousTheme d" "ayu_disabled (toggle_class r c d) = ayu_disabled d" "tomorrow_disabled (toggle_class r c d) = tomorrow_disabled d" "highlight_disabled (toggle_class r c d) = highlight_disabled d" "has_ace (toggle_class r c d) = has_ace d" "editor_themes (toggle_class r c d) = editor_themes d" "storage_works (toggle_class r c d) = storage_works d" "prefers_dark (toggle_class r c d) = prefers_dark d" "default_theme (toggle_class r c d) = default_theme d" "dark_and_light (toggle_class r c d) = dark_and_light d" "themeIds (toggle_class r c d) = themeIds d"
  "previousTheme (set_classes r cs d) = previousTheme d" "ayu_disabled (set_classes r cs d) = ayu_disabled d" "tomorrow_disabled (set_classes r cs d) = tomorrow_disabled d" "highlight_disabled (set_classes r cs d) = highlight_disabled d" "has_ace (set_classes r cs d) = has_ace d" "editor_themes (set_classes r cs d) = editor_themes d" "storage_works (set_classes r cs d) = storage_works d" "prefers_dark (set_classes r cs d) = prefers_dark d" "default_theme (set_classes r cs d) = default_theme d" "dark_and_light (set_classes r cs d) = dark_and_light d" "themeIds (set_classes r cs d) = themeIds d"
  "previousTheme (set_attr r a v d) = previousTheme d" "ayu_disabled (set_attr r a v d) = ayu_disabled d" "tomorrow_disabled (set_attr r a v d) = tomorrow_disabled d" "highlight_disabled (set_attr r a v d) = highlight_disabled d" "has_ace (set_attr r a v d) = has_ace d" "editor_themes (set_attr r a v d) = editor_themes d" "storage_works (set_attr r a v d) = storage_works d" "prefers_dark (set_attr r a v d) = prefers_dark d" "default_theme (set_attr r a v d) = default_theme d" "dark_and_light (set_attr r a v d) = dark_and_light d" "themeIds (set_attr r a v d) = themeIds d"
  "previousTheme (set_content r v d) = previousTheme d" "ayu_disabled (set_content r v d) = ayu_disabled d" "tomorrow_disabled (set_content r v d) = tomorrow_disabled d" "highlight_disabled (set_content r v d) = highlight_disabled d" "has_ace (set_content r v d) = has_ace d" "editor_themes (set_content r v d) = editor_themes d" "storage_works (set_content r v d) = storage_works d" "prefers_dark (set_content r v d) = prefers_dark d" "default_theme (set_content r v d) = default_theme d" "dark_and_light (set_content r v d) = dark_and_light d" "themeIds (set_content r v d) = themeIds d"
  "previousTheme (set_display r v d) = previousTheme d" "ayu_disabled (set_display r v d) = ayu_disabled d" "tomorrow_disabled (set_display r v d) = tomorrow_disabled d" "highlight_disabled (set_display r v d) = highlight_disabled d" "has_ace (set_display r v d) = has_ace d" "editor_themes (set_display r v d) = editor_themes d" "storage_works (set_display r v d) = storage_works d" "prefers_dark (set_display r v d) = prefers_dark d" "default_theme (set_display r v d) = default_theme d" "dark_and_light (set_display r v d) = dark_and_light d" "themeIds (set_display r v d) = themeIds d"
  "previousTheme (set_ident r v d) = previousTheme d" "ayu_disabled (set_ident r v d) = ayu_disabled d" "tomorrow_disabled (set_ident r v d) = tomorrow_disabled d" "highlight_disabled (set_ident r v d) = highlight_disabled d" "has_ace (set_ident r v d) = has_ace d" "editor_themes (set_ident r v d) = editor_themes d" "storage_works (set_ident r v d) = storage_works d" "prefers_dark (set_ident r v d) = prefers_dark d" "default_theme (set_ident r v d) = default_theme d" "dark_and_light (set_ident r v d) = dark_and_light d" "themeIds (set_ident r v d) = themeIds d"
  "previousTheme (snd (create_element t d)) = previousTheme d" "ayu_disabled (snd (create_element t d)) = ayu_disabled d" "tomorrow_disabled (snd (create_element t d)) = tomorrow_disabled d" "highlight_disabled (snd (create_element t d)) = highlight_disabled d" "has_ace (snd (create_element t d)) = has_ace d" "editor_themes (snd (create_element t d)) = editor_themes d" "storage_works (snd (create_element t d)) = storage_works d" "prefers_dark (snd (create_element t d)) = prefers_dark d" "default_theme (snd (create_element t d)) = default_theme d" "dark_and_light (snd (create_element t d)) = dark_and_light d" "themeIds (snd (create_element t d)) = themeIds d"
  "previousTheme (append_child p r d) = previousTheme d" "ayu_disabled (append_child p r d) = ayu_disabled d" "tomorrow_disabled (append_child p r d) = tomorrow_disabled d" "highlight_disabled (append_child p r d) = highlight_disabled d" "has_ace (append_child p r d) = has_ace d" "editor_themes (append_child p r d) = editor_themes d" "storage_works (append_child p r d) = storage_works d" "prefers_dark (append_child p r d) = prefers_dark d" "default_theme (append_child p r d) = default_theme d" "dark_and_light (append_child p r d) = dark_and_light d" "themeIds (append_child p r d) = themeIds d"
  "previousTheme (remove_node r d) = previousTheme d" "ayu_disabled (remove_node r d) = ayu_disabled d" "tomorrow_disabled (remove_node r d) = tomorrow_disabled d" "highlight_disabled (remove_node r d) = highlight_disabled d" "has_ace (remove_node r d) = has_ace d" "editor_themes (remove_node r d) = editor_themes d" "storage_works (remove_node r d) = storage_works d" "prefers_dark (remove_node r d) = prefers_dark d" "default_theme (remove_node r d) = default_theme d" "dark_and_light (remove_node r d) = dark_and_light d" "themeIds (remove_node r d) = themeIds d"
  "previousTheme (insert_before p r b d) = previousTheme d" "ayu_disabled (insert_before p r b d) = ayu_disabled d" "tomorrow_disabled (insert_before p r b d) = tomorrow_disabled d" "highlight_disabled (insert_before p r b d) = highlight_disabled d" "has_ace (insert_before p r b d) = has_ace d" "editor_themes (insert_before p r b d) = editor_themes d" "storage_works (insert_before p r b d) = storage_works d" "prefers_dark (insert_before p r b d) = prefers_dark d" "default_theme (insert_before p r b d) = default_theme d" "dark_and_light (insert_before p r b d) = dark_and_light d" "themeIds (insert_before p r b d) = themeIds d"
  by (simp_all add: add_class_def remove_class_def toggle_class_def set_classes_def set_attr_def
      set_content_def set_display_def set_ident_def create_element_def append_child_def
      remove_node_def insert_before_def Let_def split: option.split)

lemma themes_page_frame [dom_simps, simp]:
  "previousTheme (emit e d) = previousTheme d" "previousTheme (focus_on r d) = previousTheme d" "ayu_disabled (emit e d) = ayu_disabled d" "ayu_disabled (focus_on r d) = ayu_disabled d" "tomorrow_disabled (emit e d) = tomorrow_disabled d" "tomorrow_disabled (focus_on r d) = tomorrow_disabled d" "highlight_disabled (emit e d) = highlight_disabled d" "highlight_disabled (focus_on r d) = highlight_disabled d" "has_ace (emit e d) = has_ace d" "has_ace (focus_on r d) = has_ace d" "editor_themes (emit e d) = editor_themes d" "editor_themes (focus_on r d) = editor_themes d" "storage_works (emit e d) = storage_works d" "storage_works (focus_on r d) = storage_works d" "prefers_dark (emit e d) = prefers_dark d" "prefers_dark (focus_on r d) = prefers_dark d" "default_theme (emit e d) = default_theme d" "default_theme (focus_on r d) = default_theme d" "dark_and_light (emit e d) = dark_and_light d" "dark_and_light (focus_on r d) = dark_and_light d" "themeIds (emit e d) = themeIds d" "themeIds (focus_on r d) = themeIds d"
  by (simp_all add: emit_def focus_on_def)

section \<open>What setting a theme does\<close>

definition sheets_of :: "string \<Rightarrow> bool list" where
  \<comment> \<open>which of the style sheets ayu, tomorrow night and the plain one are on for a theme\<close>
  "sheets_of theme =
     (if theme \<in> {''coal'', ''navy''} then [False, True, False]
      else if theme = ''ayu'' then [True, False, False] else [False, False, True])"

definition editor_theme_of :: "string \<Rightarrow> string" where
  \<comment> \<open>the dark themes and the others\<close>
  "editor_theme_of theme =
     ''ace/theme/'' @ (if theme \<in> {''coal'', ''navy'', ''ayu''} then ''tomorrow_night'' else ''dawn'')"

definition sheets_on :: "themes \<Rightarrow> bool list" where
  "sheets_on s = [\<not> ayu_disabled s, \<not> tomorrow_disabled s, \<not> highlight_disabled s]"

definition selected_in :: "'a dom_scheme \<Rightarrow> ref set" where
  "selected_in s = {r \<in> set (below (length (nodes s)) s theme_popup). has_class s r ''theme-selected''}"

definition theme_names :: "themes \<Rightarrow> string set" where
  "theme_names s =
     insert (default_theme s) {t. ''mdbook-theme-'' @ t \<in> set (themeIds s)} \<union>
     (case dark_and_light s of None \<Rightarrow> {} | Some (d, l) \<Rightarrow> {d, l})"

definition usable :: "string \<Rightarrow> bool" where
  "usable t \<longleftrightarrow> plain_name t \<and> t \<noteq> ''theme'' \<and> t \<noteq> ''theme-selected''"

definition names_ok :: "themes \<Rightarrow> bool" where
  \<comment> \<open>every name a theme can have is a plain one and none of the list's own classes\<close>
  "names_ok s \<longleftrightarrow>
     (\<forall>t \<in> theme_names s. usable t)
     \<and> (\<forall>r. has_class s r ''theme'' \<longrightarrow> usable (strip_theme_prefix (ident s r)))"

definition shown_theme :: "themes \<Rightarrow> bool" where
  "shown_theme s \<longleftrightarrow>
     sheets_on s = sheets_of (previousTheme s)
     \<and> (has_ace s \<longrightarrow> list_all (\<lambda>e. e = editor_theme_of (previousTheme s)) (editor_themes s))
     \<and> has_class s html_root (previousTheme s)"

definition one_theme :: "themes \<Rightarrow> bool" where
  \<comment> \<open>of all the names of themes the root has at most the one of the last theme set\<close>
  "one_theme s \<longleftrightarrow> (\<forall>t \<in> theme_names s. has_class s html_root t \<longrightarrow> t = previousTheme s)"

definition popup_told :: "themes \<Rightarrow> bool" where
  \<comment> \<open>the toggle says whether the list is shown\<close>
  "popup_told s \<longleftrightarrow>
     (display s theme_popup = ''block'' \<longleftrightarrow> attrs s theme_toggle ''aria-expanded'' = Some ''true'')"

definition one_selected :: "'a dom_scheme \<Rightarrow> bool" where
  "one_selected s \<longleftrightarrow> (\<forall>x \<in> selected_in s. \<forall>y \<in> selected_in s. x = y)"

definition stored_theme :: "themes \<Rightarrow> string option" where
  "stored_theme s = (if storage_works s then local_store s ''mdbook-theme'' else None)"

definition chosen_name :: "themes \<Rightarrow> string" where
  "chosen_name s = (case stored_theme s of None \<Rightarrow> ''default_theme'' | Some t \<Rightarrow> t)"

definition entry_named :: "themes \<Rightarrow> string \<Rightarrow> ref option" where
  "entry_named s n = List.find (\<lambda>r. tag s r = ''BUTTON'' \<and> ident s r = ''mdbook-theme-'' @ n)
     (below (length (nodes s)) s theme_popup)"

definition marked_entry :: "themes \<Rightarrow> ref option" where
  \<comment> \<open>the entry of the stored choice, or the default entry when nothing is stored; when that is not in the
    list, the entry of the theme in force\<close>
  "marked_entry s =
     (case entry_named s (chosen_name s) of None \<Rightarrow> entry_named s (get_theme s) | Some b \<Rightarrow> Some b)"

definition mark_right :: "themes \<Rightarrow> bool" where
  "mark_right s \<longleftrightarrow> (plain_name (chosen_name s)
     \<longrightarrow> selected_in s = set_option (marked_entry s))"

definition themes_inv :: "themes \<Rightarrow> bool" where
  "themes_inv s \<longleftrightarrow> shown_theme s \<and> one_theme s \<and> popup_told s \<and> one_selected s \<and> mark_right s \<and> names_ok s"

lemmas themes_inv_defs = themes_inv_def shown_theme_def one_theme_def popup_told_def
  one_selected_def mark_right_def names_ok_def

lemma get_theme_in_names: "get_theme s \<in> theme_names s"
  by (auto simp: get_theme_def fallback_theme_def theme_names_def split: option.splits)

lemma clear_selected_class:
  "has_class (fold (\<lambda>el. remove_class el ''theme-selected'') rs s) x c
     \<longleftrightarrow> has_class s x c \<and> \<not> (x \<in> set rs \<and> c = ''theme-selected'')"
  by (induction rs arbitrary: s) auto

lemma updateThemeSelected_frame:
  assumes "\<And>el t. g (remove_class el ''theme-selected'' t) = g t"
    and "\<And>el t. g (add_class el ''theme-selected'' t) = g t"
  shows "g (final (updateThemeSelected s)) = g s"
proof -
  have "g (fold (\<lambda>el. remove_class el ''theme-selected'') rs s) = g s" for rs
    by (rule fold_frame) (rule assms(1))
  then show ?thesis
    by (auto simp: updateThemeSelected_def Let_def assms(2) split: option.split)
qed

lemma updateThemeSelected_reads [simp]:
  fixes s :: themes
  shows "kids (final (updateThemeSelected s)) = kids s" "par (final (updateThemeSelected s)) = par s"
    "nodes (final (updateThemeSelected s)) = nodes s" "tag (final (updateThemeSelected s)) = tag s"
    "ident (final (updateThemeSelected s)) = ident s" "attrs (final (updateThemeSelected s)) = attrs s"
    "display (final (updateThemeSelected s)) = display s" "focus (final (updateThemeSelected s)) = focus s"
    "local_store (final (updateThemeSelected s)) = local_store s"
    "previousTheme (final (updateThemeSelected s)) = previousTheme s"
    "ayu_disabled (final (updateThemeSelected s)) = ayu_disabled s"
    "tomorrow_disabled (final (updateThemeSelected s)) = tomorrow_disabled s"
    "highlight_disabled (final (updateThemeSelected s)) = highlight_disabled s"
    "has_ace (final (updateThemeSelected s)) = has_ace s"
    "editor_themes (final (updateThemeSelected s)) = editor_themes s"
    "storage_works (final (updateThemeSelected s)) = storage_works s"
    "prefers_dark (final (updateThemeSelected s)) = prefers_dark s"
    "default_theme (final (updateThemeSelected s)) = default_theme s"
    "dark_and_light (final (updateThemeSelected s)) = dark_and_light s"
    "themeIds (final (updateThemeSelected s)) = themeIds s"
  by (rule updateThemeSelected_frame, simp, simp)+

lemma updateThemeSelected_class:
  "c \<noteq> ''theme-selected'' \<Longrightarrow> has_class (final (updateThemeSelected s)) x c = has_class s x c"
  by (rule updateThemeSelected_frame) simp_all

lemma updateThemeSelected_one:
  assumes "x \<in> selected_in (final (updateThemeSelected s))" "y \<in> selected_in (final (updateThemeSelected s))"
  shows "x = y"
proof -
  let ?rs = "query_all s theme_popup (\<lambda>r. has_class s r ''theme-selected'')"
  let ?s1 = "fold (\<lambda>el. remove_class el ''theme-selected'') ?rs s"
  have kn: "kids ?s1 = kids s" "nodes ?s1 = nodes s" by (rule fold_frame, simp)+
  have none: "\<not> has_class ?s1 r ''theme-selected''" if "r \<in> set (below (length (nodes s)) s theme_popup)" for r
    using that by (auto simp: clear_selected_class query_all_def)
  have "\<exists>a. \<forall>r. r \<in> selected_in (final (updateThemeSelected s)) \<longrightarrow> r = a"
    using none
    by (auto simp: selected_in_def below_frame [of "final (updateThemeSelected s)" s])
      (auto simp: updateThemeSelected_def Let_def split: option.split)
  then show ?thesis using assms by blast
qed

text \<open>The entry that is marked, exactly.\<close>

lemma theme_button_entry: "theme_button s n = entry_named s n"
  by (simp only: theme_button_def query_first_def entry_named_def)

lemma entry_named_below: "entry_named s n = Some b \<Longrightarrow> b \<in> set (below (length (nodes s)) s theme_popup)"
  unfolding entry_named_def find_Some_iff by (metis nth_mem)

lemma get_theme_frame:
  assumes "local_store t = local_store s" "storage_works t = storage_works s" "prefers_dark t = prefers_dark s"
    and "default_theme t = default_theme s" "dark_and_light t = dark_and_light s" "themeIds t = themeIds s"
  shows "stored_theme t = stored_theme s" "get_theme t = get_theme s" "chosen_name t = chosen_name s"
  unfolding stored_theme_def get_theme_def fallback_theme_def get_saved_theme_def chosen_name_def assms by (rule refl)+

lemma marked_entry_frame:
  assumes "kids t = kids s" "nodes t = nodes s" "tag t = tag s" "ident t = ident s"
    and "get_theme t = get_theme s" "chosen_name t = chosen_name s"
  shows "entry_named t = entry_named s" "marked_entry t = marked_entry s"
  unfolding marked_entry_def entry_named_def assms below_frame [OF assms(1)] by (rule refl)+

lemma updateThemeSelected_mark: "mark_right (final (updateThemeSelected s))"
proof -
  let ?rs = "query_all s theme_popup (\<lambda>r. has_class s r ''theme-selected'')"
  let ?s1 = "fold (\<lambda>el. remove_class el ''theme-selected'') ?rs s"
  let ?u = "final (updateThemeSelected s)"
  have fr: "kids ?s1 = kids s" "nodes ?s1 = nodes s" "tag ?s1 = tag s" "ident ?s1 = ident s"
    "local_store ?s1 = local_store s" "storage_works ?s1 = storage_works s" "prefers_dark ?s1 = prefers_dark s"
    "default_theme ?s1 = default_theme s" "dark_and_light ?s1 = dark_and_light s" "themeIds ?s1 = themeIds s"
    by (rule fold_frame, simp)+
  note names = get_theme_frame [OF fr(5-10)]
  note entries = marked_entry_frame(1) [OF fr(1-4) names(2,3)]
  have none: "\<not> has_class ?s1 x ''theme-selected''" if "x \<in> set (below (length (nodes s)) s theme_popup)" for x
    using that by (auto simp: clear_selected_class query_all_def)
  have me: "marked_entry ?u = marked_entry s" "chosen_name ?u = chosen_name s"
    using get_theme_frame [of ?u s] marked_entry_frame [of ?u s] by simp_all
  have sel: "selected_in ?u = {x \<in> set (below (length (nodes s)) s theme_popup). has_class ?u x ''theme-selected''}"
    by (simp add: selected_in_def below_frame [of ?u s])
  have "selected_in ?u = set_option (marked_entry s)" if plain: "plain_name (chosen_name s)"
  proof -
    have "get_saved_theme ?s1 = stored_theme s" by (simp only: get_saved_theme_def stored_theme_def fr)
    then have u: "?u = (case marked_entry s of None \<Rightarrow> ?s1 | Some b \<Rightarrow> add_class b ''theme-selected'' ?s1)"
      using plain unfolding updateThemeSelected_def Let_def theme_button_entry entries names marked_entry_def chosen_name_def
      by (simp split: option.split)
    have "b \<in> set (below (length (nodes s)) s theme_popup)" if "marked_entry s = Some b" for b
      using that by (auto simp: marked_entry_def dest: entry_named_below split: option.splits)
    then show ?thesis unfolding sel unfolding u using none by (auto split: option.split)
  qed
  then show ?thesis by (simp add: mark_right_def me)
qed

definition themed :: "string \<Rightarrow> bool \<Rightarrow> themes \<Rightarrow> themes" where
  \<comment> \<open>the state of \<open>set_theme\<close> before the list is updated\<close>
  "themed theme store s =
     (let s2 = emit (StartTimer 1 ''theme color'') (choose_sheets theme s);
          s3 = (if has_ace s2
                then s2\<lparr>editor_themes := map (\<lambda>editor. ace_theme_for theme) (editor_themes s2)\<rparr> else s2);
          s4 = (if store \<and> storage_works s3
                then s3\<lparr>local_store := (local_store s3)(''mdbook-theme'' \<mapsto> theme)\<rparr> else s3)
      in (add_class html_root theme (remove_class html_root (previousTheme s4) s4))\<lparr>previousTheme := theme\<rparr>)"

lemma set_theme_plain: "plain_name theme \<Longrightarrow> set_theme theme store s = updateThemeSelected (themed theme store s)"
  by (simp add: set_theme_def themed_def Let_def)

lemma choose_sheets_frame [simp]:
  "has_class (choose_sheets theme s) = has_class s" "kids (choose_sheets theme s) = kids s"
  "par (choose_sheets theme s) = par s" "nodes (choose_sheets theme s) = nodes s"
  "tag (choose_sheets theme s) = tag s" "ident (choose_sheets theme s) = ident s"
  "attrs (choose_sheets theme s) = attrs s" "display (choose_sheets theme s) = display s"
  "focus (choose_sheets theme s) = focus s" "local_store (choose_sheets theme s) = local_store s"
  "previousTheme (choose_sheets theme s) = previousTheme s" "has_ace (choose_sheets theme s) = has_ace s"
  "editor_themes (choose_sheets theme s) = editor_themes s" "storage_works (choose_sheets theme s) = storage_works s"
  "default_theme (choose_sheets theme s) = default_theme s" "dark_and_light (choose_sheets theme s) = dark_and_light s"
  "themeIds (choose_sheets theme s) = themeIds s" "prefers_dark (choose_sheets theme s) = prefers_dark s"
  by (simp_all add: choose_sheets_def has_class_def fun_eq_iff)

lemma themed_reads [simp]:
  "has_class (themed theme store s) x c \<longleftrightarrow>
     x = html_root \<and> c = theme \<or> has_class s x c \<and> \<not> (x = html_root \<and> c = previousTheme s)"
  "kids (themed theme store s) = kids s" "par (themed theme store s) = par s"
  "nodes (themed theme store s) = nodes s" "tag (themed theme store s) = tag s"
  "ident (themed theme store s) = ident s" "attrs (themed theme store s) = attrs s"
  "display (themed theme store s) = display s" "focus (themed theme store s) = focus s"
  "previousTheme (themed theme store s) = theme" "has_ace (themed theme store s) = has_ace s"
  "storage_works (themed theme store s) = storage_works s" "default_theme (themed theme store s) = default_theme s"
  "dark_and_light (themed theme store s) = dark_and_light s" "themeIds (themed theme store s) = themeIds s"
  "prefers_dark (themed theme store s) = prefers_dark s"
  "local_store (themed theme store s) =
     (if store \<and> storage_works s then (local_store s)(''mdbook-theme'' \<mapsto> theme) else local_store s)"
  "editor_themes (themed theme store s) =
     (if has_ace s then map (\<lambda>editor. ace_theme_for theme) (editor_themes s) else editor_themes s)"
  by (auto simp: themed_def Let_def has_class_def [of "_\<lparr>previousTheme := _\<rparr>"] has_class_def [of "_\<lparr>editor_themes := _\<rparr>"]
      has_class_def [of "_\<lparr>local_store := _\<rparr>"] has_class_def [symmetric])

lemma themed_sheets: "sheets_on (themed theme store s) = sheets_of theme"
  by (simp add: sheets_on_def themed_def Let_def sheets_of_def choose_sheets_def emit_def)

lemma ace_theme_editor: "ace_theme_for theme = editor_theme_of theme"
  by (simp add: ace_theme_for_def editor_theme_of_def)

section \<open>The invariant\<close>

lemma themes_inv_frame:
  assumes "\<And>x c. has_class t x c = has_class s x c"
    and "kids t = kids s" "nodes t = nodes s" "ident t = ident s"
    and "sheets_on t = sheets_on s" "previousTheme t = previousTheme s" "has_ace t = has_ace s"
    and "editor_themes t = editor_themes s" "themeIds t = themeIds s"
    and "dark_and_light t = dark_and_light s" "default_theme t = default_theme s"
  shows "shown_theme t = shown_theme s" "one_theme t = one_theme s" "one_selected t = one_selected s"
    "names_ok t = names_ok s"
proof -
  have n: "theme_names t = theme_names s" using assms by (simp add: theme_names_def)
  have "selected_in t = selected_in s" using assms by (simp add: selected_in_def below_frame [of t s])
  then show "shown_theme t = shown_theme s" "one_theme t = one_theme s" "one_selected t = one_selected s"
    "names_ok t = names_ok s"
    using assms by (simp_all add: shown_theme_def one_theme_def one_selected_def names_ok_def n)
qed

lemma themes_inv_cong:
  assumes "\<And>x c. has_class t x c = has_class s x c"
    and "kids t = kids s" "nodes t = nodes s" "ident t = ident s"
    and "sheets_on t = sheets_on s" "previousTheme t = previousTheme s" "has_ace t = has_ace s"
    and "editor_themes t = editor_themes s" "themeIds t = themeIds s"
    and "dark_and_light t = dark_and_light s" "default_theme t = default_theme s"
    and "popup_told t = popup_told s" and "tag t = tag s" "local_store t = local_store s"
    "storage_works t = storage_works s" "prefers_dark t = prefers_dark s"
  shows "themes_inv t = themes_inv s"
proof -
  have "mark_right t = mark_right s"
    using assms get_theme_frame [of t s] marked_entry_frame [of t s]
    by (simp add: mark_right_def selected_in_def below_frame [of t s])
  then show ?thesis using themes_inv_frame [OF assms(1-11)] assms(12) by (simp add: themes_inv_def)
qed

lemma set_theme_inv:
  assumes one: "one_theme s" and pop: "popup_told s" and names: "names_ok s" and us: "usable theme"
  shows "themes_inv (final (set_theme theme store s))"
proof -
  let ?u = "final (updateThemeSelected (themed theme store s))"
  have u: "final (set_theme theme store s) = ?u" using us by (simp add: set_theme_plain usable_def)
  have names': "theme_names ?u = theme_names s" by (simp add: theme_names_def)
  have cls: "has_class ?u x c \<longleftrightarrow> x = html_root \<and> c = theme \<or> has_class s x c \<and> \<not> (x = html_root \<and> c = previousTheme s)"
    if "c \<noteq> ''theme-selected''" for x c
    using that by (simp add: updateThemeSelected_class)
  have "theme \<noteq> ''theme-selected''" using us by (simp add: usable_def)
  then have "has_class ?u html_root theme" using cls by simp
  moreover have "sheets_on ?u = sheets_of theme" using themed_sheets [of theme store s] by (simp add: sheets_on_def)
  ultimately have "shown_theme ?u" by (simp add: shown_theme_def list_all_iff ace_theme_editor)
  moreover have "one_theme ?u"
  proof -
    have "t = theme" if "t \<in> theme_names s" "has_class ?u html_root t" for t
    proof -
      have "t \<noteq> ''theme-selected''" using names that(1) by (auto simp: names_ok_def usable_def)
      then show ?thesis using cls [of t html_root] that one by (auto simp: one_theme_def)
    qed
    then show ?thesis by (simp add: one_theme_def names')
  qed
  moreover have "popup_told ?u" using pop by (simp add: popup_told_def)
  moreover have "one_selected ?u" using updateThemeSelected_one by (auto simp: one_selected_def)
  moreover have "mark_right ?u" by (rule updateThemeSelected_mark)
  moreover have "names_ok ?u"
    using names us cls [of "''theme''"] by (auto simp: names_ok_def names' usable_def)
  ultimately show ?thesis by (simp add: u themes_inv_def)
qed

lemma set_theme_keeps: "themes_inv s \<Longrightarrow> usable theme \<Longrightarrow> themes_inv (final (set_theme theme store s))"
  by (rule set_theme_inv) (simp_all add: themes_inv_def)

lemma usable_get_theme: "names_ok s \<Longrightarrow> usable (get_theme s)"
  using get_theme_in_names by (auto simp: names_ok_def)

text \<open>Where the storage or the preference changes, the mark is right again once the theme has been set.\<close>

lemma set_get_theme_inv:
  assumes "themes_inv s" and "t = s\<lparr>prefers_dark := b\<rparr> \<or> t = s\<lparr>local_store := m\<rparr>"
  shows "themes_inv (final (set_theme (get_theme t) False t))"
proof -
  have "one_theme t = one_theme s" "names_ok t = names_ok s" "popup_told t = popup_told s"
    using assms(2) by (auto simp: one_theme_def names_ok_def popup_told_def theme_names_def has_class_def)
  then have "one_theme t" "popup_told t" "names_ok t" using assms(1) by (simp_all add: themes_inv_def)
  then show ?thesis by (intro set_theme_inv usable_get_theme)
qed

lemma themes_inv_ops [simp]:
  "themes_inv (emit e s) = themes_inv s" "themes_inv (focus_on r s) = themes_inv s"
  "themes_inv (s\<lparr>focus := f\<rparr>) = themes_inv s"
  "themes_inv (set_attr theme_color_tag ''content'' c s) = themes_inv s"
  by (rule themes_inv_cong; simp add: popup_told_def sheets_on_def has_class_def emit_def focus_on_def)+

lemma show_hide_inv:
  assumes "themes_inv s"
  shows "themes_inv (hideThemes s)" "themes_inv (final (showThemes s))"
proof -
  have "themes_inv (set_attr theme_toggle ''aria-expanded'' b (set_display theme_popup d s))"
    if "(d = ''block'') = (b = ''true'')" for b d
  proof -
    have "popup_told s" using assms by (simp add: themes_inv_def)
    moreover have "popup_told (set_attr theme_toggle ''aria-expanded'' b (set_display theme_popup d s))"
      using that by (simp add: popup_told_def)
    ultimately have "themes_inv (set_attr theme_toggle ''aria-expanded'' b (set_display theme_popup d s)) = themes_inv s"
      by (intro themes_inv_cong) (simp_all add: sheets_on_def)
    then show ?thesis using assms by simp
  qed
  then show "themes_inv (hideThemes s)" "themes_inv (final (showThemes s))"
    by (auto simp: hideThemes_def showThemes_def Let_def split: option.split)
qed

lemma popup_clicked_inv:
  assumes "themes_inv s"
  shows "themes_inv (final (popup_clicked target s))"
proof -
  have n: "names_ok s" using assms by (simp add: themes_inv_def)
  have us: "usable (strip_theme_prefix i)" if "clicked_theme s target = Done (Some i)" for i
    using that n
    by (auto simp: clicked_theme_def names_ok_def has_class_def split: if_splits option.splits)
  have del: "themes_inv (final (and_then (delete_saved_theme s) (\<lambda>s1. set_theme (get_theme s1) False s1)))"
  proof (cases "storage_works s")
    case True
    let ?s1 = "s\<lparr>local_store := (local_store s)(''mdbook-theme'' := None)\<rparr>"
    have "themes_inv (final (set_theme (get_theme ?s1) False ?s1))" using assms by (rule set_get_theme_inv) blast
    then show ?thesis using True by (simp add: delete_saved_theme_def)
  qed (simp add: delete_saved_theme_def assms)
  show ?thesis
  proof (cases "clicked_theme s target")
    case (Done o')
    then show ?thesis
    proof (cases o')
      case (Some i)
      then show ?thesis using del set_theme_keeps [OF assms us, of i True] Done
        by (simp add: popup_clicked_def Let_def)
    qed (simp add: popup_clicked_def assms)
  qed (simp add: popup_clicked_def assms)
qed

lemma theme_click_inv:
  assumes "themes_inv s"
  shows "themes_inv (theme_click target s)"
proof -
  have t: "themes_inv (final (toggle_clicked s))" using assms by (simp add: toggle_clicked_def show_hide_inv)
  have d: "themes_inv (document_clicked target u)" if "themes_inv u" for u
    using that by (simp add: document_clicked_def show_hide_inv)
  show ?thesis unfolding theme_click_def Let_def
    using t assms by (intro d) (simp add: popup_clicked_inv)
qed

lemma theme_key_inv:
  assumes "themes_inv s"
  shows "themes_inv (final (theme_key e s))"
proof -
  have "themes_inv (final (focus_button n u))" if "themes_inv u" for n u
    using that by (auto simp: focus_button_def split: option.split)
  then show ?thesis using assms
    by (auto simp: theme_key_def Let_def show_hide_inv split: option.split)
qed

interpretation theme_machine: machine theme_step themes_inv
proof
  fix s e
  assume inv: "themes_inv s"
  show "themes_inv (theme_step e s)"
  proof (cases e)
    case (SchemeChanged b)
    let ?s1 = "s\<lparr>prefers_dark := b\<rparr>"
    have "themes_inv (final (set_theme (get_theme ?s1) False ?s1))" using inv by (rule set_get_theme_inv) blast
    then show ?thesis using SchemeChanged by (simp add: color_scheme_changed_def Let_def)
  next
    case (FocusLeaves r)
    then show ?thesis using inv by (auto simp: popup_focusout_def show_hide_inv split: option.split)
  qed (use inv in \<open>simp_all add: theme_click_inv theme_key_inv theme_color_timer_def\<close>)
qed

interpretation theme_list: disclosure "\<lambda>s. final (showThemes s)" hideThemes "\<lambda>s. display s theme_popup = ''block''"
  by unfold_locales
    (auto simp: showThemes_def hideThemes_def Let_def focus_on_def set_display_def set_attr_def split: option.split)

section \<open>Moving through the list\<close>

definition theme_items :: "themes \<Rightarrow> (ref \<times> ref) list \<Rightarrow> bool" where
  \<comment> \<open>the popup is a list of items with one button each, and is in no other list\<close>
  "theme_items s items \<longleftrightarrow>
     items \<noteq> [] \<and> kids s theme_popup = map fst items \<and> distinct (map fst items)
     \<and> (\<forall>(li, b) \<in> set items. tag s li = ''LI'' \<and> tag s b = ''BUTTON'' \<and> kids s li = [b] \<and> kids s b = []
          \<and> par s b = Some li \<and> par s li = Some theme_popup)
     \<and> tag s theme_popup \<noteq> ''LI'' \<and> (\<forall>a \<in> set (ancestors s theme_popup). tag s a \<noteq> ''LI'')
     \<and> 3 \<le> length (nodes s)"

lemma theme_items_nth:
  assumes "theme_items s items" "i < length items"
  shows "tag s (fst (items ! i)) = ''LI''" "tag s (snd (items ! i)) = ''BUTTON''"
    "kids s (fst (items ! i)) = [snd (items ! i)]" "kids s (snd (items ! i)) = []"
    "par s (snd (items ! i)) = Some (fst (items ! i))" "par s (fst (items ! i)) = Some theme_popup"
proof -
  have "items ! i \<in> set items" using assms(2) by simp
  then show "tag s (fst (items ! i)) = ''LI''" "tag s (snd (items ! i)) = ''BUTTON''"
    "kids s (fst (items ! i)) = [snd (items ! i)]" "kids s (snd (items ! i)) = []"
    "par s (snd (items ! i)) = Some (fst (items ! i))" "par s (fst (items ! i)) = Some theme_popup"
    using assms(1) by (cases "items ! i"; fastforce simp: theme_items_def)+
qed

lemma item_button:
  assumes "theme_items s items" "i < length items"
  shows "query_first s (fst (items ! i)) (\<lambda>r. tag s r = ''BUTTON'') = Some (snd (items ! i))"
proof -
  obtain n where "length (nodes s) = Suc n" using assms(1) by (cases "length (nodes s)") (auto simp: theme_items_def)
  then show ?thesis using theme_items_nth [OF assms] by (simp add: query_first_def)
qed

lemma popup_below:
  assumes "theme_items s items"
  shows "below (length (nodes s)) s theme_popup = concat (map (\<lambda>(li, b). [li, b]) items)"
proof -
  obtain n where n: "length (nodes s) = Suc (Suc n)" using assms
    by (cases "length (nodes s)"; cases "length (nodes s) - 1") (auto simp: theme_items_def)
  have "below (Suc n) s li = [b]" if "(li, b) \<in> set items" for li b
    using that assms by (cases n) (auto simp: theme_items_def)
  then have "map (\<lambda>k. k # below (Suc n) s k) (map fst items) = map (\<lambda>(li, b). [li, b]) items"
    by (auto simp: split_beta)
  moreover have "kids s theme_popup = map fst items" using assms by (simp add: theme_items_def)
  ultimately show ?thesis unfolding n by (simp only: below.simps)
qed

lemma button_at_edge:
  assumes ok: "theme_items s items" and mem: "(li, b) \<in> set items"
  shows "list_ex (\<lambda>l. tag s l = ''LI'' \<and> (case par s l of None \<Rightarrow> False | Some p \<Rightarrow> edge s p = Some l)) (ancestors s b)
    \<longleftrightarrow> edge s theme_popup = Some li"
proof -
  obtain n where n: "length (nodes s) = Suc (Suc n)" using ok
    by (cases "length (nodes s)"; cases "length (nodes s) - 1") (auto simp: theme_items_def)
  have li: "par s b = Some li" "par s li = Some theme_popup" "tag s li = ''LI''"
    using ok mem by (auto simp: theme_items_def)
  then have anc: "ancestors s b = li # theme_popup # climb n s (par s theme_popup)"
    by (simp add: ancestors_def n)
  have "set (climb n s (par s theme_popup)) \<subseteq> set (ancestors s theme_popup)"
    unfolding ancestors_def by (rule climb_mono) (simp add: n)
  then have "\<forall>a \<in> set (climb n s (par s theme_popup)). tag s a \<noteq> ''LI''" "tag s theme_popup \<noteq> ''LI''"
    using ok by (auto simp: theme_items_def)
  then show ?thesis using li by (auto simp: anc list_ex_iff)
qed

lemma find_in_pairs:
  assumes "(l, c) \<in> set its" "distinct (map fst its)"
    and "\<forall>(l', c') \<in> set its. (P c' \<longleftrightarrow> l' = l) \<and> \<not> P l'"
  shows "List.find P (concat (map (\<lambda>(l, c). [l, c]) its)) = Some c"
  using assms
proof (induction its)
  case (Cons x its)
  obtain l' c' where x: "x = (l', c')" by fastforce
  show ?case
  proof (cases "l' = l")
    case True
    then have "c' = c" using Cons.prems x by force
    then show ?thesis using Cons.prems x True by simp
  next
    case False
    then have "(l, c) \<in> set its" using Cons.prems(1) x by auto
    then show ?thesis using Cons x False by simp
  qed
qed simp

lemma find_edge_button:
  assumes ok: "theme_items s items" and i: "i < length items" and e: "edge s theme_popup = Some (fst (items ! i))"
  shows "edge_button edge s = Some (snd (items ! i))"
proof -
  let ?P = "\<lambda>r. tag s r = ''BUTTON'' \<and> list_ex (\<lambda>l. tag s l = ''LI'' \<and>
      (case par s l of None \<Rightarrow> False | Some p \<Rightarrow> edge s p = Some l)) (ancestors s r)"
  have P: "?P b \<longleftrightarrow> li = fst (items ! i)" "\<not> ?P li" if "(li, b) \<in> set items" for li b
    using button_at_edge [OF ok that, of edge] that ok e by (auto simp: theme_items_def)
  obtain l c where it: "items ! i = (l, c)" by fastforce
  then have "(l, c) \<in> set items" "distinct (map fst items)" using i ok by (auto simp: theme_items_def dest: nth_mem)
  then have "List.find ?P (concat (map (\<lambda>(l, c). [l, c]) items)) = Some c"
    by (rule find_in_pairs) (use P it in auto)
  then show ?thesis by (simp add: edge_button_def query_first_def popup_below [OF ok] it)
qed

section \<open>Properties\<close>


text \<open>A page with a list of three entries.\<close>

definition example_themes :: themes where
  "example_themes =
     \<lparr>tag = (\<lambda>r. if r \<in> {Node 0, Node 2, Node 4} then ''LI'' else
              if r \<in> {Node 1, Node 3, Node 5} then ''BUTTON'' else ''DIV''),
      ident = (\<lambda>r. if r = Node 1 then ''mdbook-theme-default_theme'' else
                 if r = Node 3 then ''mdbook-theme-light'' else if r = Node 5 then ''mdbook-theme-coal'' else ''''),
      classes = (\<lambda>r. if r \<in> {Node 1, Node 3, Node 5} then [''theme''] else if r = html_root then [''light''] else []),
      attrs = (\<lambda>r. if r = theme_toggle then [''aria-expanded'' \<mapsto> ''false''] else Map.empty),
      kids = (\<lambda>r. if r = theme_popup then [Node 0, Node 2, Node 4] else if r = Node 0 then [Node 1] else
                 if r = Node 2 then [Node 3] else if r = Node 4 then [Node 5] else []),
      par = (\<lambda>r. if r \<in> {Node 0, Node 2, Node 4} then Some theme_popup else if r = Node 1 then Some (Node 0) else
                if r = Node 3 then Some (Node 2) else if r = Node 5 then Some (Node 4) else None),
      content = (\<lambda>r. ''''), display = (\<lambda>r. ''''),
      nodes = [theme_popup, Node 0, Node 1, Node 2, Node 3, Node 4, Node 5], fresh = 6,
      focus = Some (Node 1), href = '''', past = [], future = [], local_store = Map.empty,
      session_store = Map.empty, effects = [],
      previousTheme = '''', ayu_disabled = True, tomorrow_disabled = True, highlight_disabled = False,
      has_ace = False, editor_themes = [], storage_works = True, prefers_dark = False,
      default_theme = ''light'', dark_and_light = Some (''coal'', ''light''),
      themeIds = [''mdbook-theme-default_theme'', ''mdbook-theme-light'', ''mdbook-theme-coal'']\<rparr>"

lemma example_themes_fields:
  "has_class example_themes r c \<longleftrightarrow> r \<in> {Node (Suc 0), Node 3, Node 5} \<and> c = ''theme'' \<or> r = html_root \<and> c = ''light''"
  "ident example_themes (Node (Suc 0)) = ''mdbook-theme-default_theme''" "ident example_themes (Node 3) = ''mdbook-theme-light''"
  "ident example_themes (Node 5) = ''mdbook-theme-coal''" "storage_works example_themes"
  "themeIds example_themes = [''mdbook-theme-default_theme'', ''mdbook-theme-light'', ''mdbook-theme-coal'']"
  "default_theme example_themes = ''light''" "dark_and_light example_themes = Some (''coal'', ''light'')"
  "classes example_themes (Node (Suc 0)) = [''theme'']" "classes example_themes (Node 5) = [''theme'']"
  by (auto simp: example_themes_def has_class_def)

lemma example_collect: "collect_theme_ids example_themes = example_themes"
  by (simp add: collect_theme_ids_def query_all_def has_class_def example_themes_def eval_nat_numeral)

lemma example_names: "theme_names example_themes = {''default_theme'', ''light'', ''coal''}"
  by (auto simp: theme_names_def example_themes_fields)

lemma example_names_ok: "names_ok example_themes"
proof -
  have "usable ''default_theme''" "usable ''light''" "usable ''coal''" by code_simp+
  moreover have "strip_theme_prefix ''mdbook-theme-default_theme'' = ''default_theme''"
    "strip_theme_prefix ''mdbook-theme-light'' = ''light''" "strip_theme_prefix ''mdbook-theme-coal'' = ''coal''"
    by code_simp+
  ultimately show ?thesis by (auto simp: names_ok_def example_names example_themes_fields)
qed


text \<open>
  A theme chosen in the list is kept: after the click it is the current theme, and every page
  loaded later with the same storage and the theme still on offer starts with it.
\<close>

lemma theme_choice_kept:
  assumes "storage_works s" and "classes s b = [''theme'']" and "ident s b = ''mdbook-theme-'' @ theme"
    and "usable theme" and "theme \<noteq> ''default_theme''" and "t = final (popup_clicked b s)"
    and "storage_works s'" and "local_store s' = local_store t"
    and "''mdbook-theme-'' @ theme \<in> set (themeIds (collect_theme_ids s'))"
  shows "previousTheme t = theme \<and> previousTheme (start_themes s') = theme"
proof -
  have strip: "strip_theme_prefix (''mdbook-theme-'' @ theme) = theme"
    by (simp add: strip_theme_prefix_def starts_with_def)
  have "t = final (set_theme theme True s)"
    using assms(2,3,5,6) by (simp add: popup_clicked_def clicked_theme_def strip del: append.simps)
  then have t: "previousTheme t = theme" "local_store t ''mdbook-theme'' = Some theme"
    using assms(1,4) by (simp_all add: set_theme_plain usable_def)
  let ?s2 = "(collect_theme_ids s')\<lparr>previousTheme := default_theme (collect_theme_ids s')\<rparr>"
  have "get_saved_theme ?s2 = Some theme"
    using t(2) assms(7,8) by (simp add: get_saved_theme_def collect_theme_ids_def)
  then have "get_theme ?s2 = theme" using assms(9) by (simp add: get_theme_def)
  then have "previousTheme (start_themes s') = theme"
    using assms(4) by (simp add: start_themes_def Let_def set_theme_plain usable_def)
  then show ?thesis using t(1) by simp
qed

theorem theme_choice_kept_witness:
  "previousTheme (start_themes (example_themes\<lparr>local_store := local_store (final (popup_clicked (Node 5) example_themes))\<rparr>)) = ''coal''"
proof -
  let ?t = "final (popup_clicked (Node 5) example_themes)"
  let ?n = "example_themes\<lparr>local_store := local_store ?t\<rparr>"
  have id: "ident example_themes (Node 5) = ''mdbook-theme-'' @ ''coal''" by (simp add: example_themes_fields)
  have us: "usable ''coal''" by code_simp
  have ids: "themeIds (collect_theme_ids ?n) = themeIds (collect_theme_ids example_themes)"
    by (simp add: collect_theme_ids_def query_all_def has_class_def below_frame [of ?n example_themes])
  show ?thesis
    using theme_choice_kept [OF example_themes_fields(5) example_themes_fields(10) id us _ refl, of ?n]
    by (simp add: ids example_collect example_themes_fields)
qed

text \<open>
  When the storage is blocked, choosing a theme still changes the page and stores nothing, but
  choosing the default entry throws and leaves the page as it is: removing the stored choice is the
  one use of the storage that is not guarded.
\<close>

lemma theme_blocked_storage:
  assumes "\<not> storage_works s" and "classes s b = [''theme'']"
  shows "(if ident s b = ''mdbook-theme-default_theme'' then popup_clicked b s = Throws StorageError s
    else let t = final (popup_clicked b s)
      in local_store t = local_store s
        \<and> (usable (strip_theme_prefix (ident s b)) \<longrightarrow> strip_theme_prefix (ident s b) \<noteq> ''default_theme''
           \<longrightarrow> previousTheme t = strip_theme_prefix (ident s b)
             \<and> sheets_on t = sheets_of (strip_theme_prefix (ident s b))))"
proof -
  have strip: "strip_theme_prefix ''mdbook-theme-default_theme'' = ''default_theme''" by code_simp
  have store: "local_store (final (set_theme theme True s)) = local_store s" for theme
    using assms(1)
    by (cases "plain_name theme") (simp_all add: set_theme_plain set_theme_def Let_def)
  have sheets: "sheets_on (final (updateThemeSelected (themed theme True s))) = sheets_of theme" for theme
    using themed_sheets [of theme True s] by (simp add: sheets_on_def)
  show ?thesis
    using assms
    by (auto simp: popup_clicked_def clicked_theme_def delete_saved_theme_def strip store Let_def
        set_theme_plain usable_def sheets)
qed

theorem theme_blocked_storage_witness:
  "popup_clicked (Node 1) (example_themes\<lparr>storage_works := False\<rparr>)
     = Throws StorageError (example_themes\<lparr>storage_works := False\<rparr>)"
  using theme_blocked_storage [of "example_themes\<lparr>storage_works := False\<rparr>" "Node 1"]
  by (simp add: example_themes_fields)

text \<open>
  The keys move through the open list: with the focus on the button of the i-th entry, ArrowDown
  and ArrowUp give it to the neighbouring button and stop at the ends, Home and End give it to the
  first and the last, and Escape hides the list and gives the focus back to the toggle.
\<close>

lemma theme_keys_move:
  assumes "theme_items s items" and "i < length items" and "focus s = Some (snd (items ! i))"
    and "contains_node s theme_popup r"
    and "press = (\<lambda>k. final (theme_key \<lparr>key = k, alt_key = False, ctrl_key = False, meta_key = False,
           shift_key = False, key_target = r\<rparr> s))"
  shows "focus (press ''ArrowDown'') = Some (snd (items ! min (Suc i) (length items - 1)))
    \<and> focus (press ''ArrowUp'') = Some (snd (items ! (i - 1)))
    \<and> focus (press ''Home'') = Some (snd (items ! 0))
    \<and> focus (press ''End'') = Some (snd (items ! (length items - 1)))
    \<and> focus (press ''Escape'') = Some theme_toggle \<and> display (press ''Escape'') theme_popup = ''none''"
proof -
  let ?p = "emit PreventDefault s"
  have ok: "theme_items ?p items"
    using assms(1) by (simp add: theme_items_def ancestors_frame [of ?p s])
  have ne: "items \<noteq> []" and kids: "kids s theme_popup = map fst items" and dist: "distinct (map fst items)"
    using assms(1) by (simp_all add: theme_items_def)
  have item: "focused_item ?p = Some (fst (items ! i))" "par ?p (fst (items ! i)) = Some theme_popup"
    using theme_items_nth [OF ok assms(2)] assms(3) by (simp_all add: focused_item_def)
  have nx: "next_sibling ?p (fst (items ! i)) = (if Suc i < length items then Some (fst (items ! Suc i)) else None)"
    using next_in_nth [OF dist, of i] assms(2) item(2) by (simp add: next_sibling_def kids)
  have pv: "prev_sibling ?p (fst (items ! i)) = (if 0 < i then Some (fst (items ! (i - 1))) else None)"
    using prev_in_nth [OF dist, of i] assms(2) item(2) by (auto simp: prev_sibling_def kids)
  have down: "focus (press ''ArrowDown'') = Some (snd (items ! min (Suc i) (length items - 1)))"
  proof (cases "Suc i < length items")
    case True
    then show ?thesis using item_button [OF ok True] assms(4)
      by (simp add: assms(5) theme_key_def Let_def item nx focus_button_def)
  next
    case False
    then have "min (Suc i) (length items - 1) = i" using assms(2) by simp
    then show ?thesis using False assms(3,4)
      by (simp add: assms(5) theme_key_def Let_def item nx focus_button_def)
  qed
  have up: "focus (press ''ArrowUp'') = Some (snd (items ! (i - 1)))"
  proof (cases "0 < i")
    case True
    then show ?thesis using item_button [OF ok, of "i - 1"] assms(2,4)
      by (simp add: assms(5) theme_key_def Let_def item pv focus_button_def)
  next
    case False
    then have "i - 1 = i" and "prev_sibling ?p (fst (items ! i)) = None" by (simp, use pv False in argo)
    then show ?thesis using assms(3,4)
      by (simp add: assms(5) theme_key_def Let_def item(1) focus_button_def del: diff_is_0_eq diff_is_0_eq')
  qed
  have "first_child ?p theme_popup = Some (fst (items ! 0))"
    using ne by (cases items) (simp_all add: kids)
  then have home: "edge_button first_child ?p = Some (snd (items ! 0))"
    by (intro find_edge_button [OF ok]) (use ne in simp_all)
  have "last_child ?p theme_popup = Some (fst (items ! (length items - 1)))"
    using ne by (cases items rule: rev_cases) (simp_all add: kids)
  then have last: "edge_button last_child ?p = Some (snd (items ! (length items - 1)))"
    by (intro find_edge_button [OF ok]) (use ne in simp_all)
  have "display (press ''Escape'') theme_popup = ''none''" "focus (press ''Escape'') = Some theme_toggle"
    using assms(4) by (simp_all add: assms(5) theme_key_def hideThemes_def focus_on_def)
  then show ?thesis using down up home last assms(4)
    by (simp add: assms(5) theme_key_def Let_def)
qed

theorem theme_keys_move_witness:
  "focus (final (theme_key \<lparr>key = ''ArrowDown'', alt_key = False, ctrl_key = False, meta_key = False,
     shift_key = False, key_target = Node 1\<rparr> example_themes)) = Some (Node 3)"
proof -
  let ?items = "[(Node 0, Node 1), (Node 2, Node 3), (Node 4, Node 5)]"
  have ok: "theme_items example_themes ?items"
    by (simp add: theme_items_def example_themes_def ancestors_def eval_nat_numeral)
  have at: "focus example_themes = Some (snd (?items ! 0))" by (simp add: example_themes_def)
  have inside: "contains_node example_themes theme_popup (Node 1)"
    by (simp add: contains_node_def ancestors_def example_themes_def eval_nat_numeral)
  show ?thesis using theme_keys_move [OF ok _ at inside refl] by simp
qed

text \<open>
  A click on the toggle shows the list when it is hidden and hides it when it is shown, whatever
  else the click does on the way, and two clicks leave it as it was.
\<close>

lemma theme_toggle_flips:
  "(display (final (toggle_clicked s)) theme_popup = ''block'' \<longleftrightarrow> display s theme_popup \<noteq> ''block'')
   \<and> (display (final (toggle_clicked (final (toggle_clicked s)))) theme_popup = ''block''
      \<longleftrightarrow> display s theme_popup = ''block'')"
proof -
  have "final (toggle_clicked u) = (if display u theme_popup = ''block'' then hideThemes u else final (showThemes u))" for u
    by (simp add: toggle_clicked_def)
  then show ?thesis
    by (simp add: theme_list.open_opens [unfolded comp_def] theme_list.close_closes)
qed

end
