(* ===== verification/Book_Sidebar.thy ===== *)
theory Book_Sidebar
  imports Layout
begin

text \<open>
  The sidebar of the page, \<open>sidebar\<close> of \<open>book-a0b12cfe.js\<close>: the check box and its label, the handle
  that resizes, and swipes. What tells whether the sidebar is shown is kept in four places (the class
  of the root, the attributes of the button, of the sidebar and of its links) and remembered in the
  storage; the width is a style property of the root. Positions of the mouse are whole pixels, those
  of a touch real numbers, times whole milliseconds.
\<close>

section \<open>State\<close>

record sidebar = page +
  checked :: bool
  target_width :: string
  resizing :: bool
  firstContact :: "(real \<times> int) option"
  sidebarLinks :: "ref list"
  store_open :: bool

abbreviation "sidebar_nav \<equiv> Named ''mdbook-sidebar''"
abbreviation "sidebar_button \<equiv> Named ''mdbook-sidebar-toggle''"

abbreviation visible :: "sidebar \<Rightarrow> bool" where
  "visible s \<equiv> has_class s html_root ''sidebar-visible''"

section \<open>Showing and hiding\<close>

definition remember :: "string \<Rightarrow> sidebar \<Rightarrow> sidebar" where
  \<comment> \<open>\<open>try { localStorage.setItem('mdbook-sidebar', v) } catch {}\<close>\<close>
  "remember v s =
     (if store_open s then s\<lparr>local_store := (local_store s)(''mdbook-sidebar'' \<mapsto> v)\<rparr> else s)"

definition set_links_index :: "string \<Rightarrow> sidebar \<Rightarrow> sidebar" where
  "set_links_index v s = fold (\<lambda>link. set_attr link ''tabindex'' v) (sidebarLinks s) s"

definition showSidebar :: "sidebar \<Rightarrow> sidebar" where
  "showSidebar s =
     (let s1 = add_class html_root ''sidebar-visible'' s;
          s2 = set_links_index ''0'' s1;
          s3 = set_attr sidebar_button ''aria-expanded'' ''true'' s2;
          s4 = set_attr sidebar_nav ''aria-hidden'' ''false'' s3
      in remember ''visible'' s4)"

definition hideSidebar :: "sidebar \<Rightarrow> sidebar" where
  "hideSidebar s =
     (let s1 = remove_class html_root ''sidebar-visible'' s;
          s2 = set_links_index ''-1'' s1;
          s3 = set_attr sidebar_button ''aria-expanded'' ''false'' s2;
          s4 = set_attr sidebar_nav ''aria-hidden'' ''true'' s3
      in remember ''hidden'' s4)"

definition transition_ended :: "sidebar \<Rightarrow> sidebar" where
  "transition_ended s = (if \<not> checked s then set_display sidebar_nav ''none'' s else s)"

definition button_clicked :: "sidebar \<Rightarrow> sidebar" where
  "button_clicked s = (if \<not> checked s then set_display sidebar_nav '''' s else s)"

section \<open>The check box\<close>

definition sidebarToggle :: "sidebar \<Rightarrow> sidebar" where
  "sidebarToggle s =
     (if checked s then
        showSidebar
          (case parse_int (target_width s) of
             None \<Rightarrow> s
           | Some current_width \<Rightarrow> if current_width < 150 then s\<lparr>target_width := ''150px''\<rparr> else s)
      else hideSidebar s)"

definition press_button :: "sidebar \<Rightarrow> sidebar" where
  \<comment> \<open>a click on the button: its listener, then, as the button is the label of the check box, the box
    changes and tells its own listener\<close>
  "press_button s = (let s1 = button_clicked s in sidebarToggle (s1\<lparr>checked := \<not> checked s1\<rparr>))"

section \<open>The handle\<close>

record drag =
  client_x :: int
  offset_left :: int
  inner_width :: int

definition initResize :: "sidebar \<Rightarrow> sidebar" where
  "initResize s = add_class html_root ''sidebar-resizing'' (s\<lparr>resizing := True\<rparr>)"

definition resize :: "drag \<Rightarrow> sidebar \<Rightarrow> sidebar" where
  "resize e s =
     (let pos = client_x e - offset_left e
      in if pos < 20 then hideSidebar s
         else let s1 = (if \<not> visible s then showSidebar s else s)
              in s1\<lparr>target_width := px (min pos (inner_width e - 100))\<rparr>)"

definition stopResize :: "sidebar \<Rightarrow> sidebar" where
  "stopResize s = (remove_class html_root ''sidebar-resizing'' s)\<lparr>resizing := False\<rparr>"

section \<open>Swipes\<close>

record touch =
  touch_x :: real
  now :: int
  body_width :: real

definition touch_started :: "touch \<Rightarrow> sidebar \<Rightarrow> sidebar" where
  "touch_started e s = s\<lparr>firstContact := Some (touch_x e, now e)\<rparr>"

definition touch_moved :: "touch \<Rightarrow> sidebar \<Rightarrow> sidebar" where
  "touch_moved e s =
     (case firstContact s of
        None \<Rightarrow> s
      | Some (x0, t0) \<Rightarrow>
          (let xDiff = touch_x e - x0; tDiff = now e - t0
           in if tDiff < 250 \<and> \<bar>xDiff\<bar> \<ge> 150 then
                (if xDiff \<ge> 0 \<and> x0 < min (body_width e / 4) 300 then showSidebar s
                 else if xDiff < 0 \<and> touch_x e < 300 then hideSidebar s
                 else s)\<lparr>firstContact := None\<rparr>
              else s))"

section \<open>All listeners\<close>

definition start_sidebar :: "sidebar \<Rightarrow> sidebar" where
  "start_sidebar s =
     (let s1 = s\<lparr>sidebarLinks := query_all s html_root
             (\<lambda>r. tag s r = ''A'' \<and> inside_id s ''mdbook-sidebar'' r),
           firstContact := None, resizing := False\<rparr>
      in if \<not> visible s1 then set_display sidebar_nav ''none'' s1 else s1)"

datatype sidebar_event =
    TransitionEnd
  | PressButton
  | MouseDown
  | MouseMove drag
  | MouseUp
  | TouchStart touch
  | TouchMove touch

fun sidebar_step :: "sidebar_event \<Rightarrow> sidebar \<Rightarrow> sidebar" where
  "sidebar_step TransitionEnd s = transition_ended s"
| "sidebar_step PressButton s = press_button s"
| "sidebar_step MouseDown s = initResize s"
| "sidebar_step (MouseMove e) s = (if resizing s then resize e s else s)"
| "sidebar_step MouseUp s = (if resizing s then stopResize s else s)"
| "sidebar_step (TouchStart e) s = touch_started e s"
| "sidebar_step (TouchMove e) s = touch_moved e s"

section \<open>Frames\<close>

lemma sidebar_frame [dom_simps, simp]:
  "checked (add_class r c d) = checked d" "target_width (add_class r c d) = target_width d" "resizing (add_class r c d) = resizing d" "firstContact (add_class r c d) = firstContact d" "sidebarLinks (add_class r c d) = sidebarLinks d" "store_open (add_class r c d) = store_open d"
  "checked (remove_class r c d) = checked d" "target_width (remove_class r c d) = target_width d" "resizing (remove_class r c d) = resizing d" "firstContact (remove_class r c d) = firstContact d" "sidebarLinks (remove_class r c d) = sidebarLinks d" "store_open (remove_class r c d) = store_open d"
  "checked (set_attr r a v d) = checked d" "target_width (set_attr r a v d) = target_width d" "resizing (set_attr r a v d) = resizing d" "firstContact (set_attr r a v d) = firstContact d" "sidebarLinks (set_attr r a v d) = sidebarLinks d" "store_open (set_attr r a v d) = store_open d"
  "checked (set_display r v d) = checked d" "target_width (set_display r v d) = target_width d" "resizing (set_display r v d) = resizing d" "firstContact (set_display r v d) = firstContact d" "sidebarLinks (set_display r v d) = sidebarLinks d" "store_open (set_display r v d) = store_open d"
  by (simp_all add: add_class_def remove_class_def toggle_class_def set_classes_def set_attr_def
      set_content_def set_display_def set_ident_def create_element_def append_child_def
      remove_node_def insert_before_def Let_def split: option.split)

lemma set_links_index_frame [simp]:
  "checked (set_links_index v s) = checked s" "target_width (set_links_index v s) = target_width s"
  "resizing (set_links_index v s) = resizing s" "firstContact (set_links_index v s) = firstContact s"
  "sidebarLinks (set_links_index v s) = sidebarLinks s" "store_open (set_links_index v s) = store_open s"
  "has_class (set_links_index v s) = has_class s" "display (set_links_index v s) = display s"
  "local_store (set_links_index v s) = local_store s"
  unfolding set_links_index_def by (rule fold_frame; simp)+

lemma set_links_index_attr:
  "attrs (set_links_index v s) r a =
     (if r \<in> set (sidebarLinks s) \<and> a = ''tabindex'' then Some v else attrs s r a)"
proof -
  have "attrs (fold (\<lambda>link. set_attr link ''tabindex'' v) rs s) r a =
      (if r \<in> set rs \<and> a = ''tabindex'' then Some v else attrs s r a)" for rs
    by (induction rs arbitrary: s) auto
  then show ?thesis by (simp add: set_links_index_def)
qed

lemma remember_frame [simp]:
  "checked (remember v s) = checked s" "target_width (remember v s) = target_width s"
  "resizing (remember v s) = resizing s" "firstContact (remember v s) = firstContact s"
  "sidebarLinks (remember v s) = sidebarLinks s" "store_open (remember v s) = store_open s"
  "has_class (remember v s) = has_class s" "display (remember v s) = display s"
  "attrs (remember v s) = attrs s"
  by (simp_all add: remember_def has_class_def fun_eq_iff)

lemma show_hide_frame [simp]:
  "checked (showSidebar s) = checked s" "target_width (showSidebar s) = target_width s"
  "resizing (showSidebar s) = resizing s" "firstContact (showSidebar s) = firstContact s"
  "sidebarLinks (showSidebar s) = sidebarLinks s" "store_open (showSidebar s) = store_open s"
  "display (showSidebar s) = display s"
  "checked (hideSidebar s) = checked s" "target_width (hideSidebar s) = target_width s"
  "resizing (hideSidebar s) = resizing s" "firstContact (hideSidebar s) = firstContact s"
  "sidebarLinks (hideSidebar s) = sidebarLinks s" "store_open (hideSidebar s) = store_open s"
  "display (hideSidebar s) = display s"
  by (simp_all add: showSidebar_def hideSidebar_def Let_def)

interpretation sidebar_shown: disclosure showSidebar hideSidebar visible
  by unfold_locales (simp_all add: showSidebar_def hideSidebar_def Let_def)

section \<open>What every place says\<close>

definition sidebar_told :: "sidebar \<Rightarrow> bool" where
  \<comment> \<open>the links, the button and the sidebar say what the class of the root says\<close>
  "sidebar_told s \<longleftrightarrow>
     list_all (\<lambda>l. attrs s l ''tabindex'' = Some (if visible s then ''0'' else ''-1'')) (sidebarLinks s)
     \<and> attrs s sidebar_button ''aria-expanded'' = Some (if visible s then ''true'' else ''false'')
     \<and> attrs s sidebar_nav ''aria-hidden'' = Some (if visible s then ''false'' else ''true'')"

definition sidebar_stored :: "sidebar \<Rightarrow> sidebar \<Rightarrow> bool" where
  \<comment> \<open>since \<open>s0\<close> nothing was shown or hidden, or what is stored is what is shown\<close>
  "sidebar_stored s0 s \<longleftrightarrow>
     store_open s = store_open s0
     \<and> (if store_open s0 \<and> (local_store s \<noteq> local_store s0 \<or> visible s \<noteq> visible s0)
        then local_store s ''mdbook-sidebar'' = Some (if visible s then ''visible'' else ''hidden'')
        else local_store s = local_store s0)"

lemma show_hide_visible [simp]: "visible (showSidebar s)" "\<not> visible (hideSidebar s)"
  by (rule sidebar_shown.open_opens, rule sidebar_shown.close_closes)

lemma show_hide_told: "sidebar_told (showSidebar s)" "sidebar_told (hideSidebar s)"
  by (auto simp: sidebar_told_def showSidebar_def hideSidebar_def Let_def set_links_index_attr list_all_iff)

lemma show_hide_store:
  "local_store (showSidebar s) =
     (if store_open s then (local_store s)(''mdbook-sidebar'' \<mapsto> ''visible'') else local_store s)"
  "local_store (hideSidebar s) =
     (if store_open s then (local_store s)(''mdbook-sidebar'' \<mapsto> ''hidden'') else local_store s)"
  by (simp_all add: showSidebar_def hideSidebar_def Let_def remember_def)

lemma show_hide_stored:
  "store_open s = store_open s0 \<Longrightarrow> (\<not> store_open s0 \<Longrightarrow> local_store s = local_store s0)
   \<Longrightarrow> sidebar_stored s0 (showSidebar s) \<and> sidebar_stored s0 (hideSidebar s)"
  by (simp add: sidebar_stored_def show_hide_store)

lemma has_class_fields [simp]:
  "has_class (s\<lparr>checked := b\<rparr>) = has_class s" "has_class (s\<lparr>target_width := w\<rparr>) = has_class s"
  "has_class (s\<lparr>firstContact := c\<rparr>) = has_class s" "has_class (s\<lparr>resizing := b\<rparr>) = has_class s"
  by (simp_all add: has_class_def fun_eq_iff)

text \<open>Whatever is told of the sidebar does not depend on its box, its width or a touch.\<close>

lemma told_frame [simp]:
  "sidebar_told (s\<lparr>checked := b\<rparr>) = sidebar_told s" "sidebar_told (s\<lparr>target_width := w\<rparr>) = sidebar_told s"
  "sidebar_told (s\<lparr>firstContact := c\<rparr>) = sidebar_told s" "sidebar_told (s\<lparr>resizing := b\<rparr>) = sidebar_told s"
  "sidebar_told (set_display r v s) = sidebar_told s"
  "sidebar_told (add_class html_root ''sidebar-resizing'' s) = sidebar_told s"
  "sidebar_told (remove_class html_root ''sidebar-resizing'' s) = sidebar_told s"
  by (simp_all add: sidebar_told_def)

lemma stored_frame [simp]:
  "sidebar_stored s0 (s\<lparr>checked := b\<rparr>) = sidebar_stored s0 s"
  "sidebar_stored s0 (s\<lparr>target_width := w\<rparr>) = sidebar_stored s0 s"
  "sidebar_stored s0 (s\<lparr>firstContact := c\<rparr>) = sidebar_stored s0 s"
  "sidebar_stored s0 (s\<lparr>resizing := b\<rparr>) = sidebar_stored s0 s"
  "sidebar_stored s0 (set_display r v s) = sidebar_stored s0 s"
  "sidebar_stored s0 (add_class html_root ''sidebar-resizing'' s) = sidebar_stored s0 s"
  "sidebar_stored s0 (remove_class html_root ''sidebar-resizing'' s) = sidebar_stored s0 s"
  by (auto simp: sidebar_stored_def)

text \<open>What every step keeps, when showing and hiding establish it and nothing else touches it.\<close>

lemma sidebar_step_keeps:
  assumes "P s" and "\<And>s. P s \<Longrightarrow> P (showSidebar s) \<and> P (hideSidebar s)"
    and "\<And>s b. P s \<Longrightarrow> P (s\<lparr>checked := b\<rparr>)" and "\<And>s w. P s \<Longrightarrow> P (s\<lparr>target_width := w\<rparr>)"
    and "\<And>s c. P s \<Longrightarrow> P (s\<lparr>firstContact := c\<rparr>)" and "\<And>s b. P s \<Longrightarrow> P (s\<lparr>resizing := b\<rparr>)"
    and "\<And>s v. P s \<Longrightarrow> P (set_display sidebar_nav v s)"
    and "\<And>s. P s \<Longrightarrow> P (add_class html_root ''sidebar-resizing'' s) \<and> P (remove_class html_root ''sidebar-resizing'' s)"
  shows "P (sidebar_step e s)"
proof (cases e)
  case PressButton
  have "P (button_clicked s)" using assms by (simp add: button_clicked_def)
  then have "P ((button_clicked s)\<lparr>checked := b\<rparr>)" for b by (rule assms(3))
  then show ?thesis using PressButton assms(2,4)
    by (auto simp: press_button_def sidebarToggle_def Let_def split: option.split)
qed (use assms in \<open>auto simp: transition_ended_def initResize_def resize_def stopResize_def
    touch_started_def touch_moved_def Let_def split: option.split\<close>)

interpretation sidebar_says: machine sidebar_step sidebar_told
  by unfold_locales (rule sidebar_step_keeps, simp_all add: show_hide_told)

interpretation sidebar_remembers: machine sidebar_step "sidebar_stored s0" for s0
proof
  fix s e
  assume "sidebar_stored s0 s"
  then show "sidebar_stored s0 (sidebar_step e s)"
  proof (rule sidebar_step_keeps)
    fix t assume "sidebar_stored s0 t"
    then show "sidebar_stored s0 (showSidebar t) \<and> sidebar_stored s0 (hideSidebar t)"
      by (intro show_hide_stored) (auto simp: sidebar_stored_def split: if_splits)
  qed simp_all
qed

section \<open>One gesture\<close>

text \<open>Moving the mouse with the handle held is a loop of \<open>resize\<close>; after the release nothing listens.\<close>

lemma resize_frame [simp]:
  "resizing (resize e s) = resizing s" "checked (resize e s) = checked s"
  by (simp_all add: resize_def Let_def)

lemma drag_moves:
  "resizing s \<Longrightarrow> fold sidebar_step (map MouseMove es) s = fold resize es s"
  by (induction es arbitrary: s) simp_all

lemma free_moves:
  "\<not> resizing s \<Longrightarrow> fold sidebar_step (map MouseMove es) s = s"
  by (induction es) simp_all

lemma fold_resize_frame [simp]: "resizing (fold resize es s) = resizing s"
  by (rule fold_frame) simp

lemma resize_decides:
  "visible (resize e s) \<longleftrightarrow> 20 \<le> client_x e - offset_left e"
  "20 \<le> client_x e - offset_left e
   \<Longrightarrow> target_width (resize e s) = px (min (client_x e - offset_left e) (inner_width e - 100))"
  by (auto simp: resize_def Let_def)

definition far_swipe :: "touch \<Rightarrow> touch \<Rightarrow> bool" where
  \<comment> \<open>from the first to the second less than 250 ms and at least 150 pixels\<close>
  "far_swipe a b \<longleftrightarrow> now b - now a < 250 \<and> \<bar>touch_x b - touch_x a\<bar> \<ge> 150"

lemma touch_moved_idle: "firstContact s = None \<Longrightarrow> fold touch_moved es s = s"
  by (induction es) (simp_all add: touch_moved_def)

lemma touch_moved_cases:
  assumes "firstContact s = Some (touch_x a, now a)"
  shows "if far_swipe a b then firstContact (touch_moved b s) = None else touch_moved b s = s"
  using assms by (auto simp: touch_moved_def far_swipe_def Let_def)

lemma touch_events_box:
  "checked (touch_moved e s) = checked s" "display (touch_moved e s) = display s"
  by (auto simp: touch_moved_def Let_def split: option.split)

lemma press_button_checked: "checked (press_button s) = (\<not> checked s)"
  by (simp add: press_button_def sidebarToggle_def button_clicked_def Let_def split: option.split)

lemma press_button_visible: "visible (press_button s) = (\<not> checked s)"
proof (cases "checked s")
  case False
  then have "checked ((button_clicked s)\<lparr>checked := True\<rparr>)" by simp
  then show ?thesis using False
    by (simp add: press_button_def sidebarToggle_def button_clicked_def Let_def)
qed (simp add: press_button_def sidebarToggle_def button_clicked_def Let_def)

section \<open>An example\<close>

definition example_sidebar :: sidebar where
  "example_sidebar =
     \<lparr>tag = (\<lambda>r. ''A''), ident = (\<lambda>r. ''''), classes = (\<lambda>r. if r = html_root then [''sidebar-visible''] else []),
      attrs = (\<lambda>r. if r = sidebar_button then [''aria-expanded'' \<mapsto> ''true'']
        else if r = sidebar_nav then [''aria-hidden'' \<mapsto> ''false''] else [''tabindex'' \<mapsto> ''0'']),
      kids = (\<lambda>r. []), par = (\<lambda>r. None), content = (\<lambda>r. ''''), display = (\<lambda>r. ''''), nodes = [], fresh = 2,
      focus = None, href = '''', past = [], future = [], local_store = Map.empty,
      session_store = Map.empty, effects = [], checked = True, target_width = '''', resizing = False,
      firstContact = None, sidebarLinks = [Node 0, Node 1], store_open = True\<rparr>"

section \<open>Properties\<close>

text \<open>
  C35: Along every run of the listeners, from a page where the attributes of the links, of the button
  and of the sidebar agree with the class of the root, they agree after every step; and once
  something was shown or hidden the storage, when it is open, holds what is shown; until then, or when it is
  blocked, it is as it was at the start.
\<close>

theorem sidebar_consistent:
  assumes "sidebar_told s"
  shows "sidebar_told (fold sidebar_step es s) \<and> sidebar_stored s (fold sidebar_step es s)"
proof -
  have "sidebar_stored s s" by (simp add: sidebar_stored_def)
  then show ?thesis using sidebar_says.run_inv [OF assms] sidebar_remembers.run_inv by blast
qed

theorem sidebar_consistent_witness:
  "sidebar_told (fold sidebar_step [PressButton, TransitionEnd] example_sidebar)"
proof -
  have "sidebar_told example_sidebar"
    by (simp add: sidebar_told_def example_sidebar_def has_class_def)
  from sidebar_consistent [OF this] show ?thesis by blast
qed

text \<open>
  Dragging the handle: while it is held, where the mouse last was decides alone whether the
  sidebar is shown (20 pixels or more from its edge) and how wide it is (at most 100 pixels less than
  the window), a width the check box later reads back; after the release the mouse moves nothing.
\<close>

lemma drag_decides:
  "let t = fold sidebar_step ([MouseDown] @ map MouseMove (es @ [e]) @ [MouseUp] @ map MouseMove later) s;
       pos = client_x e - offset_left e
   in visible t = (20 \<le> pos)
      \<and> (if 20 \<le> pos then parse_int (target_width t) = Some (min pos (inner_width e - 100)) else True)
      \<and> \<not> resizing t \<and> \<not> has_class t html_root ''sidebar-resizing'' \<and> checked t = checked s"
proof -
  let ?u = "fold resize es (initResize s)"
  have r: "resizing (initResize s)" by (simp add: initResize_def)
  have "fold sidebar_step ([MouseDown] @ map MouseMove (es @ [e]) @ [MouseUp] @ map MouseMove later) s
      = stopResize (resize e ?u)"
    using drag_moves [OF r, of "es @ [e]"] r
    by (simp add: free_moves stopResize_def del: map_append)
  moreover have "checked ?u = checked s"
    using fold_frame [of checked resize es "initResize s"] by (simp add: initResize_def)
  ultimately show ?thesis
    by (simp add: stopResize_def resize_decides parse_int_px Let_def)
qed

text \<open>
  One touch shows or hides the sidebar at most once: of all its moves only the first that is far
  and quick enough does anything.
\<close>

lemma one_swipe_per_touch:
  "fold sidebar_step (TouchStart a # map TouchMove es) s =
     (case List.find (far_swipe a) es of
        None \<Rightarrow> touch_started a s
      | Some b \<Rightarrow> touch_moved b (touch_started a s))"
proof -
  have "fold touch_moved es u = (case List.find (far_swipe a) es of None \<Rightarrow> u | Some b \<Rightarrow> touch_moved b u)"
    if "firstContact u = Some (touch_x a, now a)" for u
  proof (induction es)
    case (Cons b es)
    then show ?case
      using touch_moved_cases [OF that, of b] touch_moved_idle [of "touch_moved b u" es] by auto
  qed simp
  moreover have "fold sidebar_step (map TouchMove es) u = fold touch_moved es u" for u
    by (induction es arbitrary: u) simp_all
  moreover have "firstContact (touch_started a s) = Some (touch_x a, now a)"
    by (simp add: touch_started_def)
  ultimately show ?thesis by simp
qed

text \<open>
  The button follows its check box and nothing else: pressing it shows the sidebar exactly when
  the box was not checked, and makes it at least 150 pixels wide; but a swipe does not move the box, so the
  first press after a swipe that hid a sidebar leaves it hidden, and a sidebar a swipe showed while
  the box was not checked keeps the display it had when it was hidden.
\<close>

lemma button_follows_box:
  "visible (press_button s) = checked (press_button s) \<and> checked (press_button s) = (\<not> checked s)
   \<and> (let t = fold sidebar_step (TouchStart a # map TouchMove es) s
      in checked t = checked s \<and> display t = display s
         \<and> (visible (press_button t) = visible t \<longleftrightarrow> checked s \<noteq> visible t)
         \<and> visible (press_button (press_button t)) = checked s)
   \<and> (case parse_int (target_width (press_button s)) of
        None \<Rightarrow> True
      | Some w \<Rightarrow> if checked s then w = the (parse_int (target_width s)) else 150 \<le> w)"
proof -
  let ?t = "fold sidebar_step (TouchStart a # map TouchMove es) s"
  have "(checked (fold sidebar_step (map TouchMove es) u), display (fold sidebar_step (map TouchMove es) u))
      = (checked u, display u)" for u
    by (induction es arbitrary: u) (simp_all add: touch_events_box)
  then have t: "checked ?t = checked s" "display ?t = display s" by (simp_all add: touch_started_def)
  have "parse_int ''150px'' = Some 150" by code_simp
  then have "case parse_int (target_width (press_button s)) of None \<Rightarrow> True
      | Some w \<Rightarrow> if checked s then w = the (parse_int (target_width s)) else 150 \<le> w"
    by (cases "checked s"; cases "parse_int (target_width s)")
      (simp_all add: press_button_def sidebarToggle_def button_clicked_def Let_def)
  then show ?thesis using t by (auto simp: press_button_visible press_button_checked Let_def)
qed

end
