(* ===== verification/Book_Keys.thy ===== *)
theory Book_Keys
  imports Browser
begin

text \<open>
  The keyboard of the page, \<open>chapterNavigation\<close> of \<open>book-a0b12cfe.js\<close>: the arrows go to the next
  and the previous chapter, the question mark shows a popup with help. Each showing of the popup
  registers two listeners that are closures of their own, one on the document (capturing) and one on
  the container of the popup; the lists of listeners are part of the state.
\<close>

section \<open>State\<close>

record keys = page +
  html_dir :: string
  search_focus :: "bool option"
  escape_handlers :: "nat list"
  mouse_handlers :: "nat list"
  next_handler :: nat

abbreviation "help_container \<equiv> Named ''mdbook-help-container''"
abbreviation "help_overlay \<equiv> Named ''mdbook-help-popup''"

abbreviation help_shown :: "keys \<Rightarrow> bool" where
  "help_shown s \<equiv> display s help_container = ''flex''"

section \<open>Chapters\<close>

definition go_chapter :: "platform \<Rightarrow> string \<Rightarrow> keys \<Rightarrow> keys" where
  "go_chapter pl which s =
     (case query_first s html_root (\<lambda>r. has_class s r ''nav-chapters'' \<and> has_class s r which) of
        None \<Rightarrow> s
      | Some button \<Rightarrow> emit (GoTo (link_href pl s button)) s)"

definition next_chapter :: "platform \<Rightarrow> keys \<Rightarrow> keys" where
  \<comment> \<open>\<open>next()\<close>\<close>
  "next_chapter pl s = go_chapter pl ''next'' s"

definition prev_chapter :: "platform \<Rightarrow> keys \<Rightarrow> keys" where
  \<comment> \<open>\<open>prev()\<close>\<close>
  "prev_chapter pl s = go_chapter pl ''previous'' s"

section \<open>Help\<close>

definition hideHelp :: "keys \<Rightarrow> keys" where
  "hideHelp s = set_display help_container ''none'' s"

definition showHelp :: "keys \<Rightarrow> keys" where
  "showHelp s =
     (let s1 = set_display help_container ''flex'' s
      in s1\<lparr>escape_handlers := escape_handlers s1 @ [next_handler s1],
            mouse_handlers := mouse_handlers s1 @ [next_handler s1],
            next_handler := Suc (next_handler s1)\<rparr>)"

definition mouseHandler :: "nat \<Rightarrow> ref \<Rightarrow> nat \<Rightarrow> keys \<Rightarrow> keys" where
  \<comment> \<open>one listener of the container; it removes itself from the document, where it is not registered\<close>
  "mouseHandler h target button s =
     (if contains_node s help_overlay target then s
      else if button \<noteq> 0 then s
      else hideHelp (emit StopPropagation (emit PreventDefault s)))"

definition escapeKeyHandler :: "nat \<Rightarrow> keys \<Rightarrow> keys" where
  \<comment> \<open>one listener of the document, told of an Escape\<close>
  "escapeKeyHandler h s =
     (let s1 = emit StopPropagation (emit PreventDefault s)
      in hideHelp (s1\<lparr>escape_handlers := filter (\<lambda>x. x \<noteq> h) (escape_handlers s1)\<rparr>))"

section \<open>The listeners\<close>

definition navigation_key :: "platform \<Rightarrow> key_event \<Rightarrow> keys \<Rightarrow> keys" where
  \<comment> \<open>the listener of keydown\<close>
  "navigation_key pl e s =
     (if alt_key e \<or> ctrl_key e \<or> meta_key e then s
      else if search_focus s = Some True then s
      else
        let s1 = (if key e = ''?'' then showHelp (emit PreventDefault s) else s)
        in if shift_key e then s1
           else if key e = ''ArrowRight'' then
             (if html_dir s1 = ''rtl'' then prev_chapter pl (emit PreventDefault s1)
              else next_chapter pl (emit PreventDefault s1))
           else if key e = ''ArrowLeft'' then
             (if html_dir s1 = ''rtl'' then next_chapter pl (emit PreventDefault s1)
              else prev_chapter pl (emit PreventDefault s1))
           else s1)"

definition key_pressed :: "platform \<Rightarrow> key_event \<Rightarrow> keys \<Rightarrow> keys" where
  \<comment> \<open>a key goes to the capturing listeners first; when one of them stops it, to no other\<close>
  "key_pressed pl e s =
     (if key e = ''Escape'' \<and> escape_handlers s \<noteq> []
      then fold escapeKeyHandler (escape_handlers s) s
      else navigation_key pl e s)"

definition container_pressed :: "ref \<Rightarrow> nat \<Rightarrow> keys \<Rightarrow> keys" where
  \<comment> \<open>mousedown in the container: all its listeners, as none stops the others on the same element\<close>
  "container_pressed target button s = fold (\<lambda>h. mouseHandler h target button) (mouse_handlers s) s"

datatype keys_event =
    KeyPressed key_event
  | ContainerPressed ref nat
  | SearchFocus "bool option"

fun keys_step :: "platform \<Rightarrow> keys_event \<Rightarrow> keys \<Rightarrow> keys" where
  "keys_step pl (KeyPressed e) s = key_pressed pl e s"
| "keys_step pl (ContainerPressed r b) s = container_pressed r b s"
| "keys_step pl (SearchFocus b) s = s\<lparr>search_focus := b\<rparr>"

section \<open>Frames\<close>

lemma keys_frame [dom_simps, simp]:
  "html_dir (set_display r v d) = html_dir d" "search_focus (set_display r v d) = search_focus d" "escape_handlers (set_display r v d) = escape_handlers d" "mouse_handlers (set_display r v d) = mouse_handlers d" "next_handler (set_display r v d) = next_handler d"
  by (simp_all add: add_class_def remove_class_def toggle_class_def set_classes_def set_attr_def
      set_content_def set_display_def set_ident_def create_element_def append_child_def
      remove_node_def insert_before_def Let_def split: option.split)

lemma keys_page_frame [dom_simps, simp]:
  "html_dir (emit e d) = html_dir d" "search_focus (emit e d) = search_focus d" "escape_handlers (emit e d) = escape_handlers d" "mouse_handlers (emit e d) = mouse_handlers d" "next_handler (emit e d) = next_handler d"
  by (simp_all add: emit_def)

interpretation help_popup: disclosure showHelp hideHelp help_shown
  by unfold_locales (simp_all add: showHelp_def hideHelp_def Let_def)

lemma hideHelp_frame [simp]:
  "escape_handlers (hideHelp s) = escape_handlers s" "mouse_handlers (hideHelp s) = mouse_handlers s"
  "effects (hideHelp s) = effects s" "search_focus (hideHelp s) = search_focus s"
  "display (hideHelp s) help_container = ''none''" "next_handler (hideHelp s) = next_handler s"
  by (simp_all add: hideHelp_def)

lemma go_chapter_frame [simp]:
  "escape_handlers (go_chapter pl w s) = escape_handlers s" "mouse_handlers (go_chapter pl w s) = mouse_handlers s"
  "display (go_chapter pl w s) = display s" "next_handler (go_chapter pl w s) = next_handler s"
  by (simp_all add: go_chapter_def split: option.split)

lemma escapeKeyHandler_read [simp]:
  "escape_handlers (escapeKeyHandler h s) = filter (\<lambda>x. x \<noteq> h) (escape_handlers s)"
  "mouse_handlers (escapeKeyHandler h s) = mouse_handlers s"
  "next_handler (escapeKeyHandler h s) = next_handler s"
  "display (escapeKeyHandler h s) help_container = ''none''"
  "effects (escapeKeyHandler h s) = effects s @ [PreventDefault, StopPropagation]"
  by (simp_all add: escapeKeyHandler_def Let_def)

lemma escape_handlers_read:
  "escape_handlers (fold escapeKeyHandler hs s) = filter (\<lambda>x. x \<notin> set hs) (escape_handlers s)"
  "mouse_handlers (fold escapeKeyHandler hs s) = mouse_handlers s"
  "hs \<noteq> [] \<Longrightarrow> display (fold escapeKeyHandler hs s) help_container = ''none''"
  "effects (fold escapeKeyHandler hs s) = effects s @ concat (replicate (length hs) [PreventDefault, StopPropagation])"
  "next_handler (fold escapeKeyHandler hs s) = next_handler s"
proof -
  show "escape_handlers (fold escapeKeyHandler hs s) = filter (\<lambda>x. x \<notin> set hs) (escape_handlers s)"
    by (induction hs arbitrary: s) (auto intro: filter_cong)
  show "mouse_handlers (fold escapeKeyHandler hs s) = mouse_handlers s"
    "next_handler (fold escapeKeyHandler hs s) = next_handler s" by (rule fold_frame; simp)+
  show "hs \<noteq> [] \<Longrightarrow> display (fold escapeKeyHandler hs s) help_container = ''none''"
    by (induction hs rule: rev_induct) simp_all
  show "effects (fold escapeKeyHandler hs s) = effects s @ concat (replicate (length hs) [PreventDefault, StopPropagation])"
    by (induction hs arbitrary: s) simp_all
qed

section \<open>The popup can be left\<close>

definition help_inv :: "keys \<Rightarrow> bool" where
  \<comment> \<open>a popup that is shown has a listener that hides it\<close>
  "help_inv s \<longleftrightarrow> (help_shown s \<longrightarrow> escape_handlers s \<noteq> [])"

lemma mouseHandler_read:
  "escape_handlers (mouseHandler h r b s) = escape_handlers s"
  "mouse_handlers (mouseHandler h r b s) = mouse_handlers s"
  "next_handler (mouseHandler h r b s) = next_handler s"
  "search_focus (mouseHandler h r b s) = search_focus s"
  "par (mouseHandler h r b s) = par s" "nodes (mouseHandler h r b s) = nodes s"
  "help_shown (mouseHandler h r b s) \<Longrightarrow> help_shown s"
  by (auto simp: mouseHandler_def hideHelp_def split: if_splits)

lemma container_pressed_read:
  "escape_handlers (container_pressed r b s) = escape_handlers s"
  "mouse_handlers (container_pressed r b s) = mouse_handlers s"
  "next_handler (container_pressed r b s) = next_handler s"
  "search_focus (container_pressed r b s) = search_focus s"
  "par (container_pressed r b s) = par s" "nodes (container_pressed r b s) = nodes s"
  unfolding container_pressed_def by (rule fold_frame; simp add: mouseHandler_read)+

lemma container_pressed_shown:
  assumes "help_shown (container_pressed r b s)"
  shows "help_shown s"
proof -
  have "help_shown (fold (\<lambda>h. mouseHandler h r b) hs t) \<Longrightarrow> help_shown t" for hs t
    by (induction hs arbitrary: t) (auto dest: mouseHandler_read(7))
  then show ?thesis using assms by (simp add: container_pressed_def)
qed

lemma navigation_key_help_inv:
  assumes "help_inv s"
  shows "help_inv (navigation_key pl e s)"
  using assms
  by (auto simp: navigation_key_def help_inv_def showHelp_def next_chapter_def prev_chapter_def Let_def)

interpretation help_machine: machine "keys_step pl" help_inv for pl
proof
  fix s e
  assume inv: "help_inv s"
  show "help_inv (keys_step pl e s)"
  proof (cases e)
    case (KeyPressed k)
    then show ?thesis using inv navigation_key_help_inv [OF inv, of pl k]
      by (auto simp: key_pressed_def help_inv_def escape_handlers_read)
  next
    case (ContainerPressed r b)
    then show ?thesis using inv container_pressed_shown [of r b s]
      by (auto simp: help_inv_def container_pressed_read)
  qed (use inv in \<open>simp add: help_inv_def\<close>)
qed

section \<open>Listeners that stay\<close>

definition help_round :: "key_event \<Rightarrow> ref \<Rightarrow> keys_event list" where
  \<comment> \<open>the popup asked for and dismissed with the mouse\<close>
  "help_round q r = [KeyPressed q, ContainerPressed r 0]"

definition asks_help :: "key_event \<Rightarrow> bool" where
  "asks_help q \<longleftrightarrow> key q = ''?'' \<and> \<not> alt_key q \<and> \<not> ctrl_key q \<and> \<not> meta_key q"

lemma asked_help:
  assumes "asks_help q" and "search_focus s \<noteq> Some True"
  shows "key_pressed pl q s = showHelp (emit PreventDefault s)"
  using assms by (simp add: asks_help_def key_pressed_def navigation_key_def Let_def)

lemma outside_pressed:
  assumes "\<not> contains_node s help_overlay r" and "mouse_handlers s \<noteq> []"
  shows "display (container_pressed r 0 s) help_container = ''none''"
proof -
  have "display (fold (\<lambda>h. mouseHandler h r 0) hs t) help_container = ''none''"
    if "\<not> contains_node t help_overlay r" "hs \<noteq> []" for hs t
    using that
  proof (induction hs rule: rev_induct)
    case (snoc h hs)
    let ?u = "fold (\<lambda>h. mouseHandler h r 0) hs t"
    have "par ?u = par t" "nodes ?u = nodes t" by (rule fold_frame; simp add: mouseHandler_read)+
    then have "\<not> contains_node ?u help_overlay r"
      using snoc.prems(1) by (simp add: contains_node_def ancestors_frame [of ?u t])
    then show ?case by (simp add: mouseHandler_def [of h])
  qed simp
  then show ?thesis using assms by (simp add: container_pressed_def)
qed

lemma help_round_read:
  assumes "asks_help q" and "search_focus s \<noteq> Some True" and "\<not> contains_node s help_overlay r"
  shows "let t = fold (keys_step pl) (help_round q r) s
    in display t help_container = ''none'' \<and> length (escape_handlers t) = Suc (length (escape_handlers s))
       \<and> length (mouse_handlers t) = Suc (length (mouse_handlers s))
       \<and> search_focus t = search_focus s \<and> \<not> contains_node t help_overlay r"
proof -
  let ?s1 = "showHelp (emit PreventDefault s)"
  let ?t = "container_pressed r 0 ?s1"
  have frame: "par ?s1 = par s" "nodes ?s1 = nodes s" "search_focus ?s1 = search_focus s"
    "mouse_handlers ?s1 = mouse_handlers s @ [next_handler s]"
    "escape_handlers ?s1 = escape_handlers s @ [next_handler s]"
    by (simp_all add: showHelp_def Let_def)
  have "\<not> contains_node ?s1 help_overlay r" "\<not> contains_node ?t help_overlay r"
    using assms(3) frame
    by (simp_all add: contains_node_def ancestors_frame [of ?s1 s] ancestors_frame [of ?t s] container_pressed_read)
  then show ?thesis
    using outside_pressed [of ?s1 r] frame
    by (simp add: help_round_def asked_help [OF assms(1,2)] container_pressed_read Let_def)
qed

section \<open>An example\<close>

definition example_keys :: keys where
  "example_keys =
     \<lparr>tag = (\<lambda>r. ''A''), ident = (\<lambda>r. ''''), classes = (\<lambda>r. if r = Node 0 then [''nav-chapters'', ''next''] else []),
      attrs = (\<lambda>r. [''href'' \<mapsto> ''b.html'']), kids = (\<lambda>r. if r = html_root then [Node 0] else []),
      par = (\<lambda>r. if r = Node 0 then Some html_root else None), content = (\<lambda>r. ''''), display = (\<lambda>r. ''none''),
      nodes = [html_root, Node 0], fresh = 1,
      focus = None, href = '''', past = [], future = [], local_store = Map.empty,
      session_store = Map.empty, effects = [], html_dir = ''ltr'', search_focus = Some False,
      escape_handlers = [], mouse_handlers = [], next_handler = 0\<rparr>"

definition keys_platform :: platform where
  "keys_platform =
     \<lparr>anchor_of = (\<lambda>u. \<lparr>a_protocol = '''', a_hostname = '''', a_port = '''', a_search = '''', a_pathname = '''', a_hash = ''''\<rparr>),
      resolve = (\<lambda>h. ''https://book/'' @ h), select_focuses = True\<rparr>"

definition plain_key :: "string \<Rightarrow> key_event" where
  "plain_key k = \<lparr>key = k, alt_key = False, ctrl_key = False, meta_key = False, shift_key = False,
     key_target = html_body\<rparr>"

section \<open>Properties\<close>

text \<open>
  Escape always leaves the help: from a page where the popup is not shown, whatever happened
  since, after an Escape it is not shown and no listener that waits for an Escape is left.
\<close>

lemma escape_leaves_help:
  assumes "\<not> help_shown s" and "key e = ''Escape''"
  shows "let t = key_pressed pl e (fold (keys_step pl) es s)
    in \<not> help_shown t \<and> escape_handlers t = []"
proof -
  let ?u = "fold (keys_step pl) es s"
  have "help_inv s" using assms(1) by (simp add: help_inv_def)
  then have "help_inv ?u" by (rule help_machine.run_inv)
  moreover have "navigation_key pl e ?u = ?u" using assms(2) by (simp add: navigation_key_def Let_def)
  ultimately show ?thesis using assms(2)
    by (auto simp: key_pressed_def help_inv_def escape_handlers_read Let_def)
qed

theorem escape_leaves_help_witness:
  "\<not> help_shown (key_pressed keys_platform (plain_key ''Escape'') (fold (keys_step keys_platform) [KeyPressed (plain_key ''?'')] example_keys))"
proof -
  have "\<not> help_shown example_keys" "key (plain_key ''Escape'') = ''Escape''"
    by (simp_all add: example_keys_def plain_key_def)
  from escape_leaves_help [OF this] show ?thesis unfolding Let_def by blast
qed

text \<open>
  The listeners of a popup dismissed with the mouse stay: after \<open>n\<close> such rounds there are \<open>n\<close> of
  each kind and the popup is hidden, and the next Escape, with nothing to close, is still kept from
  every other listener of the page.
\<close>

lemma help_listeners_stay:
  assumes "asks_help q" and "search_focus s \<noteq> Some True" and "\<not> contains_node s help_overlay r"
    and "escape_handlers s = []" and "mouse_handlers s = []" and "\<not> help_shown s"
  shows "let t = fold (keys_step pl) (concat (replicate n (help_round q r))) s
    in \<not> help_shown t \<and> length (escape_handlers t) = n \<and> length (mouse_handlers t) = n
       \<and> effects (key_pressed pl (plain_key ''Escape'') t)
           = effects t @ concat (replicate n [PreventDefault, StopPropagation])"
proof -
  let ?run = "\<lambda>n. fold (keys_step pl) (concat (replicate n (help_round q r)))"
  have rounds: "\<not> help_shown (?run n s) \<and> length (escape_handlers (?run n s)) = n
      \<and> length (mouse_handlers (?run n s)) = n"
  proof -
    have "let t = ?run n u in \<not> help_shown t \<and> length (escape_handlers t) = n + length (escape_handlers u)
        \<and> length (mouse_handlers t) = n + length (mouse_handlers u)"
      if "search_focus u \<noteq> Some True" "\<not> contains_node u help_overlay r" "\<not> help_shown u" for u
      using that
    proof (induction n arbitrary: u)
      case (Suc n)
      show ?case using help_round_read [OF assms(1) Suc.prems(1,2), of pl]
          Suc.IH [of "fold (keys_step pl) (help_round q r) u"] Suc.prems(1)
        by (simp add: Let_def)
    qed simp
    then show ?thesis using assms(2-6) by (simp add: Let_def)
  qed
  let ?e = "plain_key ''Escape''"
  have "effects (key_pressed pl ?e t) = effects t @ concat (replicate (length (escape_handlers t)) [PreventDefault, StopPropagation])" for t
    by (cases "escape_handlers t = []")
      (simp_all add: key_pressed_def escape_handlers_read navigation_key_def plain_key_def Let_def)
  then show ?thesis using rounds by (simp add: Let_def)
qed

theorem help_listeners_stay_witness:
  "effects (key_pressed keys_platform (plain_key ''Escape'') (fold (keys_step keys_platform) (help_round (plain_key ''?'') help_container) example_keys))
     = [PreventDefault, PreventDefault, StopPropagation, PreventDefault, StopPropagation]"
proof -
  have 1: "asks_help (plain_key ''?'')" by (simp add: asks_help_def plain_key_def)
  have 2: "\<not> contains_node example_keys help_overlay help_container"
    by (simp add: contains_node_def ancestors_def example_keys_def eval_nat_numeral)
  have 3: "search_focus example_keys \<noteq> Some True" "escape_handlers example_keys = []"
    "mouse_handlers example_keys = []" "\<not> help_shown example_keys"
    by (simp_all add: example_keys_def)
  let ?t = "fold (keys_step keys_platform) (help_round (plain_key ''?'') help_container) example_keys"
  have "effects (key_pressed keys_platform (plain_key ''Escape'') ?t) = effects ?t @ [PreventDefault, StopPropagation]"
    using help_listeners_stay [OF 1 3(1) 2 3(2-4), of keys_platform 1] by (simp add: Let_def)
  moreover have "effects ?t = [PreventDefault, PreventDefault, StopPropagation]"
    using 2 asked_help [OF 1 3(1)]
    by (simp add: help_round_def showHelp_def container_pressed_def mouseHandler_def Let_def contains_node_def
        ancestors_def example_keys_def eval_nat_numeral)
  ultimately show ?thesis by simp
qed

text \<open>
  What a key does outside the browser's own handling: nothing with a modifier or in the search
  bar; the arrows go to the next and the previous chapter, mirrored in a page read from right to
  left, when there is one.
\<close>

lemma arrows_go_to_chapters:
  "effects (navigation_key pl e s) = effects s @
     (if alt_key e \<or> ctrl_key e \<or> meta_key e \<or> search_focus s = Some True then []
      else if key e = ''?'' then [PreventDefault]
      else if shift_key e then []
      else if key e \<in> {''ArrowLeft'', ''ArrowRight''} then PreventDefault #
        (case query_first s html_root (\<lambda>r. has_class s r ''nav-chapters'' \<and>
             has_class s r (if (key e = ''ArrowRight'') = (html_dir s = ''rtl'') then ''previous'' else ''next'')) of
           None \<Rightarrow> []
         | Some button \<Rightarrow> [GoTo (link_href pl s button)])
      else [])"
proof -
  let ?p = "emit PreventDefault s"
  have below: "below n ?p r = below n s r" for n r by (rule below_frame) simp
  have "effects (go_chapter pl w ?p) = effects s @ PreventDefault #
      (case query_first s html_root (\<lambda>r. has_class s r ''nav-chapters'' \<and> has_class s r w) of
         None \<Rightarrow> [] | Some button \<Rightarrow> [GoTo (link_href pl s button)])" for w
    by (simp add: go_chapter_def query_first_def below link_href_def split: option.split)
  then show ?thesis
    by (simp add: navigation_key_def Let_def showHelp_def next_chapter_def prev_chapter_def)
qed

end
