(* ===== verification/Book_Menu.thy ===== *)
theory Book_Menu
  imports Layout
begin

text \<open>
  The bar above the page, \<open>scrollToTop\<close> and \<open>controllMenu\<close> of \<open>book-a0b12cfe.js\<close>: it scrolls away
  with the page when the reader goes down and comes back when he goes up. The script places it at a
  position of the page (\<open>style.top\<close>) or makes it sticky, and keeps what it last set in variables of
  its own.
\<close>

section \<open>State\<close>

record menu = page +
  prevScrollTop :: real
  minMenuY :: real
  menu_top :: string
  topCache :: "real option"
  stickyCache :: bool

abbreviation "menu_bar \<equiv> Named ''mdbook-menu-bar''"

text \<open>What the browser answers during one scroll event.\<close>

record scrolled =
  scroll_top :: real
  offset_top :: real

definition top_text :: "numbers \<Rightarrow> real \<Rightarrow> string" where
  \<comment> \<open>\<open>y + 'px'\<close>\<close>
  "top_text nm y = number_text nm y @ ''px''"

section \<open>The position\<close>

definition title_clicked :: "'a page_scheme \<Rightarrow> 'a page_scheme" where
  "title_clicked s = emit SmoothScrollTo0 s"

definition start_position :: "numbers \<Rightarrow> real \<Rightarrow> real \<Rightarrow> menu \<Rightarrow> menu" where
  \<comment> \<open>the offset of the page and the height of the bar when the script starts\<close>
  "start_position nm scrollTop height s =
     (let s1 = s\<lparr>prevScrollTop := scrollTop, minMenuY := - height - 50, menu_top := top_text nm scrollTop\<rparr>;
          s2 = s1\<lparr>topCache := parse_float nm (take (length (menu_top s1) - 2) (menu_top s1))\<rparr>
      in (remove_class menu_bar ''sticky'' s2)\<lparr>stickyCache := False\<rparr>)"

definition next_sticky :: "real \<Rightarrow> menu \<Rightarrow> bool option" where
  "next_sticky scrollTop s =
     (if scrollTop > prevScrollTop s then Some False
      else case topCache s of
          None \<Rightarrow> None
        | Some y \<Rightarrow> if y - scrollTop > 0 then Some True else None)"

definition next_top :: "real \<Rightarrow> menu \<Rightarrow> real option" where
  \<comment> \<open>a position that is not a number compares with nothing\<close>
  "next_top scrollTop s =
     (case topCache s of
        None \<Rightarrow> None
      | Some y \<Rightarrow>
          if scrollTop > prevScrollTop s then (if y - scrollTop > 0 then Some (prevScrollTop s) else None)
          else if y - scrollTop > 0 then None
          else if y - scrollTop < minMenuY s then Some (prevScrollTop s + minMenuY s)
          else None)"

definition apply_sticky :: "bool option \<Rightarrow> menu \<Rightarrow> menu" where
  "apply_sticky nextSticky s =
     (if nextSticky = Some True \<and> \<not> stickyCache s
      then (add_class menu_bar ''sticky'' s)\<lparr>stickyCache := True\<rparr>
      else if nextSticky = Some False \<and> stickyCache s
      then (remove_class menu_bar ''sticky'' s)\<lparr>stickyCache := False\<rparr>
      else s)"

definition apply_top :: "numbers \<Rightarrow> real option \<Rightarrow> menu \<Rightarrow> menu" where
  "apply_top nm nextTop s =
     (case nextTop of None \<Rightarrow> s | Some y \<Rightarrow> s\<lparr>menu_top := top_text nm y, topCache := Some y\<rparr>)"

definition control_position :: "numbers \<Rightarrow> real \<Rightarrow> menu \<Rightarrow> menu" where
  \<comment> \<open>the listener of scroll\<close>
  "control_position nm y s =
     (let scrollTop = max y 0
      in (apply_top nm (next_top scrollTop s) (apply_sticky (next_sticky scrollTop s) s))
           \<lparr>prevScrollTop := scrollTop\<rparr>)"

section \<open>The border\<close>

definition updateBorder :: "real \<Rightarrow> 'a dom_scheme \<Rightarrow> 'a dom_scheme" where
  "updateBorder offsetTop s =
     (if offsetTop = 0 then remove_class menu_bar ''bordered'' s else add_class menu_bar ''bordered'' s)"

definition menu_scrolled :: "numbers \<Rightarrow> scrolled \<Rightarrow> menu \<Rightarrow> menu" where
  \<comment> \<open>both listeners of scroll, in the order they were registered\<close>
  "menu_scrolled nm e s = updateBorder (offset_top e) (control_position nm (scroll_top e) s)"

definition start_menu :: "numbers \<Rightarrow> real \<Rightarrow> real \<Rightarrow> real \<Rightarrow> menu \<Rightarrow> menu" where
  "start_menu nm scrollTop height offsetTop s = updateBorder offsetTop (start_position nm scrollTop height s)"

section \<open>Frames\<close>

lemma menu_frame [dom_simps, simp]:
  "prevScrollTop (add_class r c d) = prevScrollTop d" "minMenuY (add_class r c d) = minMenuY d" "menu_top (add_class r c d) = menu_top d" "topCache (add_class r c d) = topCache d" "stickyCache (add_class r c d) = stickyCache d"
  "prevScrollTop (remove_class r c d) = prevScrollTop d" "minMenuY (remove_class r c d) = minMenuY d" "menu_top (remove_class r c d) = menu_top d" "topCache (remove_class r c d) = topCache d" "stickyCache (remove_class r c d) = stickyCache d"
  by (simp_all add: add_class_def remove_class_def toggle_class_def set_classes_def set_attr_def
      set_content_def set_display_def set_ident_def create_element_def append_child_def
      remove_node_def insert_before_def Let_def split: option.split)

lemma updateBorder_frame [simp]:
  "prevScrollTop (updateBorder o' s) = prevScrollTop s" "minMenuY (updateBorder o' s) = minMenuY s"
  "menu_top (updateBorder o' s) = menu_top s" "topCache (updateBorder o' s) = topCache s"
  "stickyCache (updateBorder o' s) = stickyCache s"
  "has_class (updateBorder o' s) r ''sticky'' = has_class s r ''sticky''"
  by (simp_all add: updateBorder_def)

lemma has_class_menu_fields [simp]:
  "has_class (s\<lparr>prevScrollTop := x\<rparr>) = has_class s" "has_class (s\<lparr>minMenuY := x\<rparr>) = has_class s"
  "has_class (s\<lparr>menu_top := t\<rparr>) = has_class s" "has_class (s\<lparr>topCache := c\<rparr>) = has_class s"
  "has_class (s\<lparr>stickyCache := b\<rparr>) = has_class s"
  by (simp_all add: has_class_def fun_eq_iff)

text \<open>What one event leaves in each variable.\<close>

lemma control_position_read:
  "prevScrollTop (control_position nm y s) = max y 0"
  "minMenuY (control_position nm y s) = minMenuY s"
  "topCache (control_position nm y s) =
     (case next_top (max y 0) s of None \<Rightarrow> topCache s | Some t \<Rightarrow> Some t)"
  "menu_top (control_position nm y s) =
     (case next_top (max y 0) s of None \<Rightarrow> menu_top s | Some t \<Rightarrow> top_text nm t)"
  "stickyCache (control_position nm y s) =
     (case next_sticky (max y 0) s of None \<Rightarrow> stickyCache s | Some b \<Rightarrow> b)"
  by (auto simp: control_position_def apply_top_def apply_sticky_def Let_def split: option.split)

lemma control_position_sticky:
  "has_class (control_position nm y s) menu_bar ''sticky'' =
     (if next_sticky (max y 0) s = Some True \<and> \<not> stickyCache s then True
      else if next_sticky (max y 0) s = Some False \<and> stickyCache s then False
      else has_class s menu_bar ''sticky'')"
  by (auto simp: control_position_def apply_top_def apply_sticky_def Let_def split: option.split)

section \<open>The cache is true\<close>

definition menu_inv :: "numbers \<Rightarrow> menu \<Rightarrow> bool" where
  "menu_inv nm s \<longleftrightarrow>
     (stickyCache s \<longleftrightarrow> has_class s menu_bar ''sticky'')
     \<and> 0 \<le> prevScrollTop s
     \<and> (case topCache s of
          None \<Rightarrow> False
        | Some y \<Rightarrow> menu_top s = top_text nm y \<and> minMenuY s \<le> y
            \<and> (if stickyCache s then prevScrollTop s < y else True))"

lemma menu_inv_border [simp]: "menu_inv nm (updateBorder o' s) = menu_inv nm s"
  by (simp add: menu_inv_def cong: option.case_cong)

lemma control_position_inv:
  assumes "menu_inv nm s" and "minMenuY s \<le> 0"
  shows "menu_inv nm (control_position nm y s)"
  using assms
  by (auto simp: menu_inv_def control_position_read control_position_sticky next_top_def next_sticky_def
      split: option.splits if_splits)

interpretation menu_machine: machine "menu_scrolled nm" "\<lambda>s. menu_inv nm s \<and> minMenuY s \<le> 0" for nm
proof
  fix s e
  assume "menu_inv nm s \<and> minMenuY s \<le> 0"
  then show "menu_inv nm (menu_scrolled nm e s) \<and> minMenuY (menu_scrolled nm e s) \<le> 0"
    using control_position_inv [of nm s "scroll_top e"]
    by (simp add: menu_scrolled_def control_position_read(2))
qed

section \<open>Going up\<close>

definition scroll_pos :: "scrolled \<Rightarrow> real" where
  "scroll_pos e = max (scroll_top e) 0"

definition going_up :: "real \<Rightarrow> scrolled list \<Rightarrow> bool" where
  \<comment> \<open>the events from an offset of the page on, none of them further down than the one before\<close>
  "going_up y es \<longleftrightarrow> sorted_wrt (\<lambda>a b. b \<le> a) (y # map scroll_pos es)"

lemma going_up_Cons: "going_up y (e # es) \<longleftrightarrow> scroll_pos e \<le> y \<and> going_up (scroll_pos e) es"
  by (auto simp: going_up_def)

lemma menu_scrolled_read:
  "prevScrollTop (menu_scrolled nm e s) = scroll_pos e"
  "minMenuY (menu_scrolled nm e s) = minMenuY s"
  "topCache (menu_scrolled nm e s) =
     (case next_top (scroll_pos e) s of None \<Rightarrow> topCache s | Some t \<Rightarrow> Some t)"
  "stickyCache (menu_scrolled nm e s) =
     (case next_sticky (scroll_pos e) s of None \<Rightarrow> stickyCache s | Some b \<Rightarrow> b)"
  by (simp_all add: menu_scrolled_def control_position_read scroll_pos_def)

text \<open>The first event upwards brings the bar to just above the window or leaves it there.\<close>

lemma first_up:
  assumes "topCache s = Some y" and "scroll_pos e \<le> prevScrollTop s" and "minMenuY s \<le> 0"
  obtains c where "topCache (menu_scrolled nm e s) = Some c" and "scroll_pos e + minMenuY s \<le> c"
proof (cases "next_top (scroll_pos e) s")
  case None
  then show thesis using assms by (intro that [of y]) (auto simp: menu_scrolled_read next_top_def split: if_splits)
next
  case (Some c)
  then show thesis using assms by (intro that [of c]) (auto simp: menu_scrolled_read next_top_def split: if_splits)
qed

lemma up_run:
  assumes "topCache s = Some c" and "prevScrollTop s + minMenuY s \<le> c" and "going_up (prevScrollTop s) es"
    and "es \<noteq> []" and "scroll_pos (last es) < c"
  shows "stickyCache (fold (menu_scrolled nm) es s)"
  using assms
proof (induction es arbitrary: s)
  case (Cons e es)
  let ?t = "menu_scrolled nm e s"
  have up: "scroll_pos e \<le> prevScrollTop s" and rest: "going_up (scroll_pos e) es"
    using Cons.prems(3) by (simp_all add: going_up_Cons)
  have t: "topCache ?t = Some c" "prevScrollTop ?t = scroll_pos e" "minMenuY ?t = minMenuY s"
    using Cons.prems(1,2) up by (simp_all add: menu_scrolled_read next_top_def)
  show ?case
  proof (cases "es = []")
    case True
    then show ?thesis using Cons.prems(1,5) up by (simp add: menu_scrolled_read next_sticky_def)
  next
    case False
    then show ?thesis using Cons.IH [of ?t] t rest up Cons.prems(2,5) by simp
  qed
qed simp

section \<open>An example\<close>

definition example_numbers :: numbers where
  "example_numbers = \<lparr>number_text = (\<lambda>x. if x = 0 then ''0'' else ''900''),
     parse_float = (\<lambda>t. if t = ''0'' then Some 0 else None)\<rparr>"

definition example_menu :: menu where
  "example_menu =
     \<lparr>tag = (\<lambda>r. ''DIV''), ident = (\<lambda>r. ''''), classes = (\<lambda>r. [''sticky'']), attrs = (\<lambda>r. Map.empty),
      kids = (\<lambda>r. []), par = (\<lambda>r. None), content = (\<lambda>r. ''''), display = (\<lambda>r. ''''), nodes = [], fresh = 0,
      focus = None, href = '''', past = [], future = [], local_store = Map.empty,
      session_store = Map.empty, effects = [], prevScrollTop = 0, minMenuY = 0, menu_top = '''',
      topCache = None, stickyCache = True\<rparr>"

definition scroll_to :: "real \<Rightarrow> scrolled" where
  "scroll_to y = \<lparr>scroll_top = y, offset_top = y\<rparr>"

section \<open>Properties\<close>

text \<open>
  Along every run the variables of the script are what the page shows: \<open>stickyCache\<close> says whether
  the bar has the class, the style is the text of \<open>topCache\<close>, which is never further above the top of
  the page than the height of the bar and 50 pixels, and a sticky bar belongs below the edge of the
  window.
\<close>

lemma menu_cache_true:
  assumes "parse_float nm (number_text nm y) = Some y" and "0 \<le> y" and "0 \<le> height"
  shows "let t = fold (menu_scrolled nm) es (start_menu nm y height off s)
    in stickyCache t = has_class t menu_bar ''sticky'' \<and> minMenuY t = - height - 50
       \<and> (case topCache t of
            None \<Rightarrow> False
          | Some c \<Rightarrow> menu_top t = top_text nm c \<and> - height - 50 \<le> c
              \<and> (if stickyCache t then prevScrollTop t < c else True))"
proof -
  let ?s = "start_menu nm y height off s"
  let ?t = "fold (menu_scrolled nm) es ?s"
  have start: "menu_inv nm ?s" "minMenuY ?s \<le> 0"
    using assms by (simp_all add: start_menu_def start_position_def menu_inv_def Let_def top_text_def)
  have "minMenuY ?t = minMenuY ?s" by (rule fold_frame) (simp add: menu_scrolled_read)
  then have "minMenuY ?t = - height - 50" by (simp add: start_menu_def start_position_def Let_def)
  moreover have "menu_inv nm ?t" using menu_machine.run_inv [of nm ?s es] start by blast
  ultimately show ?thesis unfolding Let_def by (auto simp: menu_inv_def split: option.splits)
qed

theorem menu_cache_true_witness:
  "stickyCache (fold (menu_scrolled example_numbers) [scroll_to 900, scroll_to 800] (start_menu example_numbers 0 50 0 example_menu))
     = has_class (fold (menu_scrolled example_numbers) [scroll_to 900, scroll_to 800] (start_menu example_numbers 0 50 0 example_menu)) menu_bar ''sticky''"
proof -
  have "parse_float example_numbers (number_text example_numbers 0) = Some 0"
    by (simp add: example_numbers_def)
  from menu_cache_true [OF this, of 50] show ?thesis unfolding Let_def by fastforce
qed

text \<open>
  The bar comes back: going up without pause, once the page has moved by more than the height of
  the bar and 50 pixels after the first event the bar is sticky; the first event downwards ends that.
\<close>

lemma menu_comes_back:
  assumes "menu_inv nm s" and "minMenuY s \<le> 0" and "going_up (prevScrollTop s) (e # es)" and "es \<noteq> []"
    and "scroll_pos (last es) < scroll_pos e + minMenuY s"
  shows "has_class (fold (menu_scrolled nm) (e # es) s) menu_bar ''sticky''
    \<and> (if scroll_pos (last es) < scroll_pos d
       then \<not> has_class (fold (menu_scrolled nm) (e # es @ [d]) s) menu_bar ''sticky'' else True)"
proof -
  let ?s1 = "menu_scrolled nm e s"
  let ?t = "fold (menu_scrolled nm) es ?s1"
  have up: "scroll_pos e \<le> prevScrollTop s" "going_up (scroll_pos e) es"
    using assms(3) by (simp_all add: going_up_Cons)
  obtain y where y: "topCache s = Some y" using assms(1) by (auto simp: menu_inv_def split: option.splits)
  obtain c where "topCache ?s1 = Some c" "scroll_pos e + minMenuY s \<le> c"
    using first_up [OF y up(1) assms(2)] by blast
  then have sticky: "stickyCache ?t"
    using up_run [of ?s1 c es nm] up(2) assms(4,5) by (simp add: menu_scrolled_read)
  have inv: "menu_inv nm (fold (menu_scrolled nm) xs s)" for xs
    using menu_machine.run_inv [of nm s xs] assms(1,2) by blast
  have prev: "prevScrollTop ?t = scroll_pos (last es)"
    using assms(4) by (cases es rule: rev_cases) (simp_all add: menu_scrolled_read)
  have "\<not> stickyCache (menu_scrolled nm d ?t)" if "scroll_pos (last es) < scroll_pos d"
    using that prev by (simp add: menu_scrolled_read next_sticky_def)
  then show ?thesis using sticky inv [of "e # es"] inv [of "e # es @ [d]"] by (simp add: menu_inv_def)
qed

theorem menu_comes_back_witness:
  "has_class (fold (menu_scrolled example_numbers) [scroll_to 800, scroll_to 690]
     (fold (menu_scrolled example_numbers) [scroll_to 900] (start_menu example_numbers 0 50 0 example_menu))) menu_bar ''sticky''"
proof -
  let ?s = "fold (menu_scrolled example_numbers) [scroll_to 900] (start_menu example_numbers 0 50 0 example_menu)"
  let ?start = "start_menu example_numbers 0 50 0 example_menu"
  have "menu_inv example_numbers ?start" "minMenuY ?start \<le> 0"
    by (simp_all add: start_menu_def start_position_def menu_inv_def Let_def top_text_def example_numbers_def)
  then have inv: "menu_inv example_numbers ?s" using menu_machine.run_inv [of example_numbers ?start] by blast
  have min: "minMenuY ?s = - 100"
    by (simp add: menu_scrolled_read start_menu_def start_position_def Let_def)
  have "prevScrollTop ?s = 900" by (simp add: menu_scrolled_read scroll_pos_def scroll_to_def)
  then have up: "going_up (prevScrollTop ?s) [scroll_to 800, scroll_to 690]"
    by (simp only: going_up_def) (simp add: scroll_pos_def scroll_to_def)
  show ?thesis
    using menu_comes_back [OF inv _ up] min by (simp add: scroll_pos_def scroll_to_def)
qed

end
