(* ===== verification/Book_Code.thy ===== *)
theory Book_Code
  imports Browser
begin

text \<open>
  The code blocks that can be run, the first half of \<open>codeSnippets\<close> of \<open>book-a0b12cfe.js\<close>: the text
  of a block, the crates it names and whether the playground has them all, a run with its request.
  A request goes through stages (the race of the answer with the timer, reading the body); what the
  network and the timers do are events. The editor (ACE), when there is one, is known by the text it
  holds for a block.
\<close>

section \<open>State\<close>

datatype stage = Racing | Reading | Settled

text \<open>The stages in the order a promise goes through them.\<close>

fun stage_rank :: "stage \<Rightarrow> nat" where
  "stage_rank Racing = 0"
| "stage_rank Reading = 1"
| "stage_rank Settled = 2"

lemma stage_rank_inject: "stage_rank a = stage_rank b \<Longrightarrow> a = b"
  by (cases a; cases b) simp_all

instantiation stage :: linorder
begin

definition less_eq_stage :: "stage \<Rightarrow> stage \<Rightarrow> bool" where
  "a \<le> b \<longleftrightarrow> stage_rank a \<le> stage_rank b"

definition less_stage :: "stage \<Rightarrow> stage \<Rightarrow> bool" where
  "a < b \<longleftrightarrow> stage_rank a < stage_rank b"

instance
  by intro_classes (auto simp: less_eq_stage_def less_stage_def intro: stage_rank_inject)

end

record run_params =
  version :: string
  optimize :: string
  code_text :: string
  edition :: string

record run =
  result_block :: ref
  params :: run_params
  stage :: stage

record snippets = page +
  has_ace :: bool
  editor_text :: "ref \<Rightarrow> string"
  unhidden :: "ref list"
  playgrounds :: "ref list"
  crates_stage :: stage
  playground_crates :: "string list"
  watched :: "ref list"
  runs :: "run list"

section \<open>The text of a block\<close>

definition code_of :: "'a dom_scheme \<Rightarrow> ref \<Rightarrow> ref option" where
  \<comment> \<open>\<open>playground.querySelector('code')\<close>\<close>
  "code_of s playground = query_first s playground (\<lambda>r. tag s r = ''CODE'')"

definition playground_text :: "(ref \<Rightarrow> string) \<Rightarrow> ref \<Rightarrow> bool \<Rightarrow> 'a snippets_scheme \<Rightarrow> js_error + string" where
  \<comment> \<open>\<open>shown\<close>: the text of an element as it is rendered, \<open>innerText\<close>\<close>
  "playground_text shown playground hidden s =
     (case code_of s playground of
        None \<Rightarrow> Inl TypeError
      | Some code_block \<Rightarrow>
          Inr (if has_ace s \<and> has_class s code_block ''editable'' then editor_text s code_block
               else if hidden then content s code_block
               else shown code_block))"

definition whole_text :: "ref \<Rightarrow> snippets \<Rightarrow> js_error + string" where
  \<comment> \<open>\<open>playground_text(playground)\<close>, the hidden lines included\<close>
  "whole_text playground s = playground_text (\<lambda>r. '''') playground True s"

section \<open>The crates a block names\<close>

definition crate_char :: "char \<Rightarrow> bool" where
  \<comment> \<open>\<open>[a-zA-Z_0-9]\<close>\<close>
  "crate_char c \<longleftrightarrow>
     (let n = code c in 97 \<le> n \<and> n \<le> 122 \<or> 65 \<le> n \<and> n \<le> 90 \<or> n = 95 \<or> 48 \<le> n \<and> n \<le> 57)"

definition skip_word :: "string \<Rightarrow> string \<Rightarrow> string option" where
  \<comment> \<open>a word and white space after it\<close>
  "skip_word w s =
     (if starts_with s w \<and> takeWhile is_space (drop (length w) s) \<noteq> []
      then Some (dropWhile is_space (drop (length w) s)) else None)"

definition match_crate :: "string \<Rightarrow> (string \<times> string) option" where
  \<comment> \<open>a match of \<open>/extern\s+crate\s+([a-zA-Z_0-9]+)\s*;/\<close> at the head of the text: the group and the
    rest. No class of the expression overlaps what follows it, so greedy matching finds every match.\<close>
  "match_crate s =
     (case skip_word ''extern'' s of
        None \<Rightarrow> None
      | Some s1 \<Rightarrow>
          (case skip_word ''crate'' s1 of
             None \<Rightarrow> None
           | Some s2 \<Rightarrow>
               (let name = takeWhile crate_char s2; s3 = dropWhile is_space (dropWhile crate_char s2)
                in if name \<noteq> [] \<and> starts_with s3 '';'' then Some (name, tl s3) else None)))"

lemma skip_word_shorter: "skip_word w s = Some t \<Longrightarrow> length t < length s"
proof -
  assume "skip_word w s = Some t"
  then have t: "t = dropWhile is_space (drop (length w) s)" and ne: "takeWhile is_space (drop (length w) s) \<noteq> []"
    by (simp_all add: skip_word_def split: if_splits)
  have "length (takeWhile is_space (drop (length w) s)) + length t = length s - length w"
    unfolding t by (metis length_append length_drop takeWhile_dropWhile_id)
  with ne show ?thesis by (cases "takeWhile is_space (drop (length w) s)") simp_all
qed

lemma match_crate_shorter: "match_crate s = Some (name, rest) \<Longrightarrow> length rest < length s"
proof -
  assume m: "match_crate s = Some (name, rest)"
  then obtain s1 s2 where s: "skip_word ''extern'' s = Some s1" "skip_word ''crate'' s1 = Some s2"
    and rest: "rest = tl (dropWhile is_space (dropWhile crate_char s2))"
    by (auto simp: match_crate_def Let_def split: option.splits if_splits)
  have "length rest \<le> length s2" unfolding rest
    by (metis diff_le_self dual_order.trans length_dropWhile_le length_tl)
  with s [THEN skip_word_shorter] show ?thesis by simp
qed

function extern_crates :: "string \<Rightarrow> string list" where
  \<comment> \<open>the loop \<open>while (item = re.exec(txt))\<close>: the search goes on where the last match ended\<close>
  "extern_crates s =
     (case match_crate s of
        Some (name, rest) \<Rightarrow> name # extern_crates rest
      | None \<Rightarrow> if s = [] then [] else extern_crates (tl s))"
  by pat_completeness auto
termination
  by (relation "measure length") (auto dest: match_crate_shorter)

declare extern_crates.simps [simp del]

section \<open>The button that runs a block\<close>

definition play_button_of :: "'a dom_scheme \<Rightarrow> ref \<Rightarrow> ref option" where
  \<comment> \<open>\<open>pre_block.querySelector('.play-button')\<close>\<close>
  "play_button_of s pre_block = query_first s pre_block (\<lambda>r. has_class s r ''play-button'')"

definition update_play_button :: "ref \<Rightarrow> string list \<Rightarrow> snippets \<Rightarrow> snippets outcome" where
  "update_play_button pre_block available s =
     (case (code_of s pre_block, play_button_of s pre_block) of
        (Some code_block, Some play_button) \<Rightarrow>
          if has_class s code_block ''no_run'' then Done (add_class play_button ''hidden'' s)
          else (case whole_text pre_block s of
              Inl e \<Rightarrow> Throws e s
            | Inr txt \<Rightarrow>
                if list_all (\<lambda>elem. elem \<in> set available) (extern_crates txt)
                then Done ((remove_class play_button ''hidden'' s)\<lparr>unhidden := play_button # unhidden s\<rparr>)
                else Done (add_class play_button ''hidden'' s))
      | _ \<Rightarrow> Throws TypeError s)"

definition handle_crate_list_update :: "ref \<Rightarrow> string list \<Rightarrow> snippets \<Rightarrow> snippets outcome" where
  \<comment> \<open>the listeners of the editor are recorded in \<open>watched\<close>\<close>
  "handle_crate_list_update block available s =
     and_then (update_play_button block available s)
       (\<lambda>s1. if \<not> has_ace s1 then Done s1
          else case code_of s1 block of
              None \<Rightarrow> Throws TypeError s1
            | Some code_block \<Rightarrow>
                Done (if has_class s1 code_block ''editable'' then s1\<lparr>watched := watched s1 @ [block]\<rparr> else s1))"

fun update_blocks :: "ref list \<Rightarrow> string list \<Rightarrow> snippets \<Rightarrow> snippets outcome" where
  \<comment> \<open>\<open>playgrounds.forEach\<close>: a block that throws ends it\<close>
  "update_blocks [] available s = Done s"
| "update_blocks (b # bs) available s =
     and_then (handle_crate_list_update b available s) (update_blocks bs available)"

section \<open>Running a block\<close>

definition find_result :: "ref \<Rightarrow> snippets \<Rightarrow> ref \<times> snippets" where
  \<comment> \<open>the element for the result, made when there is none\<close>
  "find_result code_block s =
     (case query_first s code_block (\<lambda>r. has_class s r ''result'') of
        Some r \<Rightarrow> (r, s)
      | None \<Rightarrow>
          (let (r, s1) = create_element ''CODE'' s;
               s2 = set_classes r [''result'', ''hljs'', ''language-bash''] s1
           in (r, append_child code_block r s2)))"

definition edition_of :: "string list \<Rightarrow> string" where
  "edition_of class_names =
     foldl (\<lambda>edition className. if starts_with className ''edition'' then drop 7 className else edition)
       ''2015'' class_names"

definition params_of :: "string \<Rightarrow> string list \<Rightarrow> run_params" where
  "params_of text class_names =
     \<lparr>version = (if contains_str text ''#![feature'' then ''nightly'' else ''stable''),
      optimize = ''0'', code_text = text, edition = edition_of class_names\<rparr>"

definition run_rust_code :: "ref \<Rightarrow> snippets \<Rightarrow> snippets outcome" where
  "run_rust_code code_block s =
     (let (r, s1) = find_result code_block s
      in case whole_text code_block s1 of
           Inl e \<Rightarrow> Throws e s1
         | Inr text \<Rightarrow>
             (case code_of s1 code_block of
                None \<Rightarrow> Throws TypeError s1
              | Some c \<Rightarrow>
                  (let s2 = emit (StartTimer 6000 ''timeout'') (set_content r ''Running...'' s1)
                   in Done (s2\<lparr>runs := runs s2 @
                        [\<lparr>result_block = r, params = params_of text (classes s1 c), stage = Racing\<rparr>]\<rparr>))))"

definition set_stage :: "nat \<Rightarrow> stage \<Rightarrow> snippets \<Rightarrow> snippets" where
  "set_stage i st s = s\<lparr>runs := (runs s)[i := (runs s ! i)\<lparr>stage := st\<rparr>]\<rparr>"

definition run_failed :: "nat \<Rightarrow> string \<Rightarrow> snippets \<Rightarrow> snippets" where
  \<comment> \<open>the handler of \<open>catch\<close>\<close>
  "run_failed i msg s =
     set_content (result_block (runs s ! i)) (''Playground Communication: '' @ msg) (set_stage i Settled s)"

definition run_answered :: "nat \<Rightarrow> string \<Rightarrow> snippets \<Rightarrow> snippets" where
  \<comment> \<open>the second \<open>then\<close>\<close>
  "run_answered i result s =
     (let r = result_block (runs s ! i); s1 = set_stage i Settled s
      in if trim result = ''''
         then add_class r ''result-no-output'' (set_content r ''No output'' s1)
         else remove_class r ''result-no-output'' (set_content r result s1))"

section \<open>Requests and listeners\<close>

text \<open>
  \<open>fetch_with_timeout\<close> is the race of the answer with a timer; a promise that is settled stays as it
  is. An answer is \<open>Inl\<close> a message when it is an error.
\<close>

datatype code_event =
    CratesFetched "string + unit"
  | CratesTimer
  | CratesRead "string + string list"
  | EditorChanged ref string
  | EditorRuns ref
  | PlayClicked ref
  | RunFetched nat "string + unit"
  | RunTimer nat
  | RunRead nat "string + string"

definition start_crates :: "snippets \<Rightarrow> snippets" where
  "start_crates s =
     (let s1 = s\<lparr>playgrounds := query_all s html_root (\<lambda>r. has_class s r ''playground'')\<rparr>
      in if playgrounds s1 \<noteq> [] then emit (StartTimer 6000 ''timeout'') (s1\<lparr>crates_stage := Racing\<rparr>)
         else s1\<lparr>crates_stage := Settled\<rparr>)"

definition editor_changed :: "ref \<Rightarrow> string \<Rightarrow> snippets \<Rightarrow> snippets" where
  "editor_changed block txt s =
     (case code_of s block of
        None \<Rightarrow> s
      | Some c \<Rightarrow>
          (let s1 = s\<lparr>editor_text := (editor_text s)(c := txt)\<rparr>
           in if block \<in> set (watched s1) then final (update_play_button block (playground_crates s1) s1)
              else s1))"

definition running :: "nat \<Rightarrow> stage \<Rightarrow> snippets \<Rightarrow> bool" where
  "running i st s \<longleftrightarrow> i < length (runs s) \<and> stage (runs s ! i) = st"

fun code_step :: "code_event \<Rightarrow> snippets \<Rightarrow> snippets" where
  "code_step (CratesFetched a) s =
     (if crates_stage s = Racing
      then s\<lparr>crates_stage := (case a of Inl _ \<Rightarrow> Settled | Inr _ \<Rightarrow> Reading)\<rparr> else s)"
| "code_step CratesTimer s = (if crates_stage s = Racing then s\<lparr>crates_stage := Settled\<rparr> else s)"
| "code_step (CratesRead a) s =
     (if crates_stage s = Reading
      then (case a of
          Inl _ \<Rightarrow> s\<lparr>crates_stage := Settled\<rparr>
        | Inr available \<Rightarrow>
            final (update_blocks (playgrounds s) available
              (s\<lparr>crates_stage := Settled, playground_crates := available\<rparr>)))
      else s)"
| "code_step (EditorChanged block txt) s = editor_changed block txt s"
| "code_step (EditorRuns block) s =
     (if block \<in> set (watched s) then final (run_rust_code block s) else s)"
| "code_step (PlayClicked block) s = final (run_rust_code block s)"
| "code_step (RunFetched i a) s =
     (if running i Racing s
      then (case a of Inl msg \<Rightarrow> run_failed i msg s | Inr _ \<Rightarrow> set_stage i Reading s) else s)"
| "code_step (RunTimer i) s = (if running i Racing s then run_failed i ''timeout'' s else s)"
| "code_step (RunRead i a) s =
     (if running i Reading s
      then (case a of Inl msg \<Rightarrow> run_failed i msg s | Inr result \<Rightarrow> run_answered i result s) else s)"

section \<open>What the expression means\<close>

definition blank :: "string \<Rightarrow> bool" where
  "blank w \<longleftrightarrow> w \<noteq> [] \<and> list_all is_space w"

inductive crate_at :: "string \<Rightarrow> string \<Rightarrow> string \<Rightarrow> bool" where
  \<comment> \<open>the text starts with a match; its group, and what follows it\<close>
  crate_here: "blank w1 \<Longrightarrow> blank w2 \<Longrightarrow> name \<noteq> [] \<Longrightarrow> list_all crate_char name \<Longrightarrow> list_all is_space w3
    \<Longrightarrow> crate_at (''extern'' @ w1 @ ''crate'' @ w2 @ name @ w3 @ '';'' @ rest) name rest"

inductive scans :: "string \<Rightarrow> string list \<Rightarrow> bool" where
  \<comment> \<open>the groups of all matches, each the leftmost one after the match before\<close>
  no_match: "(\<And>k name rest. \<not> crate_at (drop k s) name rest) \<Longrightarrow> scans s []"
| next_match: "(\<And>k n r. k < length u \<Longrightarrow> \<not> crate_at (drop k (u @ v)) n r) \<Longrightarrow> crate_at v name rest
    \<Longrightarrow> scans rest names \<Longrightarrow> scans (u @ v) (name # names)"

inductive_cases crate_at_elim: "crate_at s name rest"

lemma skip_word_iff:
  "skip_word w s = Some t \<longleftrightarrow> (\<exists>b. blank b \<and> s = w @ b @ t \<and> (t = [] \<or> \<not> is_space (hd t)))"
proof
  assume "skip_word w s = Some t"
  then have w: "starts_with s w" and ne: "takeWhile is_space (drop (length w) s) \<noteq> []"
    and t: "t = dropWhile is_space (drop (length w) s)"
    by (auto simp: skip_word_def split: if_splits)
  have "s = w @ takeWhile is_space (drop (length w) s) @ t"
    using w unfolding t starts_with_def by (metis append_take_drop_id takeWhile_dropWhile_id)
  moreover have "blank (takeWhile is_space (drop (length w) s))"
    using ne by (auto simp: blank_def list_all_iff dest: set_takeWhileD)
  moreover have "t = [] \<or> \<not> is_space (hd t)" using hd_dropWhile unfolding t by blast
  ultimately show "\<exists>b. blank b \<and> s = w @ b @ t \<and> (t = [] \<or> \<not> is_space (hd t))" by blast
next
  assume "\<exists>b. blank b \<and> s = w @ b @ t \<and> (t = [] \<or> \<not> is_space (hd t))"
  then obtain b where b: "blank b" "s = w @ b @ t" "t = [] \<or> \<not> is_space (hd t)" by blast
  then show "skip_word w s = Some t"
    using while_app [of is_space b t] by (simp add: skip_word_def starts_with_def blank_def)
qed

lemma crate_char_not_space: "crate_char c \<Longrightarrow> \<not> is_space c"
  by (auto simp: crate_char_def is_space_def Let_def)

lemma word_hd: "\<not> is_space (CHR ''c'')" "\<not> is_space (CHR '';'')" "\<not> crate_char (CHR '';'')"
  by (simp_all add: is_space_def crate_char_def code_def)

lemma match_crate_iff: "match_crate s = Some (name, rest) \<longleftrightarrow> crate_at s name rest"
proof
  assume "match_crate s = Some (name, rest)"
  then obtain s1 s2 where s: "skip_word ''extern'' s = Some s1" "skip_word ''crate'' s1 = Some s2"
    and name: "name = takeWhile crate_char s2" "name \<noteq> []"
    and rest: "starts_with (dropWhile is_space (dropWhile crate_char s2)) '';''"
      "rest = tl (dropWhile is_space (dropWhile crate_char s2))"
    by (auto simp: match_crate_def Let_def split: option.splits if_splits)
  obtain b1 b2 where b: "blank b1" "s = ''extern'' @ b1 @ s1" "blank b2" "s1 = ''crate'' @ b2 @ s2"
    using s by (auto simp: skip_word_iff)
  let ?w3 = "takeWhile is_space (dropWhile crate_char s2)"
  have "dropWhile is_space (dropWhile crate_char s2) = '';'' @ rest"
    using rest by (cases "dropWhile is_space (dropWhile crate_char s2)") (simp_all add: starts_with_def)
  then have "s2 = name @ ?w3 @ '';'' @ rest"
    unfolding name(1) by (metis takeWhile_dropWhile_id)
  moreover have "list_all crate_char name" "list_all is_space ?w3"
    unfolding name(1) by (auto simp: list_all_iff dest: set_takeWhileD)
  ultimately show "crate_at s name rest"
    using crate_here [OF b(1,3) name(2), of ?w3 rest] b(2,4) by simp
next
  assume "crate_at s name rest"
  then show "match_crate s = Some (name, rest)"
  proof cases
    case (crate_here w1 w2 w3)
    let ?tail = "w3 @ '';'' @ rest"
    let ?s2 = "name @ ?tail"
    have hd: "\<not> is_space (hd ?s2)" "?tail = [] \<or> \<not> crate_char (hd ?tail)"
      using crate_here(4-6) crate_char_not_space word_hd(3)
      by (cases name; cases w3; auto)+
    have "skip_word ''extern'' s = Some (''crate'' @ w2 @ ?s2)"
      unfolding skip_word_iff using crate_here(1,2) word_hd(1) by auto
    moreover have "skip_word ''crate'' (''crate'' @ w2 @ ?s2) = Some ?s2"
      unfolding skip_word_iff using crate_here(3) hd(1) by blast
    moreover have "takeWhile crate_char ?s2 = name" "dropWhile crate_char ?s2 = ?tail"
      using while_app [OF crate_here(5) hd(2)] by simp_all
    moreover have "dropWhile is_space ?tail = '';'' @ rest"
      using while_app(2) [OF crate_here(6), of "'';'' @ rest"] word_hd(2) by simp
    ultimately show ?thesis using crate_here(4) by (simp add: match_crate_def Let_def starts_with_def)
  qed
qed

lemma match_crate_None: "match_crate s = None \<longleftrightarrow> (\<forall>name rest. \<not> crate_at s name rest)"
  by (metis match_crate_iff not_Some_eq surj_pair)

lemma crate_at_not_Nil: "\<not> crate_at [] name rest"
  by (auto elim: crate_at_elim)

lemma extern_crates_skip:
  assumes "\<And>k n r. k < length u \<Longrightarrow> \<not> crate_at (drop k (u @ v)) n r"
  shows "extern_crates (u @ v) = extern_crates v"
  using assms
proof (induction u)
  case (Cons a u)
  have "match_crate ((a # u) @ v) = None"
    unfolding match_crate_None using Cons.prems [of 0] by simp
  moreover have "extern_crates (u @ v) = extern_crates v"
    using Cons.prems [of "Suc _"] by (intro Cons.IH) simp
  ultimately show ?case by (subst extern_crates.simps) simp
qed simp

lemma extern_crates_none:
  assumes "\<And>k n r. \<not> crate_at (drop k s) n r"
  shows "extern_crates s = []"
proof -
  have "match_crate [] = None" using crate_at_not_Nil by (simp add: match_crate_None)
  then have "extern_crates [] = []" by (subst extern_crates.simps) simp
  then show ?thesis using extern_crates_skip [of s "[]"] assms by simp
qed

lemma scans_before:
  assumes "scans s names" and "\<And>n r. \<not> crate_at (c # s) n r"
  shows "scans (c # s) names"
  using assms(1)
proof cases
  case no_match
  have "\<not> crate_at (drop k (c # s)) n r" for k n r
    using no_match(2) assms(2) by (cases k) simp_all
  then show ?thesis using no_match(1) scans.no_match by simp
next
  case (next_match u v name rest names')
  have "\<not> crate_at (drop k ((c # u) @ v)) n r" if "k < length (c # u)" for k n r
    using that next_match(1,3) assms(2) by (cases k) simp_all
  then show ?thesis using scans.next_match [of "c # u" v name rest names'] next_match by simp
qed

section \<open>Properties of the crates\<close>

text \<open>
  C24: The crates a block names are exactly the groups of the matches of the expression, each match
  the leftmost one in what the one before has left.
\<close>

theorem extern_crates_found: "extern_crates s = names \<longleftrightarrow> scans s names"
proof
  assume "extern_crates s = names"
  moreover have "scans s (extern_crates s)"
  proof (induction s rule: extern_crates.induct)
    case (1 s)
    show ?case
    proof (cases "match_crate s")
      case None
      show ?thesis
      proof (cases s)
        case Nil
        then show ?thesis
          using extern_crates_none [of s] scans.no_match [of s] crate_at_not_Nil by simp
      next
        case (Cons c t)
        then have "scans (c # t) (extern_crates t)"
          using "1.IH"(1) [OF None] None by (intro scans_before) (simp_all add: match_crate_None)
        then show ?thesis using Cons None by (subst extern_crates.simps) simp
      qed
    next
      case (Some nr)
      then obtain name rest where m: "match_crate s = Some (name, rest)" by (cases nr) simp
      then have "scans rest (extern_crates rest)" using "1.IH"(2) by simp
      then have "scans ([] @ s) (name # extern_crates rest)"
        using m by (intro next_match) (simp_all add: match_crate_iff)
      then show ?thesis using m by (subst extern_crates.simps) simp
    qed
  qed
  ultimately show "scans s names" by simp
next
  assume "scans s names"
  then show "extern_crates s = names"
  proof induction
    case (no_match s)
    then show ?case by (rule extern_crates_none)
  next
    case (next_match u v name rest names)
    then have "extern_crates (u @ v) = extern_crates v" by (intro extern_crates_skip)
    moreover have "match_crate v = Some (name, rest)" using next_match by (simp add: match_crate_iff)
    ultimately show ?case using next_match.IH by (subst (asm) (2) extern_crates.simps) simp
  qed
qed

section \<open>Frames\<close>

lemma code_frame [dom_simps, simp]:
  "has_ace (add_class r c d) = has_ace d" "editor_text (add_class r c d) = editor_text d" "unhidden (add_class r c d) = unhidden d" "playgrounds (add_class r c d) = playgrounds d" "crates_stage (add_class r c d) = crates_stage d" "playground_crates (add_class r c d) = playground_crates d" "watched (add_class r c d) = watched d" "runs (add_class r c d) = runs d"
  "has_ace (remove_class r c d) = has_ace d" "editor_text (remove_class r c d) = editor_text d" "unhidden (remove_class r c d) = unhidden d" "playgrounds (remove_class r c d) = playgrounds d" "crates_stage (remove_class r c d) = crates_stage d" "playground_crates (remove_class r c d) = playground_crates d" "watched (remove_class r c d) = watched d" "runs (remove_class r c d) = runs d"
  "has_ace (set_classes r cs d) = has_ace d" "editor_text (set_classes r cs d) = editor_text d" "unhidden (set_classes r cs d) = unhidden d" "playgrounds (set_classes r cs d) = playgrounds d" "crates_stage (set_classes r cs d) = crates_stage d" "playground_crates (set_classes r cs d) = playground_crates d" "watched (set_classes r cs d) = watched d" "runs (set_classes r cs d) = runs d"
  "has_ace (set_content r v d) = has_ace d" "editor_text (set_content r v d) = editor_text d" "unhidden (set_content r v d) = unhidden d" "playgrounds (set_content r v d) = playgrounds d" "crates_stage (set_content r v d) = crates_stage d" "playground_crates (set_content r v d) = playground_crates d" "watched (set_content r v d) = watched d" "runs (set_content r v d) = runs d"
  "has_ace (snd (create_element t d)) = has_ace d" "editor_text (snd (create_element t d)) = editor_text d" "unhidden (snd (create_element t d)) = unhidden d" "playgrounds (snd (create_element t d)) = playgrounds d" "crates_stage (snd (create_element t d)) = crates_stage d" "playground_crates (snd (create_element t d)) = playground_crates d" "watched (snd (create_element t d)) = watched d" "runs (snd (create_element t d)) = runs d"
  "has_ace (append_child p r d) = has_ace d" "editor_text (append_child p r d) = editor_text d" "unhidden (append_child p r d) = unhidden d" "playgrounds (append_child p r d) = playgrounds d" "crates_stage (append_child p r d) = crates_stage d" "playground_crates (append_child p r d) = playground_crates d" "watched (append_child p r d) = watched d" "runs (append_child p r d) = runs d"
  by (simp_all add: add_class_def remove_class_def toggle_class_def set_classes_def set_attr_def
      set_content_def set_display_def set_ident_def create_element_def append_child_def
      remove_node_def insert_before_def Let_def split: option.split)

lemma code_page_frame [dom_simps, simp]:
  "has_ace (emit e d) = has_ace d" "editor_text (emit e d) = editor_text d" "unhidden (emit e d) = unhidden d" "playgrounds (emit e d) = playgrounds d" "crates_stage (emit e d) = crates_stage d" "playground_crates (emit e d) = playground_crates d" "watched (emit e d) = watched d" "runs (emit e d) = runs d"
  by (simp_all add: emit_def)

lemma code_fields_frame [simp]:
  "has_class (s\<lparr>unhidden := x_unhidden\<rparr>) = has_class s"
  "has_class (s\<lparr>crates_stage := x_crates_stage\<rparr>) = has_class s"
  "has_class (s\<lparr>playground_crates := x_playground_crates\<rparr>) = has_class s"
  "has_class (s\<lparr>watched := x_watched\<rparr>) = has_class s"
  "has_class (s\<lparr>runs := x_runs\<rparr>) = has_class s"
  "has_class (s\<lparr>editor_text := x_editor_text\<rparr>) = has_class s"
  by (simp_all add: has_class_def fun_eq_iff)

section \<open>The crates arrive\<close>

definition runnable :: "snippets \<Rightarrow> ref \<Rightarrow> bool" where
  \<comment> \<open>a button a reader can press\<close>
  "runnable s b \<longleftrightarrow> b \<in> set (unhidden s) \<and> \<not> has_class s b ''hidden''"

definition block_parts :: "snippets \<Rightarrow> ref \<times> ref \<times> ref \<Rightarrow> bool" where
  \<comment> \<open>a block with its code and its button\<close>
  "block_parts s = (\<lambda>(p, c, b). code_of s p = Some c \<and> play_button_of s p = Some b)"

definition may_run :: "snippets \<Rightarrow> ref \<Rightarrow> string list \<Rightarrow> bool" where
  "may_run s c available \<longleftrightarrow>
     \<not> has_class s c ''no_run''
     \<and> set (extern_crates (if has_ace s \<and> has_class s c ''editable'' then editor_text s c else content s c))
         \<subseteq> set available"

text \<open>All that an update looks at, apart from the buttons.\<close>

definition same_blocks :: "snippets \<Rightarrow> snippets \<Rightarrow> bool" where
  "same_blocks s t \<longleftrightarrow> kids t = kids s \<and> tag t = tag s \<and> nodes t = nodes s \<and> content t = content s
     \<and> has_ace t = has_ace s \<and> editor_text t = editor_text s
     \<and> (\<forall>r k. k \<noteq> ''hidden'' \<longrightarrow> has_class t r k = has_class s r k)"

lemma same_blocks_refl [simp]: "same_blocks s s"
  by (simp add: same_blocks_def)

lemma same_blocks_trans: "same_blocks s t \<Longrightarrow> same_blocks t u \<Longrightarrow> same_blocks s u"
  by (simp add: same_blocks_def)

lemma same_blocks_below:
  assumes "same_blocks s t"
  shows "below n t r = below n s r"
  by (rule below_frame) (use assms in \<open>simp add: same_blocks_def\<close>)

lemma same_blocks_reads:
  assumes "same_blocks s t"
  shows "code_of t p = code_of s p" "play_button_of t p = play_button_of s p" "may_run t c a = may_run s c a"
    "block_parts t x = block_parts s x"
proof -
  have b: "below n t r = below n s r" for n r by (rule same_blocks_below [OF assms])
  show c: "code_of t p = code_of s p" "play_button_of t p = play_button_of s p" for p
    using assms by (simp_all add: code_of_def play_button_of_def query_first_def b same_blocks_def)
  show "may_run t c a = may_run s c a" using assms by (simp add: may_run_def same_blocks_def)
  show "block_parts t x = block_parts s x" by (simp add: block_parts_def c)
qed

lemma update_play_button_read:
  assumes "block_parts s (p, c, b)"
  shows "\<exists>t. update_play_button p available s = Done t \<and> same_blocks s t \<and> runnable t b = may_run s c available
    \<and> (\<forall>b'. b' \<noteq> b \<longrightarrow> runnable t b' = runnable s b') \<and> watched t = watched s"
proof -
  have p: "code_of s p = Some c" "play_button_of s p = Some b" using assms by (simp_all add: block_parts_def)
  then have "whole_text p s = Inr (if has_ace s \<and> has_class s c ''editable'' then editor_text s c else content s c)"
    by (simp add: whole_text_def playground_text_def)
  then show ?thesis using p
    by (auto simp: update_play_button_def same_blocks_def runnable_def may_run_def list_all_iff subset_iff)
qed

lemma handle_crate_list_read:
  assumes "block_parts s (p, c, b)"
  shows "\<exists>t. handle_crate_list_update p available s = Done t \<and> same_blocks s t \<and> runnable t b = may_run s c available
    \<and> (\<forall>b'. b' \<noteq> b \<longrightarrow> runnable t b' = runnable s b')"
proof -
  obtain u where u: "update_play_button p available s = Done u" "same_blocks s u"
    "runnable u b = may_run s c available" "\<forall>b'. b' \<noteq> b \<longrightarrow> runnable u b' = runnable s b'"
    using update_play_button_read [OF assms, of available] by blast
  have "code_of u p = Some c" using u(2) assms by (simp add: same_blocks_reads block_parts_def)
  moreover have "same_blocks s (u\<lparr>watched := ws\<rparr>)" "runnable (u\<lparr>watched := ws\<rparr>) r = runnable u r" for ws r
    using u(2) by (simp_all add: same_blocks_def runnable_def)
  ultimately show ?thesis using u by (auto simp: handle_crate_list_update_def)
qed

lemma update_blocks_read:
  assumes "list_all (block_parts s) parts" and "distinct (map (snd \<circ> snd) parts)"
  shows "\<exists>t. update_blocks (map fst parts) available s = Done t \<and> same_blocks s t
    \<and> (\<forall>(p, c, b) \<in> set parts. runnable t b = may_run s c available)
    \<and> (\<forall>b. b \<notin> set (map (snd \<circ> snd) parts) \<longrightarrow> runnable t b = runnable s b)"
  using assms
proof (induction parts arbitrary: s)
  case (Cons x parts)
  obtain p c b where x: "x = (p, c, b)" by (cases x)
  then obtain u where u: "handle_crate_list_update p available s = Done u" "same_blocks s u"
    "runnable u b = may_run s c available" "\<forall>b'. b' \<noteq> b \<longrightarrow> runnable u b' = runnable s b'"
    using handle_crate_list_read [of s p c b available] Cons.prems(1) by auto
  have "list_all (block_parts u) parts" using Cons.prems(1) u(2) by (simp add: list_all_iff same_blocks_reads)
  then obtain t where t: "update_blocks (map fst parts) available u = Done t" "same_blocks u t"
    "\<forall>(p, c, b) \<in> set parts. runnable t b = may_run u c available"
    "\<forall>b. b \<notin> set (map (snd \<circ> snd) parts) \<longrightarrow> runnable t b = runnable u b"
    using Cons.IH [of u] Cons.prems(2) by auto
  have "b \<notin> set (map (snd \<circ> snd) parts)" using Cons.prems(2) x by simp
  then show ?case
    using x u t same_blocks_trans [OF u(2) t(2)] by (auto simp: same_blocks_reads(3) [OF u(2)])
qed simp

section \<open>The runs\<close>

lemma update_play_button_runs: "runs (final (update_play_button p available s)) = runs s"
  by (auto simp: update_play_button_def split: option.split sum.split)

lemma and_then_runs:
  assumes "\<And>s. runs (final (f s)) = runs s"
  shows "runs (final (and_then o' f)) = runs (final o')"
  using assms by (cases o') simp_all

lemma handle_crate_list_runs: "runs (final (handle_crate_list_update p available s)) = runs s"
  unfolding handle_crate_list_update_def
  by (subst and_then_runs) (auto simp: update_play_button_runs split: option.split)

lemma update_blocks_runs: "runs (final (update_blocks bs available s)) = runs s"
proof (induction bs arbitrary: s)
  case (Cons b bs)
  show ?case
    using handle_crate_list_runs [of b available s] Cons.IH
    by (cases "handle_crate_list_update b available s") simp_all
qed simp

lemma run_rust_code_runs: "\<exists>new. runs (final (run_rust_code b s)) = runs s @ new"
proof -
  have "runs (snd (find_result b s)) = runs s"
    by (auto simp: find_result_def Let_def split: option.split prod.split) (metis code_frame snd_conv)+
  then show ?thesis
    by (auto simp: run_rust_code_def Let_def split: prod.split sum.split option.split)
qed

lemma stage_read:
  "running j st (set_stage i st' s) =
     (if j = i \<and> i < length (runs s) then st = st' else running j st s)"
  by (auto simp: running_def set_stage_def nth_list_update)

lemma run_ends_read:
  "running j st (run_failed i msg s) = running j st (set_stage i Settled s)"
  "running j st (run_answered i result s) = running j st (set_stage i Settled s)"
  by (simp_all add: run_failed_def run_answered_def running_def Let_def)

lemma running_kept:
  assumes "running j st s" and "runs t = runs s @ new"
  shows "running j st t"
  using assms by (simp add: running_def nth_append)

text \<open>The stages of one run, whatever else happens: each run refines this machine of three states.\<close>

definition run_stage :: "nat \<Rightarrow> code_event \<Rightarrow> stage \<Rightarrow> stage" where
  "run_stage i e st =
     (case e of
        RunFetched j a \<Rightarrow>
          if j = i \<and> st = Racing then (case a of Inl _ \<Rightarrow> Settled | Inr _ \<Rightarrow> Reading) else st
      | RunTimer j \<Rightarrow> if j = i \<and> st = Racing then Settled else st
      | RunRead j a \<Rightarrow> if j = i \<and> st = Reading then Settled else st
      | _ \<Rightarrow> st)"

lemma running_unique: "running i st s \<Longrightarrow> running i st' s \<longleftrightarrow> st' = st"
  by (auto simp: running_def)

lemma running_same_runs: "runs t = runs s \<Longrightarrow> running i st t = running i st s"
  by (simp add: running_def)

lemma running_step:
  assumes "running i st s"
  shows "running i (run_stage i e st) (code_step e s)"
proof (cases e)
  case (PlayClicked b)
  then show ?thesis using running_kept [OF assms] run_rust_code_runs [of b s] by (auto simp: run_stage_def)
next
  case (EditorRuns b)
  then show ?thesis
    using assms running_kept [OF assms] run_rust_code_runs [of b s] by (auto simp: run_stage_def)
next
  case (CratesRead a)
  have "runs (code_step (CratesRead a) s) = runs s"
    by (cases a) (simp_all add: update_blocks_runs)
  then have "running i st (code_step (CratesRead a) s)" using assms running_same_runs by blast
  then show ?thesis using CratesRead by (simp add: run_stage_def del: code_step.simps)
next
  case (EditorChanged b new)
  have "runs (editor_changed b new s) = runs s"
    by (simp add: editor_changed_def update_play_button_runs Let_def split: option.split)
  then have "running i st (editor_changed b new s)" using assms running_same_runs by blast
  then show ?thesis using EditorChanged by (simp add: run_stage_def)
next
  case (CratesFetched a)
  then show ?thesis using assms by (simp add: run_stage_def running_def)
next
  case CratesTimer
  then show ?thesis using assms by (simp add: run_stage_def running_def)
next
  case (RunFetched j a)
  then show ?thesis using assms running_unique [OF assms, of Racing]
    by (cases a; cases "j = i") (auto simp: run_stage_def run_ends_read stage_read, auto simp: running_def)
next
  case (RunTimer j)
  then show ?thesis using assms running_unique [OF assms, of Racing]
    by (cases "j = i") (auto simp: run_stage_def run_ends_read stage_read, auto simp: running_def)
next
  case (RunRead j a)
  then show ?thesis using assms running_unique [OF assms, of Reading]
    by (cases a; cases "j = i") (auto simp: run_stage_def run_ends_read stage_read, auto simp: running_def)
qed

lemma running_run:
  "running i st s \<Longrightarrow> running i (fold (run_stage i) es st) (fold code_step es s)"
  by (induction es arbitrary: st s) (auto dest: running_step)

lemma run_stage_forward: "st \<le> run_stage i e st"
  by (cases st; cases e) (auto simp: run_stage_def less_eq_stage_def split: sum.split)

interpretation run_at_least: machine "run_stage i" "\<lambda>st. low \<le> st" for i low
  by unfold_locales (rule order_trans [OF _ run_stage_forward])

section \<open>What a run reports\<close>

datatype run_report = Failed string | Answered string

definition report_text :: "run_report \<Rightarrow> string" where
  "report_text rep = (case rep of
     Failed msg \<Rightarrow> ''Playground Communication: '' @ msg
   | Answered out \<Rightarrow> if trim out = '''' then ''No output'' else out)"

definition ends_race :: "nat \<Rightarrow> code_event \<Rightarrow> bool" where
  "ends_race i e \<longleftrightarrow> (case e of RunTimer j \<Rightarrow> j = i | RunFetched j a \<Rightarrow> j = i | _ \<Rightarrow> False)"

definition reads_body :: "nat \<Rightarrow> code_event \<Rightarrow> bool" where
  "reads_body i e \<longleftrightarrow> (case e of RunRead j a \<Rightarrow> j = i | _ \<Rightarrow> False)"

definition body_report :: "nat \<Rightarrow> code_event list \<Rightarrow> run_report option" where
  "body_report i es = (case dropWhile (\<lambda>e. \<not> reads_body i e) es of
     RunRead j (Inl msg) # rest \<Rightarrow> Some (Failed msg)
   | RunRead j (Inr out) # rest \<Rightarrow> Some (Answered out)
   | _ \<Rightarrow> None)"

definition run_report :: "nat \<Rightarrow> code_event list \<Rightarrow> run_report option" where
  \<comment> \<open>what the run reports when these events happen\<close>
  "run_report i es = (case dropWhile (\<lambda>e. \<not> ends_race i e) es of
     RunTimer j # rest \<Rightarrow> Some (Failed ''timeout'')
   | RunFetched j (Inl msg) # rest \<Rightarrow> Some (Failed msg)
   | RunFetched j (Inr u) # rest \<Rightarrow> body_report i rest
   | _ \<Rightarrow> None)"

text \<open>Event by event, in every stage.\<close>

definition reported :: "stage \<Rightarrow> nat \<Rightarrow> code_event list \<Rightarrow> run_report option" where
  "reported st i es = (case st of Racing \<Rightarrow> run_report i es | Reading \<Rightarrow> body_report i es | Settled \<Rightarrow> None)"

definition reports_now :: "stage \<Rightarrow> nat \<Rightarrow> code_event \<Rightarrow> run_report option" where
  "reports_now st i e = (case e of
     RunTimer j \<Rightarrow> if j = i \<and> st = Racing then Some (Failed ''timeout'') else None
   | RunFetched j a \<Rightarrow> (case a of Inl msg \<Rightarrow> if j = i \<and> st = Racing then Some (Failed msg) else None | Inr u \<Rightarrow> None)
   | RunRead j a \<Rightarrow> if j = i \<and> st = Reading
        then Some (case a of Inl msg \<Rightarrow> Failed msg | Inr out \<Rightarrow> Answered out) else None
   | _ \<Rightarrow> None)"

lemma reported_Nil: "reported st i [] = None"
  by (cases st) (simp_all add: reported_def run_report_def body_report_def)

lemma reported_Cons:
  "reported st i (e # es) = (case reports_now st i e of None \<Rightarrow> reported (run_stage i e st) i es | Some rep \<Rightarrow> Some rep)"
proof (cases st)
  case Racing
  then show ?thesis
    by (cases e) (auto simp: reported_def reports_now_def run_stage_def run_report_def ends_race_def split: sum.split)
next
  case Reading
  then show ?thesis
    by (cases e) (auto simp: reported_def reports_now_def run_stage_def body_report_def reads_body_def split: sum.split)
next
  case Settled
  then show ?thesis
    by (cases e) (auto simp: reported_def reports_now_def run_stage_def split: sum.split)
qed

lemma reports_settle: "run_stage i e st = Settled \<longleftrightarrow> st = Settled \<or> reports_now st i e \<noteq> None"
  by (cases st; cases e) (auto simp: reports_now_def run_stage_def split: sum.split)

lemma run_stages_settle: "fold (run_stage i) es st = Settled \<longleftrightarrow> st = Settled \<or> reported st i es \<noteq> None"
proof (induction es arbitrary: st)
  case (Cons e es)
  then show ?case using reports_settle [of i e st]
    by (auto simp: reported_Cons split: option.split)
qed (simp add: reported_Nil)

text \<open>Who writes into the element of a run.\<close>

definition quiet :: "nat \<Rightarrow> ref \<Rightarrow> snippets \<Rightarrow> snippets \<Rightarrow> bool" where
  \<comment> \<open>all other runs in \<open>t\<close> that write into \<open>r\<close> were over in \<open>s\<close>\<close>
  "quiet i r s t \<longleftrightarrow> (\<forall>j < length (runs t). result_block (runs t ! j) = r \<longrightarrow> j = i \<or> running j Settled s)"

lemma find_result_elsewhere:
  assumes "known s r"
  shows "content (snd (find_result b s)) r = content s r" "has_class (snd (find_result b s)) r k = has_class s r k"
    "known (snd (find_result b s)) r" "runs (snd (find_result b s)) = runs s"
proof -
  let ?n = "snd (create_element ''CODE'' s)"
  have n: "create_element ''CODE'' s = (Node (fresh s), ?n)" by (metis create_fst prod.collapse)
  have r: "r \<noteq> Node (fresh s)" using assms by (auto simp: known_def)
  have f: "find_result b s = (case query_first s b (\<lambda>r. has_class s r ''result'') of
      Some x \<Rightarrow> (x, s)
    | None \<Rightarrow> (Node (fresh s), append_child b (Node (fresh s)) (set_classes (Node (fresh s)) [''result'', ''hljs'', ''language-bash''] ?n)))"
    unfolding find_result_def by (subst n) (simp only: Let_def prod.case)
  have c: "content ?n r = content s r" using r by (simp add: create_element_def Let_def)
  show "content (snd (find_result b s)) r = content s r" "has_class (snd (find_result b s)) r k = has_class s r k"
    "known (snd (find_result b s)) r" "runs (snd (find_result b s)) = runs s"
    using r c assms
    by (auto simp: f tree_ops_frame has_class_def set_classes_writes create_writes known_def split: option.split)
      (simp add: set_classes_def)
qed

lemma run_rust_code_elsewhere:
  assumes "known s r" and "runs (final (run_rust_code b s)) = runs s @ new" and "\<forall>x \<in> set new. result_block x \<noteq> r"
  shows "content (final (run_rust_code b s)) r = content s r"
    and "has_class (final (run_rust_code b s)) r k = has_class s r k" and "known (final (run_rust_code b s)) r"
proof -
  obtain rb s1 where f: "find_result b s = (rb, s1)" by fastforce
  then have s1: "content s1 r = content s r" "has_class s1 r k = has_class s r k" "known s1 r" "runs s1 = runs s"
    using find_result_elsewhere [OF assms(1), of b] by simp_all
  have "content (final (run_rust_code b s)) r = content s1 r \<and> has_class (final (run_rust_code b s)) r k = has_class s1 r k
      \<and> known (final (run_rust_code b s)) r"
    using assms(2,3) s1(3,4)
    by (auto simp: run_rust_code_def Let_def f known_def has_class_def emit_def set_content_def split: sum.splits option.splits)
  then show "content (final (run_rust_code b s)) r = content s r"
    "has_class (final (run_rust_code b s)) r k = has_class s r k" "known (final (run_rust_code b s)) r"
    using s1 by simp_all
qed

text \<open>What stays of an element.\<close>

definition text_kept :: "ref \<Rightarrow> snippets \<Rightarrow> snippets \<Rightarrow> bool" where
  "text_kept r s t \<longleftrightarrow> content t r = content s r \<and> has_class t r ''result-no-output'' = has_class s r ''result-no-output''
     \<and> (known s r \<longrightarrow> known t r)"

lemma text_kept_refl [simp]: "text_kept r s s"
  by (simp add: text_kept_def)

lemma text_kept_trans: "text_kept r s t \<Longrightarrow> text_kept r t u \<Longrightarrow> text_kept r s u"
  by (simp add: text_kept_def)

lemma text_kept_fields [simp]:
  "text_kept r s (s\<lparr>watched := ws\<rparr>)" "text_kept r s (s\<lparr>crates_stage := st\<rparr>)"
  "text_kept r s (s\<lparr>crates_stage := st, playground_crates := cs\<rparr>)" "text_kept r s (s\<lparr>editor_text := f\<rparr>)"
  "text_kept r s (set_stage i st' s)"
  by (simp_all add: text_kept_def known_def set_stage_def)

lemma update_play_button_text: "text_kept r s (final (update_play_button p available s))"
  by (auto simp: update_play_button_def text_kept_def known_def split: option.split sum.split)

lemma update_blocks_text: "text_kept r s (final (update_blocks bs available s))"
proof (induction bs arbitrary: s)
  case (Cons b bs)
  have "text_kept r s (final (handle_crate_list_update b available s))"
  proof (cases "update_play_button b available s")
    case (Done u)
    then have "text_kept r s u" using update_play_button_text [of r s b available] by simp
    then show ?thesis using Done text_kept_trans [OF _ text_kept_fields(1)]
      by (auto simp: handle_crate_list_update_def split: option.split)
  qed (use update_play_button_text [of r s b available] in \<open>simp add: handle_crate_list_update_def\<close>)
  then show ?case using Cons.IH text_kept_trans by (cases "handle_crate_list_update b available s") auto
qed simp

text \<open>One event.\<close>

lemma runs_step:
  "length (runs s) \<le> length (runs (code_step e s)) \<and>
   (\<forall>j < length (runs s). result_block (runs (code_step e s) ! j) = result_block (runs s ! j))"
proof -
  have set: "length (runs (set_stage k st s)) = length (runs s) \<and>
      (\<forall>j < length (runs s). result_block (runs (set_stage k st s) ! j) = result_block (runs s ! j))" for k st
    by (cases "k < length (runs s)") (auto simp: set_stage_def nth_list_update list_update_beyond)
  have ends: "runs (run_failed k msg s) = runs (set_stage k Settled s)" "runs (run_answered k out s) = runs (set_stage k Settled s)" for k msg out
    by (simp_all add: run_failed_def run_answered_def Let_def)
  have click: "length (runs s) \<le> length (runs (final (run_rust_code b s))) \<and>
      (\<forall>j < length (runs s). result_block (runs (final (run_rust_code b s)) ! j) = result_block (runs s ! j))" for b
    using run_rust_code_runs [of b s] by (auto simp: nth_append)
  show ?thesis
    by (cases e) (use set click in \<open>auto simp: ends update_blocks_runs editor_changed_def update_play_button_runs Let_def
        split: sum.split option.split\<close>)
qed

lemma step_elsewhere:
  assumes "running i st s" and "r = result_block (runs s ! i)" and "known s r" and "quiet i r s (code_step e s)"
    and "reports_now st i e = None"
  shows "text_kept r s (code_step e s)"
proof -
  have run: "text_kept r s (final (run_rust_code b s))" if q: "quiet i r s (final (run_rust_code b s))" for b
  proof -
    obtain new where new: "runs (final (run_rust_code b s)) = runs s @ new" using run_rust_code_runs by blast
    have "result_block x \<noteq> r" if x: "x \<in> set new" for x
    proof -
      obtain k where "k < length new" "new ! k = x" using x by (auto simp: in_set_conv_nth)
      then show ?thesis using q assms(1) unfolding quiet_def new
        by (auto simp: running_def nth_append dest!: spec [of _ "length (runs s) + k"])
    qed
    then show ?thesis using run_rust_code_elsewhere [OF assms(3) new] by (simp add: text_kept_def)
  qed
  have other: "result_block (runs s ! j) \<noteq> r" if "running j st' s" "st' \<noteq> Settled" "j \<noteq> i" for j st'
    using that assms(4) runs_step [of s e] unfolding quiet_def running_def by (auto dest!: spec [of _ j])
  have ends: "text_kept r s (run_failed j msg s)" "text_kept r s (run_answered j out s)" if "result_block (runs s ! j) \<noteq> r" for j msg out
    using that by (auto simp: text_kept_def run_failed_def run_answered_def Let_def known_def set_stage_def)
  show ?thesis
  proof (cases e)
    case (CratesRead a)
    then show ?thesis
      using text_kept_trans [OF text_kept_fields(3) update_blocks_text] by (auto split: sum.split)
  next
    case (EditorChanged b new)
    then show ?thesis using text_kept_trans [OF text_kept_fields(4) update_play_button_text]
      by (auto simp: editor_changed_def Let_def split: option.split)
  next
    case (RunFetched j a)
    then show ?thesis using assms(1,5) ends(1) other [of j Racing] running_unique [OF assms(1), of Racing]
      by (cases "j = i") (auto simp: reports_now_def split: sum.splits)
  next
    case (RunTimer j)
    then show ?thesis using assms(1,5) ends(1) other [of j Racing] running_unique [OF assms(1), of Racing]
      by (cases "j = i") (auto simp: reports_now_def)
  next
    case (RunRead j a)
    then show ?thesis using assms(1,5) ends other [of j Reading] running_unique [OF assms(1), of Reading]
      by (cases "j = i") (auto simp: reports_now_def split: sum.splits)
  qed (use run assms(4) in \<open>auto split: sum.split\<close>)
qed

lemma step_reports:
  assumes "running i st s" and "r = result_block (runs s ! i)" and "reports_now st i e = Some rep"
  shows "content (code_step e s) r = report_text rep"
    and "has_class (code_step e s) r ''result-no-output'' \<longleftrightarrow>
      (case rep of Failed msg \<Rightarrow> has_class s r ''result-no-output'' | Answered out \<Rightarrow> trim out = '''')"
    and "known s r \<longrightarrow> known (code_step e s) r"
proof -
  have f: "content (run_failed i msg s) r = report_text (Failed msg)" "has_class (run_failed i msg s) r k = has_class s r k"
    "content (run_answered i out s) r = report_text (Answered out)"
    "has_class (run_answered i out s) r ''result-no-output'' \<longleftrightarrow> trim out = ''''"
    "known s r \<longrightarrow> known (run_failed i msg s) r" "known s r \<longrightarrow> known (run_answered i out s) r" for msg out k
    by (simp_all add: run_failed_def run_answered_def Let_def set_stage_def report_text_def assms(2) known_def)
  show "content (code_step e s) r = report_text rep"
    "has_class (code_step e s) r ''result-no-output'' \<longleftrightarrow>
      (case rep of Failed msg \<Rightarrow> has_class s r ''result-no-output'' | Answered out \<Rightarrow> trim out = '''')"
    "known s r \<longrightarrow> known (code_step e s) r"
    using assms(1,3) f by (cases e; auto simp: reports_now_def split: sum.splits if_splits)+
qed

text \<open>All events.\<close>

lemma quiet_first:
  assumes "quiet i r s (fold code_step es u)"
  shows "quiet i r s u"
proof -
  have "length (runs u) \<le> length (runs (fold code_step es u)) \<and>
      (\<forall>j < length (runs u). result_block (runs (fold code_step es u) ! j) = result_block (runs u ! j))"
  proof (induction es arbitrary: u)
    case (Cons e es)
    then show ?case using runs_step [of u e] Cons.IH [of "code_step e u"]
      by (simp del: code_step.simps) (meson le_trans less_le_trans)
  qed simp
  then show ?thesis using assms by (simp add: quiet_def)
qed

lemma settled_stays: "running j Settled s \<Longrightarrow> running j Settled (code_step e s)"
  using running_step [of j Settled s e] reports_settle [of j e Settled] by simp

lemma reports_run:
  assumes "running i st s" and "r = result_block (runs s ! i)" and "known s r" and "quiet i r s (fold code_step es s)"
  shows "content (fold code_step es s) r = (case reported st i es of None \<Rightarrow> content s r | Some rep \<Rightarrow> report_text rep)
    \<and> (has_class (fold code_step es s) r ''result-no-output'' \<longleftrightarrow>
        (case reported st i es of Some (Answered out) \<Rightarrow> trim out = '''' | _ \<Rightarrow> has_class s r ''result-no-output''))"
  using assms
proof (induction es arbitrary: s st)
  case (Cons e es)
  let ?s = "code_step e s"
  let ?st = "run_stage i e st"
  have q: "quiet i r s (fold code_step es ?s)" using Cons.prems(4) by simp
  then have "quiet i r ?s (fold code_step es ?s)" using settled_stays by (auto simp: quiet_def)
  moreover have run: "running i ?st ?s" by (rule running_step [OF Cons.prems(1)])
  moreover have "r = result_block (runs ?s ! i)"
    using runs_step [of s e] Cons.prems(1,2) by (simp add: running_def)
  ultimately have IH: "known ?s r \<Longrightarrow>
      content (fold code_step es ?s) r = (case reported ?st i es of None \<Rightarrow> content ?s r | Some rep \<Rightarrow> report_text rep)
      \<and> (has_class (fold code_step es ?s) r ''result-no-output'' \<longleftrightarrow>
        (case reported ?st i es of Some (Answered out) \<Rightarrow> trim out = '''' | _ \<Rightarrow> has_class ?s r ''result-no-output''))"
    using Cons.IH by blast
  show ?case
  proof (cases "reports_now st i e")
    case None
    have "text_kept r s ?s" by (rule step_elsewhere [OF Cons.prems(1-3) quiet_first [OF q] None])
    then show ?thesis using IH Cons.prems(3) None
      by (simp add: text_kept_def reported_Cons del: code_step.simps split: option.split run_report.split)
  next
    case (Some rep)
    then have "?st = Settled" using reports_settle by blast
    then have "reported ?st i es = None" by (simp add: reported_def)
    then show ?thesis using IH step_reports [OF Cons.prems(1,2) Some] Cons.prems(3) Some
      by (simp add: reported_Cons del: code_step.simps split: run_report.split)
  qed
qed (simp add: reported_Nil)

section \<open>An example\<close>

definition example_code :: snippets where
  "example_code =
     \<lparr>tag = (\<lambda>r. if r = Node 1 then ''CODE'' else ''DIV''), ident = (\<lambda>r. ''''),
      classes = (\<lambda>r. if r = Node 0 then [''playground''] else if r = Node 1 then [''language-rust'', ''edition2021'']
        else [''play-button'']), attrs = (\<lambda>r. Map.empty),
      kids = (\<lambda>r. if r = Node 0 then [Node 2, Node 1] else []),
      par = (\<lambda>r. if r = Node 1 \<or> r = Node 2 then Some (Node 0) else None),
      content = (\<lambda>r. ''extern crate rand ; fn main() {}''), display = (\<lambda>r. ''''),
      nodes = [Node 0, Node 1, Node 2], fresh = 3,
      focus = None, href = '''', past = [], future = [], local_store = Map.empty,
      session_store = Map.empty, effects = [], has_ace = False, editor_text = (\<lambda>r. ''''), unhidden = [],
      playgrounds = [Node 0], crates_stage = Reading, playground_crates = [], watched = [],
      runs = [\<lparr>result_block = Node 3, params = params_of ''a'' [], stage = Reading\<rparr>,
              \<lparr>result_block = Node 3, params = params_of ''b'' [], stage = Reading\<rparr>]\<rparr>"

section \<open>Properties of the requests\<close>

text \<open>
  When the list of crates arrives, the button of every block can be pressed exactly when the block
  is not marked \<open>no_run\<close> and every crate it names is in the list; when the answer is an error no
  button changes.
\<close>

lemma crates_arrive:
  assumes "crates_stage s = Reading" and "playgrounds s = map fst parts" and "list_all (block_parts s) parts"
    and "distinct (map (snd \<circ> snd) parts)" and "(p, c, b) \<in> set parts"
  shows "runnable (code_step (CratesRead (Inr available)) s) b = may_run s c available
    \<and> runnable (code_step (CratesRead (Inl msg)) s) b = runnable s b"
proof -
  let ?s = "s\<lparr>crates_stage := Settled, playground_crates := available\<rparr>"
  have same: "same_blocks s ?s" by (simp add: same_blocks_def)
  have "block_parts ?s = block_parts s" by (rule ext) (rule same_blocks_reads(4) [OF same])
  then have "list_all (block_parts ?s) parts" "may_run ?s c available = may_run s c available"
    using assms(3) same_blocks_reads(3) [OF same] by simp_all
  then show ?thesis
    using update_blocks_read [of ?s parts available] assms(1,2,4,5) by (auto simp: runnable_def)
qed

theorem crates_arrive_witness:
  "runnable (code_step (CratesRead (Inr [''rand''])) example_code) (Node 2)"
proof -
  have parts: "list_all (block_parts example_code) [(Node 0, Node 1, Node 2)]"
    by (simp add: block_parts_def code_of_def play_button_of_def query_first_def example_code_def has_class_def
        eval_nat_numeral)
  have "extern_crates ''extern crate rand ; fn main() {}'' = [''rand'']" by code_simp
  then have "may_run example_code (Node 1) [''rand'']"
    by (simp add: may_run_def example_code_def has_class_def)
  then show ?thesis
    using crates_arrive [OF _ _ parts, of "Node 0" "Node 1" "Node 2" "[''rand'']" "''''"]
    by (simp add: example_code_def)
qed

text \<open>
  C30: What a run reports is decided by the first of its timer and its answer: the timer or an error is
  reported as a failure with its message, and otherwise the body that is read first, as a failure, as the
  text, or as no output when the text is blank. While no other run writes into the same element, the
  element shows just this report, unchanged before it and whatever comes later, and the run is settled
  once it has reported.
\<close>

theorem run_reports:
  assumes "running i Racing s" and "r = result_block (runs s ! i)" and "known s r"
    and "t = fold code_step es s"
    and "list_all (\<lambda>j. if result_block (runs t ! j) = r then j = i \<or> running j Settled s else True) [0..<length (runs t)]"
  shows "content t r = (case run_report i es of None \<Rightarrow> content s r | Some rep \<Rightarrow> report_text rep)
    \<and> (has_class t r ''result-no-output'' \<longleftrightarrow>
        (case run_report i es of Some (Answered out) \<Rightarrow> trim out = '''' | _ \<Rightarrow> has_class s r ''result-no-output''))
    \<and> (running i Settled t \<longleftrightarrow> run_report i es \<noteq> None)"
proof -
  have q: "quiet i r s (fold code_step es s)" using assms(4,5) by (auto simp: quiet_def list_all_iff)
  have "running i (fold (run_stage i) es Racing) t" unfolding assms(4) by (rule running_run [OF assms(1)])
  then have "running i Settled t \<longleftrightarrow> run_report i es \<noteq> None"
    using running_unique [of i _ t Settled] run_stages_settle [of i es Racing] by (auto simp: reported_def)
  then show ?thesis using reports_run [OF assms(1-3) q] unfolding assms(4) by (simp add: reported_def)
qed

theorem run_reports_witness:
  "content (fold code_step [RunFetched 0 (Inr ()), CratesTimer, RunRead 0 (Inr ''ok''), RunTimer 0]
     (example_code\<lparr>runs := [\<lparr>result_block = Node 2, params = params_of ''a'' [], stage = Racing\<rparr>]\<rparr>)) (Node 2) = ''ok''"
proof -
  let ?s = "example_code\<lparr>runs := [\<lparr>result_block = Node 2, params = params_of ''a'' [], stage = Racing\<rparr>]\<rparr>"
  let ?es = "[RunFetched 0 (Inr ()), CratesTimer, RunRead 0 (Inr ''ok''), RunTimer 0]"
  have run: "running 0 Racing ?s" "Node 2 = result_block (runs ?s ! 0)" "known ?s (Node 2)"
    by (simp_all add: running_def known_def example_code_def)
  have t: "trim ''ok'' = ''ok''" by code_simp
  then have "length (runs (fold code_step ?es ?s)) = 1"
    by (simp add: running_def set_stage_def run_answered_def Let_def example_code_def)
  moreover have "run_report 0 ?es = Some (Answered ''ok'')"
    by (simp add: run_report_def ends_race_def body_report_def reads_body_def)
  ultimately show ?thesis using run_reports [OF run refl, of ?es] t by (simp add: report_text_def)
qed

text \<open>
  Two runs of one block share its result: what is shown is the answer read last, so the answer of
  the earlier run, when it is slower, replaces that of the later one.
\<close>

lemma slower_answer_shown:
  assumes "running i Reading s" and "running j Reading s" and "i \<noteq> j"
    and "result_block (runs s ! i) = r" and "result_block (runs s ! j) = r"
    and "trim older \<noteq> ''''" and "trim newer \<noteq> ''''"
  shows "content (fold code_step [RunRead j (Inr newer), RunRead i (Inr older)] s) r = older
    \<and> content (fold code_step [RunRead i (Inr older), RunRead j (Inr newer)] s) r = newer"
proof -
  have answered: "content (run_answered k a u) (result_block (runs u ! k)) = a" if "trim a \<noteq> ''''" for k a u
    using that by (simp add: run_answered_def Let_def)
  have keeps: "running k' Reading (run_answered k a u)" "result_block (runs (run_answered k a u) ! k') = result_block (runs u ! k')"
    if "running k' Reading u" "k \<noteq> k'" for k k' a u
    using that by (simp_all add: run_ends_read stage_read)
      (simp add: run_answered_def set_stage_def Let_def)
  show ?thesis
    using answered [OF assms(6), of i "run_answered j newer s"] answered [OF assms(7), of j "run_answered i older s"]
      keeps [OF assms(1)] keeps [OF assms(2)] assms by simp
qed

theorem slower_answer_shown_witness:
  "content (fold code_step [RunRead 1 (Inr ''new''), RunRead 0 (Inr ''old'')] example_code) (Node 3) = ''old''"
proof -
  have t: "trim ''old'' \<noteq> ''''" "trim ''new'' \<noteq> ''''" by code_simp+
  show ?thesis
    using slower_answer_shown [of 0 example_code 1 "Node 3", OF _ _ _ _ _ t]
    by (simp add: running_def example_code_def del: code_step.simps)
qed

end
