(* ===== verification/Book_Buttons.thy ===== *)
theory Book_Buttons
  imports Book_Code
begin

text \<open>
  What the page adds to its code blocks, the second half of \<open>codeSnippets\<close> and \<open>clipboard\<close> of
  \<open>book-a0b12cfe.js\<close>: the highlighting, the toolbar of a block with its buttons and their
  listeners, and the tooltips of the copy buttons. The highlighter is a parameter; a listener is
  recorded as the pair of the button and the element it closes over.
\<close>

section \<open>State\<close>

record buttons = snippets +
  playground_copyable :: bool
  original_code :: "ref \<Rightarrow> string"
  line_listeners :: "(ref \<times> ref) list"
  play_listeners :: "(ref \<times> ref) list"
  reset_listeners :: "(ref \<times> ref) list"

abbreviation "icon_eye \<equiv> Named ''fa-eye''"
abbreviation "icon_eye_slash \<equiv> Named ''fa-eye-slash''"
abbreviation "icon_play \<equiv> Named ''fa-play''"
abbreviation "icon_undo \<equiv> Named ''fa-clock-rotate-left''"

section \<open>Highlighting\<close>

definition code_nodes :: "'a dom_scheme \<Rightarrow> ref list" where
  \<comment> \<open>all code but that in headers; what is found below the root has a parent\<close>
  "code_nodes s =
     filter (\<lambda>node. case par s node of None \<Rightarrow> False | Some p \<Rightarrow> \<not> has_class s p ''header'')
       (query_all s html_root (\<lambda>r. tag s r = ''CODE''))"

definition highlight_nodes :: "(ref \<Rightarrow> buttons \<Rightarrow> buttons) \<Rightarrow> buttons \<Rightarrow> buttons" where
  \<comment> \<open>\<open>highlightBlock\<close>: the highlighter\<close>
  "highlight_nodes highlightBlock s =
     (let nds = code_nodes s;
          s1 = (if has_ace s then
              (let s' = fold (\<lambda>block. remove_class block ''language-rust'')
                     (filter (\<lambda>node. has_class s node ''editable'') nds) s
               in fold highlightBlock (filter (\<lambda>node. \<not> has_class s' node ''editable'') nds) s')
            else fold highlightBlock nds s)
      in fold (\<lambda>block. add_class block ''hljs'') nds s1)"

section \<open>The toolbar\<close>

definition toolbar :: "ref \<Rightarrow> buttons \<Rightarrow> ref \<times> buttons" where
  \<comment> \<open>the element with the buttons of a block, made in front of everything else when there is none\<close>
  "toolbar pre_block s =
     (case query_first s pre_block (\<lambda>r. has_class s r ''buttons'') of
        Some r \<Rightarrow> (r, s)
      | None \<Rightarrow>
          (let (r, s1) = create_element ''DIV'' s; s2 = set_classes r [''buttons''] s1
           in (r, insert_before pre_block r (first_child s2 pre_block) s2)))"

definition new_button :: "string \<Rightarrow> string \<Rightarrow> string \<Rightarrow> buttons \<Rightarrow> ref \<times> buttons" where
  \<comment> \<open>a button with its class, its title, which is its label too, and its content\<close>
  "new_button cls title inner s =
     (let (b, s1) = create_element ''BUTTON'' s
      in (b, set_content b inner (set_attr b ''aria-label'' title (set_attr b ''title'' title (set_classes b [cls] s1)))))"

definition put_first :: "ref \<Rightarrow> ref \<Rightarrow> buttons \<Rightarrow> buttons" where
  \<comment> \<open>\<open>tb.insertBefore(b, tb.firstChild)\<close>\<close>
  "put_first tb b s = insert_before tb b (first_child s tb) s"

section \<open>Hidden lines\<close>

definition hide_lines :: "ref \<Rightarrow> buttons \<Rightarrow> buttons outcome" where
  "hide_lines block s =
     (if query_all s block (\<lambda>r. has_class s r ''boring'') = [] then Done s
      else
        let s1 = add_class block ''hide-boring'' s;
            (tb, s2) = create_element ''DIV'' s1;
            s3 = set_classes tb [''buttons''] s2;
            (b, s4) = create_element ''BUTTON'' s3;
            s5 = set_attr b ''aria-label'' ''Show hidden lines'' (set_attr b ''title'' ''Show hidden lines'' s4);
            s6 = set_content b (content s5 icon_eye) (append_child tb b s5)
        in case par s6 block of
             None \<Rightarrow> Throws TypeError s6
           | Some pre_block \<Rightarrow>
               Done ((insert_before pre_block tb (first_child s6 pre_block) s6)
                 \<lparr>line_listeners := line_listeners s6 @ [(b, block)]\<rparr>))"

definition toggle_lines :: "ref \<times> ref \<Rightarrow> string option \<Rightarrow> buttons \<Rightarrow> buttons" where
  \<comment> \<open>the listener of a click; the title of the target, when it is an element inside the button\<close>
  "toggle_lines = (\<lambda>(b, block) inner_title s.
     if attrs s b ''title'' = Some ''Show hidden lines'' then
       let s1 = set_attr b ''title'' ''Hide lines'' (set_content b (content s icon_eye_slash) s);
           s2 = set_attr b ''aria-label'' (case inner_title of None \<Rightarrow> ''Hide lines'' | Some t \<Rightarrow> t) s1
       in remove_class block ''hide-boring'' s2
     else if attrs s b ''title'' = Some ''Hide lines'' then
       let s1 = set_attr b ''title'' ''Show hidden lines'' (set_content b (content s icon_eye) s);
           s2 = set_attr b ''aria-label'' (case inner_title of None \<Rightarrow> ''Show hidden lines'' | Some t \<Rightarrow> t) s1
       in add_class block ''hide-boring'' s2
     else s)"

section \<open>Copying, running, undoing\<close>

definition add_clip :: "ref \<Rightarrow> buttons \<Rightarrow> buttons" where
  \<comment> \<open>the copy button, into a toolbar; the element its content is made of holds the tooltip\<close>
  "add_clip tb s =
     (let (b, s1) = new_button ''clip-button'' ''Copy to clipboard'' '''' s;
          (i, s2) = create_element ''I'' s1
      in put_first tb b (append_child b i (set_classes i [''tooltiptext''] s2)))"

definition copy_button :: "ref \<Rightarrow> buttons \<Rightarrow> buttons outcome" where
  \<comment> \<open>one round of the loop over \<open>pre code\<close>\<close>
  "copy_button block s =
     (case par s block of
        None \<Rightarrow> Throws TypeError s
      | Some pre_block \<Rightarrow>
          Done (if \<not> has_class s pre_block ''playground''
                then (let (tb, s1) = toolbar pre_block s in add_clip tb s1) else s))"

definition add_play :: "ref \<Rightarrow> ref \<Rightarrow> buttons \<Rightarrow> buttons" where
  "add_play tb pre_block s =
     (let (b, s1) = new_button ''play-button'' ''Run this code'' (content s icon_play) s
      in (put_first tb b (set_attr b ''hidden'' '''' s1))\<lparr>play_listeners := play_listeners s @ [(b, pre_block)]\<rparr>)"

definition add_reset :: "ref \<Rightarrow> ref \<Rightarrow> buttons \<Rightarrow> buttons" where
  "add_reset tb code_block s =
     (let (b, s1) = new_button ''reset-button'' ''Undo changes'' (content s icon_undo) s
      in (put_first tb b s1)\<lparr>reset_listeners := reset_listeners s @ [(b, code_block)]\<rparr>)"

definition process_playground :: "ref \<Rightarrow> buttons \<Rightarrow> buttons outcome" where
  \<comment> \<open>one round of the loop over the playgrounds\<close>
  "process_playground pre_block s =
     (let (tb, s1) = toolbar pre_block s;
          s2 = add_play tb pre_block s1;
          s3 = (if playground_copyable s2 then add_clip tb s2 else s2)
      in if \<not> has_ace s3 then Done s3
         else case code_of s3 pre_block of
             None \<Rightarrow> Throws TypeError s3
           | Some code_block \<Rightarrow>
               Done (if has_class s3 code_block ''editable'' then add_reset tb code_block s3 else s3))"

definition undo_changes :: "ref \<times> ref \<Rightarrow> buttons \<Rightarrow> buttons" where
  \<comment> \<open>the listener of the reset button; the editor tells its change like any other\<close>
  "undo_changes = (\<lambda>(b, code_block) s.
     s\<lparr>editor_text := (editor_text s)(code_block := original_code s code_block)\<rparr>)"

fun each :: "(ref \<Rightarrow> buttons \<Rightarrow> buttons outcome) \<Rightarrow> ref list \<Rightarrow> buttons \<Rightarrow> buttons outcome" where
  \<comment> \<open>\<open>forEach\<close>: an element that throws ends it\<close>
  "each f [] s = Done s"
| "each f (x # xs) s = and_then (f x s) (each f xs)"

definition start_buttons :: "(ref \<Rightarrow> buttons \<Rightarrow> buttons) \<Rightarrow> buttons \<Rightarrow> buttons outcome" where
  "start_buttons highlightBlock s =
     (let s1 = highlight_nodes highlightBlock s
      in and_then (each hide_lines
             (query_all s1 html_root (\<lambda>r. tag s1 r = ''CODE'' \<and> has_class s1 r ''hljs'')) s1)
           (\<lambda>s2. and_then
             (if playground_copyable s2
              then each copy_button
                (query_all s2 html_root (\<lambda>r. tag s2 r = ''CODE'' \<and> list_ex (\<lambda>a. tag s2 a = ''PRE'') (ancestors s2 r))) s2
              else Done s2)
             (\<lambda>s3. each process_playground
                (query_all s3 html_root (\<lambda>r. has_class s3 r ''playground'')) s3)))"

section \<open>Tooltips\<close>

definition hideTooltip :: "ref \<Rightarrow> 'a dom_scheme \<Rightarrow> 'a dom_scheme outcome" where
  "hideTooltip elem s =
     (case first_child s elem of
        None \<Rightarrow> Throws TypeError s
      | Some i \<Rightarrow> Done (set_classes elem [''clip-button''] (set_content i '''' s)))"

definition showTooltip :: "ref \<Rightarrow> string \<Rightarrow> 'a dom_scheme \<Rightarrow> 'a dom_scheme outcome" where
  "showTooltip elem msg s =
     (case first_child s elem of
        None \<Rightarrow> Throws TypeError s
      | Some i \<Rightarrow> Done (set_classes elem [''clip-button'', ''tooltipped''] (set_content i msg s)))"

definition clipboard_text :: "(ref \<Rightarrow> string) \<Rightarrow> ref \<Rightarrow> buttons \<Rightarrow> (js_error + string) \<times> buttons" where
  \<comment> \<open>the text a copy button gives: that of the block around it, without its hidden lines\<close>
  "clipboard_text shown trigger s =
     (case hideTooltip trigger s of
        Throws e s1 \<Rightarrow> (Inl e, s1)
      | Done s1 \<Rightarrow>
          (case List.find (\<lambda>r. tag s1 r = ''PRE'') (trigger # ancestors s1 trigger) of
             None \<Rightarrow> (Inl TypeError, s1)
           | Some playground \<Rightarrow> (playground_text shown playground False s1, s1)))"

datatype clip_event = MouseOut ref | Copied ref | CopyFailed ref

fun clip_step :: "clip_event \<Rightarrow> 'a dom_scheme \<Rightarrow> 'a dom_scheme" where
  "clip_step (MouseOut b) s = final (hideTooltip b s)"
| "clip_step (Copied b) s = final (showTooltip b ''Copied!'' s)"
| "clip_step (CopyFailed b) s = final (showTooltip b ''Clipboard error!'' s)"

section \<open>Frames\<close>

lemma buttons_frame [dom_simps, simp]:
  "playground_copyable (add_class r c d) = playground_copyable d" "original_code (add_class r c d) = original_code d" "line_listeners (add_class r c d) = line_listeners d" "play_listeners (add_class r c d) = play_listeners d" "reset_listeners (add_class r c d) = reset_listeners d"
  "playground_copyable (remove_class r c d) = playground_copyable d" "original_code (remove_class r c d) = original_code d" "line_listeners (remove_class r c d) = line_listeners d" "play_listeners (remove_class r c d) = play_listeners d" "reset_listeners (remove_class r c d) = reset_listeners d"
  "playground_copyable (set_classes r cs d) = playground_copyable d" "original_code (set_classes r cs d) = original_code d" "line_listeners (set_classes r cs d) = line_listeners d" "play_listeners (set_classes r cs d) = play_listeners d" "reset_listeners (set_classes r cs d) = reset_listeners d"
  "playground_copyable (set_attr r a v d) = playground_copyable d" "original_code (set_attr r a v d) = original_code d" "line_listeners (set_attr r a v d) = line_listeners d" "play_listeners (set_attr r a v d) = play_listeners d" "reset_listeners (set_attr r a v d) = reset_listeners d"
  "playground_copyable (set_content r v d) = playground_copyable d" "original_code (set_content r v d) = original_code d" "line_listeners (set_content r v d) = line_listeners d" "play_listeners (set_content r v d) = play_listeners d" "reset_listeners (set_content r v d) = reset_listeners d"
  "playground_copyable (snd (create_element t d)) = playground_copyable d" "original_code (snd (create_element t d)) = original_code d" "line_listeners (snd (create_element t d)) = line_listeners d" "play_listeners (snd (create_element t d)) = play_listeners d" "reset_listeners (snd (create_element t d)) = reset_listeners d"
  "playground_copyable (append_child p r d) = playground_copyable d" "original_code (append_child p r d) = original_code d" "line_listeners (append_child p r d) = line_listeners d" "play_listeners (append_child p r d) = play_listeners d" "reset_listeners (append_child p r d) = reset_listeners d"
  "playground_copyable (insert_before p r b d) = playground_copyable d" "original_code (insert_before p r b d) = original_code d" "line_listeners (insert_before p r b d) = line_listeners d" "play_listeners (insert_before p r b d) = play_listeners d" "reset_listeners (insert_before p r b d) = reset_listeners d"
  by (simp_all add: add_class_def remove_class_def toggle_class_def set_classes_def set_attr_def
      set_content_def set_display_def set_ident_def create_element_def append_child_def
      remove_node_def insert_before_def Let_def split: option.split)

lemma buttons_code_frame [dom_simps, simp]:
  "has_ace (set_attr r a v d) = has_ace d"
  "has_ace (insert_before p r b d) = has_ace d"
  by (simp_all add: add_class_def remove_class_def toggle_class_def set_classes_def set_attr_def
      set_content_def set_display_def set_ident_def create_element_def append_child_def
      remove_node_def insert_before_def Let_def split: option.split)

section \<open>Hidden lines, click by click\<close>

definition lines_told :: "ref \<times> ref \<Rightarrow> buttons \<Rightarrow> bool" where
  \<comment> \<open>the button says what a click on it does\<close>
  "lines_told x s \<longleftrightarrow>
     attrs s (fst x) ''title'' =
       Some (if has_class s (snd x) ''hide-boring'' then ''Show hidden lines'' else ''Hide lines'')"

lemma toggle_lines_read:
  assumes "lines_told x s"
  shows "has_class (toggle_lines x inner s) (snd x) ''hide-boring'' = (\<not> has_class s (snd x) ''hide-boring'')"
    and "lines_told x (toggle_lines x inner s)"
    and "attrs (toggle_lines x inner s) (fst x) ''aria-label'' =
      (case inner of None \<Rightarrow> attrs (toggle_lines x inner s) (fst x) ''title'' | Some w \<Rightarrow> Some w)"
  using assms
  by (cases x; cases "has_class s (snd x) ''hide-boring''"; cases inner;
      simp add: lines_told_def toggle_lines_def Let_def)+

interpretation lines_machine: machine "toggle_lines x" "lines_told x" for x
  by unfold_locales (rule toggle_lines_read(2))

lemma toggle_lines_parity:
  assumes "lines_told x s"
  shows "has_class (fold (toggle_lines x) es s) (snd x) ''hide-boring'' =
    (has_class s (snd x) ''hide-boring'' = even (length es))"
  using assms
proof (induction es rule: rev_induct)
  case (snoc e es)
  have "lines_told x (fold (toggle_lines x) es s)" by (rule lines_machine.run_inv [OF snoc.prems])
  then show ?case using snoc by (simp add: toggle_lines_read(1))
qed simp

lemma hide_lines_told:
  assumes "hide_lines block s = Done t" and "query_all s block (\<lambda>r. has_class s r ''boring'') \<noteq> []"
    and "known s block"
  obtains b where "line_listeners t = line_listeners s @ [(b, block)]" and "has_class t block ''hide-boring''"
    and "lines_told (b, block) t" and "attrs t b ''aria-label'' = attrs t b ''title''"
proof -
  let ?s1 = "add_class block ''hide-boring'' s"
  let ?tb = "Node (fresh s)" and ?b = "Node (Suc (fresh s))"
  obtain s2 where c1: "create_element ''DIV'' ?s1 = (?tb, s2)"
    using create_fst [of "''DIV''" ?s1] by (cases "create_element ''DIV'' ?s1") simp
  then have s2: "s2 = snd (create_element ''DIV'' ?s1)" by simp
  let ?s3 = "set_classes ?tb [''buttons''] s2"
  have fresh: "fresh ?s3 = Suc (fresh s)" by (simp add: s2 create_writes set_classes_def)
  obtain s4 where c2: "create_element ''BUTTON'' ?s3 = (?b, s4)"
    using create_fst [of "''BUTTON''" ?s3] fresh by (cases "create_element ''BUTTON'' ?s3") simp
  then have s4: "s4 = snd (create_element ''BUTTON'' ?s3)" by simp
  let ?s5 = "set_attr ?b ''aria-label'' ''Show hidden lines'' (set_attr ?b ''title'' ''Show hidden lines'' s4)"
  let ?s6 = "set_content ?b (content ?s5 icon_eye) (append_child ?tb ?b ?s5)"
  have new: "block \<noteq> ?tb" "block \<noteq> ?b" using assms(3) by (auto simp: known_def)
  have ll: "line_listeners s4 = line_listeners s" by (simp add: s4 s2)
  obtain pre_block where t: "t = (insert_before pre_block ?tb (first_child ?s6 pre_block) ?s6)
      \<lparr>line_listeners := line_listeners ?s6 @ [(?b, block)]\<rparr>"
    using assms(1,2) by (auto simp: hide_lines_def Let_def c1 c2 split: option.splits)
  have attr: "attrs t ?b ''title'' = Some ''Show hidden lines''" "attrs t ?b ''aria-label'' = Some ''Show hidden lines''"
    by (simp_all add: t tree_ops_frame)
  have "classes ?s6 block = classes ?s1 block"
    using new fresh by (simp add: tree_ops_frame s4 create_writes) (simp add: s2 create_writes set_classes_def)
  then have hide: "has_class t block ''hide-boring''"
    using has_class_add [of block "''hide-boring''" s block "''hide-boring''"]
    by (simp add: t has_class_def tree_ops_frame)
  show thesis
    by (rule that [of ?b]) (use attr hide in \<open>simp_all add: lines_told_def\<close>, simp add: t ll)
qed

section \<open>The toolbar, button by button\<close>

lemma new_button_writes:
  assumes "new_button cls title inner s = (b, t)"
  shows "b = Node (fresh s)" "classes t = (classes s)(b := [cls])" "kids t = (kids s)(b := [])"
    "par t = (par s)(b := None)" "fresh t = Suc (fresh s)" "has_ace t = has_ace s"
    "playground_copyable t = playground_copyable s" "reset_listeners t = reset_listeners s"
    "play_listeners t = play_listeners s"
proof -
  obtain s1 where c: "create_element ''BUTTON'' s = (b, s1)"
    and t: "t = set_content b inner (set_attr b ''aria-label'' title (set_attr b ''title'' title (set_classes b [cls] s1)))"
    using assms by (cases "create_element ''BUTTON'' s") (auto simp: new_button_def)
  have s1: "s1 = snd (create_element ''BUTTON'' s)" "b = Node (fresh s)"
    using c create_fst [of "''BUTTON''" s] by simp_all
  show "b = Node (fresh s)" "classes t = (classes s)(b := [cls])" "kids t = (kids s)(b := [])"
    "par t = (par s)(b := None)" "fresh t = Suc (fresh s)" "has_ace t = has_ace s"
    "playground_copyable t = playground_copyable s" "reset_listeners t = reset_listeners s"
    "play_listeners t = play_listeners s"
    unfolding t by (simp_all add: s1 create_writes set_classes_def)
qed

lemma new_button_new:
  obtains t where "new_button cls title inner s = (Node (fresh s), t)"
  using new_button_writes(1) [of cls title inner s] by (cases "new_button cls title inner s") auto

lemma put_first_writes:
  assumes "par s b = None"
  shows "kids (put_first tb b s) = (kids s)(tb := b # kids s tb)"
    "par (put_first tb b s) = (par s)(b := Some tb)"
    "classes (put_first tb b s) = classes s" "fresh (put_first tb b s) = fresh s"
    "has_ace (put_first tb b s) = has_ace s" "playground_copyable (put_first tb b s) = playground_copyable s"
    "reset_listeners (put_first tb b s) = reset_listeners s" "play_listeners (put_first tb b s) = play_listeners s"
  using insert_first [OF assms] by (simp_all add: put_first_def tree_ops_frame)

text \<open>
  A step that puts one new button of a class in front of a toolbar and changes nothing else the next
  one looks at.
\<close>

definition adds_button :: "ref \<Rightarrow> string \<Rightarrow> buttons \<Rightarrow> buttons \<Rightarrow> bool" where
  "adds_button tb cls s t \<longleftrightarrow>
     kids t tb = Node (fresh s) # kids s tb \<and> classes t (Node (fresh s)) = [cls]
     \<and> (\<forall>r. known s r \<longrightarrow> classes t r = classes s r) \<and> fresh s < fresh t
     \<and> has_ace t = has_ace s \<and> playground_copyable t = playground_copyable s"

lemma known_not_fresh: "known s r \<Longrightarrow> r \<noteq> Node (fresh s)" "known s r \<Longrightarrow> r \<noteq> Node (Suc (fresh s))"
  by (auto simp: known_def)

lemma add_play_adds:
  assumes "known s tb"
  shows "adds_button tb ''play-button'' s (add_play tb p s)"
    "play_listeners (add_play tb p s) = play_listeners s @ [(Node (fresh s), p)]"
    "reset_listeners (add_play tb p s) = reset_listeners s"
proof -
  obtain t where n: "new_button ''play-button'' ''Run this code'' (content s icon_play) s = (Node (fresh s), t)" by (rule new_button_new)
  note w = new_button_writes(2-) [OF n]
  have "par (set_attr (Node (fresh s)) ''hidden'' '''' t) (Node (fresh s)) = None" using w by simp
  note f = put_first_writes [OF this, of tb]
  show "adds_button tb ''play-button'' s (add_play tb p s)"
    using assms w known_not_fresh [of s] by (auto simp: adds_button_def add_play_def n f)
  show "play_listeners (add_play tb p s) = play_listeners s @ [(Node (fresh s), p)]"
    "reset_listeners (add_play tb p s) = reset_listeners s"
    using w by (simp_all add: add_play_def n f)
qed

lemma add_reset_adds:
  assumes "known s tb"
  shows "adds_button tb ''reset-button'' s (add_reset tb c s)"
    "reset_listeners (add_reset tb c s) = reset_listeners s @ [(Node (fresh s), c)]"
    "play_listeners (add_reset tb c s) = play_listeners s"
proof -
  obtain t where n: "new_button ''reset-button'' ''Undo changes'' (content s icon_undo) s = (Node (fresh s), t)" by (rule new_button_new)
  note w = new_button_writes(2-) [OF n]
  have "par t (Node (fresh s)) = None" using w by simp
  note f = put_first_writes [OF this, of tb]
  show "adds_button tb ''reset-button'' s (add_reset tb c s)"
    using assms w known_not_fresh [of s] by (auto simp: adds_button_def add_reset_def n f)
  show "reset_listeners (add_reset tb c s) = reset_listeners s @ [(Node (fresh s), c)]"
    "play_listeners (add_reset tb c s) = play_listeners s"
    using w by (simp_all add: add_reset_def n f)
qed

lemma add_clip_adds:
  assumes "known s tb"
  shows "adds_button tb ''clip-button'' s (add_clip tb s)"
    "reset_listeners (add_clip tb s) = reset_listeners s" "play_listeners (add_clip tb s) = play_listeners s"
proof -
  obtain t where n: "new_button ''clip-button'' ''Copy to clipboard'' '''' s = (Node (fresh s), t)" by (rule new_button_new)
  note w = new_button_writes(2-) [OF n]
  let ?b = "Node (fresh s)" and ?i = "Node (Suc (fresh s))"
  obtain u where c: "create_element ''I'' t = (?i, u)"
    using create_fst [of "''I''" t] w(4) by (cases "create_element ''I'' t") simp
  then have u: "u = snd (create_element ''I'' t)" by simp
  have uw: "classes u = (classes t)(?i := [])" "kids u = (kids t)(?i := [])" "par u = (par t)(?i := None)"
    "fresh u = Suc (fresh t)" "has_ace u = has_ace t" "playground_copyable u = playground_copyable t"
    "reset_listeners u = reset_listeners t" "play_listeners u = play_listeners t"
    unfolding u using w(4) by (simp_all add: create_writes)
  let ?v = "set_classes ?i [''tooltiptext''] u"
  have "par ?v ?i = None" by (simp add: uw set_classes_writes)
  note a = append_writes [OF this, of ?b]
  have "par (append_child ?b ?i ?v) ?b = None" using w by (simp add: a set_classes_writes uw)
  note f = put_first_writes [OF this, of tb]
  show "adds_button tb ''clip-button'' s (add_clip tb s)"
    using assms w known_not_fresh [of s]
    by (auto simp: adds_button_def add_clip_def n c f a set_classes_writes uw)
  show "reset_listeners (add_clip tb s) = reset_listeners s" "play_listeners (add_clip tb s) = play_listeners s"
    using w by (simp_all add: add_clip_def n c f uw)
qed

lemma adds_button_shown:
  assumes "adds_button tb cls s t" and "known s tb" and "list_all (known s) (kids s tb)"
  shows "map (classes t) (kids t tb) = [cls] # map (classes s) (kids s tb)" "known t tb"
    "list_all (known t) (kids t tb)" "has_ace t = has_ace s" "playground_copyable t = playground_copyable s"
proof -
  have more: "known t r" if "known s r" for r
    using that assms(1) by (auto simp: known_def adds_button_def)
  show "known t tb" using more assms(2) by blast
  show "list_all (known t) (kids t tb)"
    using assms(1,3) more by (auto simp: adds_button_def list_all_iff known_def)
  show "map (classes t) (kids t tb) = [cls] # map (classes s) (kids s tb)"
    using assms(1,3) by (simp add: adds_button_def list_all_iff)
  show "has_ace t = has_ace s" "playground_copyable t = playground_copyable s"
    using assms(1) by (simp_all add: adds_button_def)
qed

lemma adds_button_keeps:
  "adds_button tb cls s t \<Longrightarrow> known s r \<Longrightarrow> classes t r = classes s r \<and> known t r"
  by (auto simp: adds_button_def known_def)

lemma adds_button_new: "adds_button tb cls s t \<Longrightarrow> known t (Node (fresh s)) \<and> classes t (Node (fresh s)) = [cls]"
  by (simp add: adds_button_def known_def)

section \<open>An example\<close>

definition example_buttons :: buttons where
  "example_buttons =
     \<lparr>tag = (\<lambda>r. if r = Node 1 then ''CODE'' else ''PRE''), ident = (\<lambda>r. ''''),
      classes = (\<lambda>r. if r = Node 1 then [''editable''] else if r = Node 2 then [''boring''] else []),
      attrs = (\<lambda>r. Map.empty),
      kids = (\<lambda>r. if r = Node 0 then [Node 1] else if r = Node 1 then [Node 2] else []),
      par = (\<lambda>r. if r = Node 1 then Some (Node 0) else if r = Node 2 then Some (Node 1) else None),
      content = (\<lambda>r. ''''), display = (\<lambda>r. ''''), nodes = [Node 0, Node 1, Node 2], fresh = 3,
      focus = None, href = '''', past = [], future = [], local_store = Map.empty,
      session_store = Map.empty, effects = [], has_ace = False, editor_text = (\<lambda>r. ''''), unhidden = [],
      playgrounds = [], crates_stage = Settled, playground_crates = [], watched = [], runs = [],
      playground_copyable = True, original_code = (\<lambda>r. ''''), line_listeners = [], play_listeners = [],
      reset_listeners = []\<rparr>"

section \<open>Properties\<close>

text \<open>
  The toolbar of a playground reads, from the left: undo, when the block got an editor, copy, when
  blocks can be copied, run, and what was in it before; the run button runs its own block.
\<close>

lemma toolbar_in_order:
  assumes "toolbar p s = (tb, s1)" and "known s1 tb" and "list_all (known s1) (kids s1 tb)"
    and "process_playground p s = Done t"
  shows "map (classes t) (kids t tb) =
      (if reset_listeners t = reset_listeners s1 then [] else [[''reset-button'']])
      @ (if playground_copyable s1 then [[''clip-button'']] else [])
      @ [[''play-button'']] @ map (classes s1) (kids s1 tb)
    \<and> (if has_ace s1 then True else reset_listeners t = reset_listeners s1)
    \<and> snd (last (play_listeners t)) = p \<and> classes t (fst (last (play_listeners t))) = [''play-button'']"
proof -
  let ?s2 = "add_play tb p s1"
  let ?s3 = "if playground_copyable ?s2 then add_clip tb ?s2 else ?s2"
  let ?clip = "if playground_copyable s1 then [[''clip-button'']] else []"
  note play = add_play_adds [OF assms(2), of p]
  note s2 = adds_button_shown [OF play(1) assms(2,3)]
  note clip = add_clip_adds [OF s2(2)]
  note clipped = adds_button_shown [OF clip(1) s2(2,3)]
  have s3: "map (classes ?s3) (kids ?s3 tb) = ?clip @ [[''play-button'']] @ map (classes s1) (kids s1 tb)"
    "known ?s3 tb" "list_all (known ?s3) (kids ?s3 tb)" "has_ace ?s3 = has_ace s1"
    "reset_listeners ?s3 = reset_listeners s1" "play_listeners ?s3 = play_listeners s1 @ [(Node (fresh s1), p)]"
    using s2 clip clipped play(2,3) by simp_all
  have b: "known ?s3 (Node (fresh s1)) \<and> classes ?s3 (Node (fresh s1)) = [''play-button'']"
    using adds_button_new [OF play(1)] adds_button_keeps [OF clip(1)] by simp
  note reset = add_reset_adds [OF s3(2)]
  have "t = ?s3 \<or> has_ace s1 \<and> (\<exists>c. t = add_reset tb c ?s3)"
    using assms(4) s3(4) unfolding process_playground_def assms(1) Let_def prod.case
    by (auto split: if_splits option.splits)
  then show ?thesis
  proof
    assume "t = ?s3"
    then show ?thesis using s3(1,5,6) b by simp
  next
    assume "has_ace s1 \<and> (\<exists>c. t = add_reset tb c ?s3)"
    then obtain c where t: "t = add_reset tb c ?s3" and ace: "has_ace s1" by blast
    note shown = adds_button_shown(1) [OF reset(1) s3(2,3), of c]
    have "classes t (Node (fresh s1)) = [''play-button'']"
      using adds_button_keeps [OF reset(1)] b unfolding t by metis
    then show ?thesis using shown s3(1) reset(2,3) s3(5,6) ace unfolding t by simp
  qed
qed

theorem toolbar_in_order_witness:
  "map (classes (final (process_playground (Node 0) example_buttons))) (kids (final (process_playground (Node 0) example_buttons)) (Node 3))
     = [[''clip-button''], [''play-button'']]"
proof -
  let ?s1 = "snd (toolbar (Node 0) example_buttons)"
  have tb: "toolbar (Node 0) example_buttons = (Node 3, ?s1)"
    by (simp add: toolbar_def query_first_def example_buttons_def has_class_def create_element_def Let_def eval_nat_numeral)
  have s1: "known ?s1 (Node 3)" "kids ?s1 (Node 3) = []" "has_ace ?s1 = False" "playground_copyable ?s1 = True"
    by (simp_all add: toolbar_def query_first_def example_buttons_def has_class_def create_element_def Let_def
        eval_nat_numeral known_def insert_before_def remove_node_def set_classes_def)
  have "has_ace (add_clip (Node 3) (add_play (Node 3) (Node 0) ?s1)) = False"
    using adds_button_shown(4) [OF add_clip_adds(1)] add_play_adds(1) [OF s1(1), of "Node 0"]
      adds_button_shown [OF add_play_adds(1) [OF s1(1), of "Node 0"] s1(1)] s1 by simp
  then have "\<exists>t. process_playground (Node 0) example_buttons = Done t"
    using add_play_adds(1) [OF s1(1), of "Node 0"] s1
    by (subst process_playground_def) (subst tb, simp add: Let_def adds_button_def)
  then obtain t where t: "process_playground (Node 0) example_buttons = Done t" by blast
  show ?thesis using toolbar_in_order [OF tb s1(1) _ t] s1 t by simp
qed

text \<open>
  The button that shows hidden lines: after any number of clicks the lines are hidden exactly when
  the number is even, and the title says what the next click does; the label says the same when the
  last click hit the button itself, and is the title of the element hit when it hit the icon inside.
\<close>

lemma lines_toggle:
  assumes "hide_lines block s = Done s'" and "query_all s block (\<lambda>r. has_class s r ''boring'') \<noteq> []"
    and "known s block" and "x = last (line_listeners s')" and "t = fold (toggle_lines x) (es @ [inner]) s'"
  shows "snd x = block \<and> has_class t block ''hide-boring'' = odd (length es)
    \<and> attrs t (fst x) ''title'' = Some (if odd (length es) then ''Show hidden lines'' else ''Hide lines'')
    \<and> attrs t (fst x) ''aria-label'' = (case inner of None \<Rightarrow> attrs t (fst x) ''title'' | Some w \<Rightarrow> Some w)"
proof -
  obtain b where b: "line_listeners s' = line_listeners s @ [(b, block)]" "has_class s' block ''hide-boring''"
    "lines_told (b, block) s'"
    using hide_lines_told [OF assms(1-3)] by blast
  then have x: "snd x = block" "lines_told x s'" using assms(4) by simp_all
  have told: "lines_told x (fold (toggle_lines x) fs s')" for fs by (rule lines_machine.run_inv [OF x(2)])
  have "has_class t block ''hide-boring'' = even (length (es @ [inner]))"
    using toggle_lines_parity [OF x(2), of "es @ [inner]"] x(1) b(2) assms(5) by simp
  moreover have "attrs t (fst x) ''aria-label'' = (case inner of None \<Rightarrow> attrs t (fst x) ''title'' | Some w \<Rightarrow> Some w)"
    using toggle_lines_read(3) [OF told [of es], of inner] by (cases inner) (simp_all add: assms(5))
  ultimately show ?thesis
    using told [of "es @ [inner]"] x(1) assms(5) by (simp add: lines_told_def)
qed

theorem lines_toggle_witness:
  "let s' = final (hide_lines (Node 1) example_buttons); x = last (line_listeners s')
   in attrs (fold (toggle_lines x) [Some ''undefined''] s') (fst x) ''aria-label'' = Some ''undefined''"
proof -
  have boring: "query_all example_buttons (Node 1) (\<lambda>r. has_class example_buttons r ''boring'') \<noteq> []"
    by (simp add: query_all_def example_buttons_def has_class_def eval_nat_numeral)
  have "completes (hide_lines (Node 1) example_buttons)" by code_simp
  then obtain s' where s': "hide_lines (Node 1) example_buttons = Done s'" by (auto simp: completes_iff)
  have known: "known example_buttons (Node 1)" by (simp add: known_def example_buttons_def)
  have "final (hide_lines (Node 1) example_buttons) = s'" using s' by simp
  then show ?thesis using lines_toggle [OF s' boring known refl refl, of "[]" "Some ''undefined''"]
    unfolding Let_def by simp
qed

end
