(* ===== verification/Rtic_Ticks.thy ===== *)
theory Rtic_Ticks
  imports Prelude "HOL-Library.Word"
begin

text \<open>
  Time in \<open>rtic-time\<close>: the wrapping tick counts of the timer queue (\<open>timer_queue/tick_type.rs\<close>, the
  trait and its instances for \<open>u32\<close> and \<open>u64\<close>, here words of any length), and the time computed from a
  half-period counter and a hardware counter (\<open>half_period_counter.rs\<close>).
\<close>

unbundle bit_operations_syntax

section \<open>Ticks\<close>

datatype ordering = Less | Equal | Greater

definition compare_ticks :: "'l::len word \<Rightarrow> 'l word \<Rightarrow> ordering" where
  \<comment> \<open>\<open>(self.wrapping_sub(other) as i32).cmp(&0)\<close>\<close>
  "compare_ticks a b =
     (let d = sint (a - b) in if d < 0 then Less else if d = 0 then Equal else Greater)"

definition is_at_least :: "'l::len word \<Rightarrow> 'l word \<Rightarrow> bool" where
  "is_at_least a b = (case compare_ticks a b of Less \<Rightarrow> False | Equal \<Rightarrow> True | Greater \<Rightarrow> True)"

definition wrapping_add :: "'l::len word \<Rightarrow> 'l word \<Rightarrow> 'l word" where
  "wrapping_add a b = a + b"

definition timeout_of :: "'l::len word \<Rightarrow> 'l word \<Rightarrow> 'l word" where
  \<comment> \<open>the instant \<open>delay\<close> and \<open>timeout_after\<close> compute from the present one and a duration\<close>
  "timeout_of now duration =
     (let timeout = wrapping_add now duration
      in if now \<noteq> timeout then wrapping_add timeout 1 else timeout)"

section \<open>Comparing across the wrap-around\<close>

text \<open>
  A tick count is an instant of absolute time, a natural number, of which the hardware keeps the low
  bits. Two instants are comparable when they are less than half the range apart.
\<close>

definition comparable :: "'l::len itself \<Rightarrow> nat \<Rightarrow> nat \<Rightarrow> bool" where
  "comparable l s t \<longleftrightarrow> s < t + 2 ^ (LENGTH('l) - 1) \<and> t < s + 2 ^ (LENGTH('l) - 1)"

lemma sint_diff:
  assumes "comparable TYPE('l::len) s t"
  shows "sint (word_of_nat s - word_of_nat t :: 'l word) = int s - int t"
proof -
  have d: "(word_of_nat s - word_of_nat t :: 'l word) = word_of_int (int s - int t)" by simp
  have "- (2 ^ (LENGTH('l) - 1)) \<le> int s - int t" "int s - int t < 2 ^ (LENGTH('l) - 1)"
    using assms by (simp_all add: comparable_def flip: of_nat_less_iff [where ?'a = int])
  then have "signed_take_bit (LENGTH('l) - 1) (int s - int t) = int s - int t"
    by (rule signed_take_bit_int_eq_self)
  then show ?thesis unfolding d by (simp only: signed_of_int One_nat_def of_int_eq_id id_apply)
qed

lemma compare_ticks_instants:
  assumes "comparable TYPE('l::len) s t"
  shows "compare_ticks (word_of_nat s :: 'l word) (word_of_nat t) =
    (if s < t then Less else if s = t then Equal else Greater)"
  using sint_diff [OF assms] by (simp add: compare_ticks_def Let_def)

lemma is_at_least_instants:
  assumes "comparable TYPE('l::len) s t"
  shows "is_at_least (word_of_nat s :: 'l word) (word_of_nat t) \<longleftrightarrow> t \<le> s"
  by (simp add: is_at_least_def compare_ticks_instants [OF assms])

lemma timeout_of_instants:
  assumes "d < 2 ^ LENGTH('l)"
  shows "timeout_of (word_of_nat t) (word_of_nat d :: 'l::len word) =
    word_of_nat (if d = 0 then t else t + d + 1)"
proof -
  have "word_of_nat d = (0 :: 'l word) \<longleftrightarrow> d = 0"
    using assms by (auto simp: word_of_nat_eq_0_iff dest: nat_dvd_not_less)
  then show ?thesis by (simp add: timeout_of_def wrapping_add_def Let_def)
qed

section \<open>The time from a half-period counter\<close>

text \<open>
  \<open>bits\<close> is \<open>T::BITS\<close>; the two arguments are the values of the closures, already converted to the word
  of the result. Addition wraps, as in a build without overflow checks; \<open>no_overflow\<close> says that a build
  with them does not panic.
\<close>

definition upper_half :: "nat \<Rightarrow> 'o::len word \<Rightarrow> 'o word" where
  "upper_half bits half_periods = push_bit (bits - 1) half_periods"

definition lower_half :: "nat \<Rightarrow> 'o::len word \<Rightarrow> 'o word" where
  "lower_half bits half_periods = push_bit (bits - 1) 1 AND upper_half bits half_periods"

definition calculate_now :: "nat \<Rightarrow> 'o::len word \<Rightarrow> 'o word \<Rightarrow> 'o word" where
  "calculate_now bits half_periods timer_value =
     upper_half bits half_periods + (lower_half bits half_periods XOR timer_value)"

definition no_overflow :: "nat \<Rightarrow> 'o::len word \<Rightarrow> 'o word \<Rightarrow> bool" where
  "no_overflow bits half_periods timer_value \<longleftrightarrow>
     unat (upper_half bits half_periods) + unat (lower_half bits half_periods XOR timer_value)
       < 2 ^ LENGTH('o)"

text \<open>
  What the hardware shows at an instant: the counter holds its low bits; the number of half periods has
  been counted, or the interrupt that counts the last one is still pending.
\<close>

definition reading :: "nat \<Rightarrow> nat \<Rightarrow> nat \<Rightarrow> nat \<Rightarrow> bool" where
  "reading bits t half_periods timer_value \<longleftrightarrow> timer_value = t mod 2 ^ bits \<and>
     (half_periods = t div 2 ^ (bits - 1) \<or> Suc half_periods = t div 2 ^ (bits - 1))"

lemma reading_sum:
  assumes "reading bits t p v" "0 < bits"
  shows "push_bit (bits - 1) p + ((push_bit (bits - 1) 1 AND push_bit (bits - 1) p) XOR v) = t"
proof -
  obtain k where k: "bits = Suc k" using assms(2) by (cases bits) auto
  define q r where "q = t div 2 ^ k" and "r = t mod 2 ^ k"
  have t: "t = q * 2 ^ k + r" and r: "r < 2 ^ k" unfolding q_def r_def by (rule div_mult_mod_eq [symmetric], simp)
  have m: "t mod 2 ^ Suc k = 2 ^ k * (q mod 2) + r"
    unfolding q_def r_def power_Suc2 by (rule mod_mult2_eq)
  have p: "p = q \<or> Suc p = q" and v: "v = 2 ^ k * (q mod 2) + r"
    using assms(1) m by (auto simp: reading_def k q_def)
  have b: "bit v k \<longleftrightarrow> odd q" using r by (simp add: bit_iff_odd v)
  have a: "push_bit k 1 AND push_bit k p = (if odd p then push_bit k 1 else 0)"
    unfolding push_bit_and [symmetric] by (cases "odd p") (simp_all add: one_and_eq mod_2_eq_odd)
  have "set_bit k (unset_bit k v) = v" if "bit v k"
    using that by (auto intro!: bit_eqI simp: bit_simps)
  then have u: "unset_bit k v = v - 2 ^ k" if "bit v k"
    using that by (simp add: set_bit_eq bit_unset_bit_iff)
  have x: "push_bit k 1 XOR v = (if bit v k then v - 2 ^ k else v + 2 ^ k)"
    unfolding xor.commute [of "push_bit k 1"] flip_bit_eq_xor [symmetric]
    using u by (simp add: flip_bit_eq_if set_bit_eq)
  have y: "(push_bit k 1 AND push_bit k p) XOR v =
    (if odd p then if odd q then v - 2 ^ k else v + 2 ^ k else v)"
    unfolding a by (cases "odd p") (simp_all only: if_True if_False not_False_eq_True not_True_eq_False x b xor.left_neutral)
  have h: "bits - 1 = k" by (simp add: k)
  show ?thesis
    unfolding h y unfolding push_bit_eq_mult using p by (auto simp: v t mod_2_eq_odd)
qed

lemma halves_of_nat:
  "upper_half bits (word_of_nat p :: 'o::len word) = word_of_nat (push_bit (bits - 1) p)"
  "lower_half bits (word_of_nat p :: 'o::len word) XOR word_of_nat v =
    word_of_nat ((push_bit (bits - 1) 1 AND push_bit (bits - 1) p) XOR v)"
  unfolding upper_half_def lower_half_def push_bit_of_nat [symmetric] of_nat_xor_eq of_nat_and_eq of_nat_1
  by (rule refl)+

lemma unat_word_of_nat: "n < 2 ^ LENGTH('l) \<Longrightarrow> unat (word_of_nat n :: 'l::len word) = n"
  by (simp add: unat_of_nat take_bit_nat_eq_self)

text \<open>
  C26: \<open>calculate_now\<close> gives the time, also when it races the end of a half period: whatever the hardware
  shows at instant \<open>t\<close>, with the last half period counted or its interrupt still pending, the result is
  \<open>t\<close>, and the addition does not overflow, as long as \<open>t\<close> fits the result.
\<close>

theorem calculate_now_correct:
  assumes "reading bits t p v" and "0 < bits" and "t < 2 ^ LENGTH('o::len)"
  shows "unat (calculate_now bits (word_of_nat p) (word_of_nat v) :: 'o word) = t \<and>
    no_overflow bits (word_of_nat p :: 'o word) (word_of_nat v)"
proof -
  have s: "push_bit (bits - 1) p + ((push_bit (bits - 1) 1 AND push_bit (bits - 1) p) XOR v) = t"
    using assms(1,2) by (rule reading_sum)
  have "calculate_now bits (word_of_nat p) (word_of_nat v) = (word_of_nat t :: 'o word)"
    unfolding calculate_now_def halves_of_nat of_nat_add [symmetric] s by (rule refl)
  moreover have "no_overflow bits (word_of_nat p :: 'o word) (word_of_nat v)"
    unfolding no_overflow_def halves_of_nat using s assms(3) by (subst (1 2) unat_word_of_nat) linarith+
  ultimately show ?thesis by (simp add: unat_word_of_nat assms(3))
qed

text \<open>A 16-bit timer just past its overflow, the interrupt pending: instant \<open>65537\<close>.\<close>

lemma calculate_now_correct_witness:
  "reading 16 65537 1 1 \<and> unat (calculate_now 16 (word_of_nat 1) (word_of_nat 1) :: 64 word) = 65537"
proof -
  have "reading 16 65537 1 1" by (simp add: reading_def)
  with calculate_now_correct [of 16 65537 1 1, where ?'o = 64] show ?thesis by simp
qed

text \<open>
  Ticks compare as the instants they stand for, also across the wrap-around, when these are less
  than half the range apart; and a delay or a timeout of \<open>d\<close> ticks requested at \<open>t\<close> is due only at an
  instant more than \<open>d\<close> ticks after \<open>t\<close> (or at once, when \<open>d\<close> is zero), as every later reading
  of the clock within half the range shows.
\<close>

lemma delay_lasts:
  assumes "2 \<le> LENGTH('l::len)" and "d < 2 ^ (LENGTH('l) - 1) - 1" and "t \<le> now" and
    "now < t + 2 ^ (LENGTH('l) - 1)"
  shows "is_at_least (word_of_nat now :: 'l word) (timeout_of (word_of_nat t) (word_of_nat d)) \<longleftrightarrow>
    (if d = 0 then t \<le> now else t + d < now)"
proof -
  have "(2 :: nat) ^ (LENGTH('l) - 1) \<le> 2 ^ LENGTH('l)" by (rule power_increasing) simp_all
  with assms(2) have "d < 2 ^ LENGTH('l)" by linarith
  moreover have "comparable TYPE('l) now (if d = 0 then t else t + d + 1)"
    using assms(2-4) by (auto simp: comparable_def)
  ultimately show ?thesis by (simp add: timeout_of_instants is_at_least_instants Suc_le_eq)
qed

lemma delay_lasts_witness:
  "is_at_least (word_of_nat 4294967301 :: 32 word) (timeout_of (word_of_nat 4294967290) (word_of_nat 10))"
  using delay_lasts [of 10 4294967290 4294967301, where ?'l = 32] by simp

end
