(* ===== verification/Rtic_Timer_List.thy ===== *)
theory Rtic_Timer_List
  imports Prelude "HOL-Library.Monad_Syntax"
begin

text \<open>
  The intrusive linked list of the timer queue (\<open>rtic-time/src/linked_list.rs\<close>): links in memory that
  lead to each other by address, a head, and the operations \<open>pop_if\<close>, \<open>delete\<close> and \<open>insert\<close>, each one
  critical section. An operation that reads or writes a link that is not there is undefined in the
  code; here it is \<open>None\<close>, as is a loop that does not end. The refinement lemmas say that neither happens
  and what the operations do to the list of addresses.
\<close>

section \<open>Links\<close>

record 'a link =
  val :: 'a
  nxt :: "nat option"

type_synonym 'a links = "nat \<Rightarrow> 'a link option"

record 'a linked_list =
  list_head :: "nat option"
  links :: "'a links"

definition new_list :: "'a links \<Rightarrow> 'a linked_list" where
  "new_list m = \<lparr>list_head = None, links = m\<rparr>"

definition new_link :: "'a \<Rightarrow> 'a link" where
  "new_link v = \<lparr>val = v, nxt = None\<rparr>"

definition set_next :: "nat \<Rightarrow> nat option \<Rightarrow> 'a links \<Rightarrow> 'a links option" where
  \<comment> \<open>\<open>next.store\<close>\<close>
  "set_next a p m = (case m a of None \<Rightarrow> None | Some l \<Rightarrow> Some (m(a \<mapsto> l\<lparr>nxt := p\<rparr>)))"

section \<open>Operations\<close>

text \<open>The closure of \<open>pop_if\<close> may change atomics of the value and the variables it captures, of type \<open>'c\<close>.\<close>

definition pop_if ::
  "('a \<Rightarrow> 'c \<Rightarrow> bool \<times> 'a \<times> 'c) \<Rightarrow> 'c \<Rightarrow> 'a linked_list \<Rightarrow> ('a option \<times> 'c \<times> 'a linked_list) option" where
  "pop_if f c s =
     (case list_head s of
        None \<Rightarrow> Some (None, c, s)
      | Some h \<Rightarrow> do {
          l \<leftarrow> links s h;
          let (pop, v, c') = f (val l) c;
          let m = (links s)(h \<mapsto> l\<lparr>val := v\<rparr>);
          if pop then Some (Some v, c', \<lparr>list_head = nxt l, links = m\<rparr>)
          else Some (None, c', s\<lparr>links := m\<rparr>)
        })"

partial_function (option) delete_loop :: "nat \<Rightarrow> nat \<Rightarrow> nat option \<Rightarrow> 'a links \<Rightarrow> 'a links option" where
  "delete_loop addr cur next m =
     (case next of
        None \<Rightarrow> Some m
      | Some n \<Rightarrow> do {
          l \<leftarrow> m n;
          if n = addr then set_next cur (nxt l) m
          else delete_loop addr n (nxt l) m
        })"

definition delete_link :: "nat \<Rightarrow> 'a linked_list \<Rightarrow> 'a linked_list option" where
  "delete_link addr s =
     (case list_head s of
        None \<Rightarrow> Some s
      | Some h \<Rightarrow> do {
          l \<leftarrow> links s h;
          if h = addr then Some (s\<lparr>list_head := nxt l\<rparr>)
          else do {
            m \<leftarrow> delete_loop addr h (nxt l) (links s);
            Some (s\<lparr>links := m\<rparr>)
          }
        })"

partial_function (option) insert_loop ::
  "('a \<Rightarrow> 'a \<Rightarrow> bool) \<Rightarrow> nat \<Rightarrow> nat \<Rightarrow> nat option \<Rightarrow> 'a links \<Rightarrow> 'a links option" where
  "insert_loop lt new cur next m =
     (case next of
        None \<Rightarrow> set_next cur (Some new) m
      | Some n \<Rightarrow> do {
          l \<leftarrow> m n;
          v \<leftarrow> m new;
          if lt (val v) (val l) then do {
            m' \<leftarrow> set_next new (Some n) m;
            set_next cur (Some new) m'
          }
          else insert_loop lt new n (nxt l) m
        })"

definition insert_link ::
  "('a \<Rightarrow> 'a \<Rightarrow> bool) \<Rightarrow> nat \<Rightarrow> 'a linked_list \<Rightarrow> ((bool \<times> nat) \<times> 'a linked_list) option" where
  "insert_link lt new s =
     (case list_head s of
        None \<Rightarrow> Some ((True, new), s\<lparr>list_head := Some new\<rparr>)
      | Some h \<Rightarrow> do {
          l \<leftarrow> links s h;
          v \<leftarrow> links s new;
          if lt (val v) (val l) then do {
            m \<leftarrow> set_next new (Some h) (links s);
            Some ((True, new), \<lparr>list_head = Some new, links = m\<rparr>)
          }
          else do {
            m \<leftarrow> insert_loop lt new h (nxt l) (links s);
            Some ((False, new), s\<lparr>links := m\<rparr>)
          }
        })"

section \<open>The list of addresses\<close>

primrec chain :: "'a links \<Rightarrow> nat option \<Rightarrow> nat list \<Rightarrow> bool" where
  "chain m p [] = (p = None)"
| "chain m p (a # as) = (p = Some a \<and> (\<exists>l. m a = Some l \<and> chain m (nxt l) as))"

definition holds :: "'a linked_list \<Rightarrow> nat list \<Rightarrow> bool" where
  "holds s as = chain (links s) (list_head s) as"

definition value_at :: "'a links \<Rightarrow> nat \<Rightarrow> 'a option" where
  "value_at m a = map_option val (m a)"

lemma chain_None [simp]: "chain m None as \<longleftrightarrow> as = []"
  by (cases as) auto

lemma chain_Some: "chain m (Some a) as \<longleftrightarrow> (\<exists>l bs. as = a # bs \<and> m a = Some l \<and> chain m (nxt l) bs)"
  by (cases as) auto

lemma chain_unique: "chain m p as \<Longrightarrow> chain m p bs \<Longrightarrow> as = bs"
  by (induction as arbitrary: p bs) (auto simp: chain_Some)

lemma chain_suffix: "chain m p (as @ b # bs) \<Longrightarrow> chain m (Some b) (b # bs)"
  by (induction as arbitrary: p) auto

lemma chain_distinct: "chain m p as \<Longrightarrow> distinct as"
proof (induction as arbitrary: p)
  case (Cons a as)
  have "a \<notin> set as"
  proof
    assume "a \<in> set as"
    then obtain ys zs where as: "as = ys @ a # zs" by (meson split_list)
    have "chain m p ((a # ys) @ a # zs)" using Cons.prems by (simp add: as)
    then have "chain m (Some a) (a # zs)" by (rule chain_suffix)
    moreover have "chain m (Some a) (a # as)" using Cons.prems by simp
    ultimately have "a # zs = a # as" by (rule chain_unique)
    then show False by (simp add: as)
  qed
  with Cons show ?case by auto
qed simp

lemma chain_cong: "(\<And>a. a \<in> set as \<Longrightarrow> m' a = m a) \<Longrightarrow> chain m' p as = chain m p as"
  by (induction as arbitrary: p) auto

lemma chain_mapped: "chain m p as \<Longrightarrow> a \<in> set as \<Longrightarrow> \<exists>l. m a = Some l"
  by (induction as arbitrary: p) auto

lemma chain_update_outside [simp]: "a \<notin> set as \<Longrightarrow> chain (m(a := x)) p as = chain m p as"
  by (rule chain_cong) auto

lemma value_at_update: "value_at (m(a := x)) b = (if b = a then map_option val x else value_at m b)"
  by (simp add: value_at_def)

definition unchanged :: "nat set \<Rightarrow> 'a links \<Rightarrow> 'a links \<Rightarrow> bool" where
  \<comment> \<open>only the links at these addresses differ, and these only in their \<open>next\<close>\<close>
  "unchanged A m m' \<longleftrightarrow> value_at m' = value_at m \<and> (\<forall>a. a \<notin> A \<longrightarrow> m' a = m a)"

lemma unchanged_refl [simp]: "unchanged A m m"
  by (simp add: unchanged_def)

lemma unchanged_mono: "unchanged A m m' \<Longrightarrow> A \<subseteq> B \<Longrightarrow> unchanged B m m'"
  by (auto simp: unchanged_def)

lemma unchanged_trans: "unchanged A m m' \<Longrightarrow> unchanged A m' m'' \<Longrightarrow> unchanged A m m''"
  by (auto simp: unchanged_def)

lemma set_next_Some: "m a = Some l \<Longrightarrow> set_next a p m = Some (m(a \<mapsto> l\<lparr>nxt := p\<rparr>))"
  by (simp add: set_next_def)

lemma unchanged_set_next: "m a = Some l \<Longrightarrow> a \<in> A \<Longrightarrow> unchanged A m (m(a \<mapsto> l\<lparr>nxt := p\<rparr>))"
  by (auto simp: unchanged_def value_at_def fun_eq_iff)

section \<open>What the operations do to it\<close>

primrec insert_by :: "('b \<Rightarrow> 'b \<Rightarrow> bool) \<Rightarrow> 'b \<Rightarrow> 'b list \<Rightarrow> 'b list" where
  "insert_by lt x [] = [x]"
| "insert_by lt x (y # ys) = (if lt x y then x # y # ys else y # insert_by lt x ys)"

definition less_at :: "('a \<Rightarrow> 'a \<Rightarrow> bool) \<Rightarrow> 'a links \<Rightarrow> nat \<Rightarrow> nat \<Rightarrow> bool" where
  "less_at lt m a b = lt (val (the (m a))) (val (the (m b)))"

lemma set_insert_by [simp]: "set (insert_by lt x ys) = insert x (set ys)"
  by (induction ys) auto

lemma distinct_insert_by [simp]: "distinct (insert_by lt x ys) \<longleftrightarrow> x \<notin> set ys \<and> distinct ys"
  by (induction ys) auto

lemma insert_by_cong:
  "(\<And>y. y \<in> set ys \<Longrightarrow> lt x y = lt' x y) \<Longrightarrow> insert_by lt x ys = insert_by lt' x ys"
  by (induction ys) auto

lemma remove1_unchanged_notin: "chain m p as \<Longrightarrow> a \<notin> set as \<Longrightarrow> remove1 a as = as"
  by (simp add: remove1_idem)

lemma delete_loop_chain:
  assumes "chain m p bs" and "m c = Some l" and "nxt l = p" and "c \<notin> set bs"
  shows "\<exists>m'. delete_loop addr c p m = Some m' \<and> chain m' (Some c) (c # remove1 addr bs) \<and>
    unchanged (insert c (set bs)) m m'"
  using assms
proof (induction bs arbitrary: c p l)
  case Nil
  then show ?case by (subst delete_loop.simps) auto
next
  case (Cons n bs)
  from Cons.prems obtain k where k: "m n = Some k" "chain m (nxt k) bs" and p: "p = Some n" by auto
  have n: "n \<notin> set bs" using chain_distinct [OF Cons.prems(1)] by simp
  show ?case
  proof (cases "n = addr")
    case True
    then show ?thesis
      using Cons.prems k p n
      by (subst delete_loop.simps) (simp add: set_next_Some unchanged_set_next)
  next
    case False
    obtain m' where m': "delete_loop addr n (nxt k) m = Some m'"
      "chain m' (Some n) (n # remove1 addr bs)" "unchanged (insert n (set bs)) m m'"
      using Cons.IH [OF k(2) k(1) refl n] by auto
    have "m' c = Some l" using m'(3) Cons.prems by (simp add: unchanged_def)
    then show ?thesis
      using m' False k p Cons.prems by (subst delete_loop.simps) (auto simp: unchanged_def)
  qed
qed

lemma insert_loop_chain:
  assumes "chain m p bs" and "m c = Some l" and "nxt l = p" and "c \<notin> set bs" and
    "m new = Some v" and "nxt v = None" and "new \<notin> set bs" and "new \<noteq> c"
  shows "\<exists>m'. insert_loop lt new c p m = Some m' \<and>
    chain m' (Some c) (c # insert_by (less_at lt m) new bs) \<and>
    unchanged (insert c (insert new (set bs))) m m'"
  using assms
proof (induction bs arbitrary: c p l)
  case Nil
  then show ?case
    by (subst insert_loop.simps) (simp add: set_next_Some unchanged_set_next)
next
  case (Cons n bs)
  from Cons.prems obtain k where k: "m n = Some k" "chain m (nxt k) bs" and p: "p = Some n" by auto
  have n: "n \<notin> set bs" using chain_distinct [OF Cons.prems(1)] by simp
  show ?case
  proof (cases "lt (val v) (val k)")
    case True
    let ?m = "m(new \<mapsto> v\<lparr>nxt := Some n\<rparr>)"
    have "?m c = Some l" using Cons.prems by simp
    moreover have "unchanged (insert c (insert new (set (n # bs)))) m ?m"
      using Cons.prems by (intro unchanged_set_next) auto
    ultimately have "unchanged (insert c (insert new (set (n # bs)))) m (?m(c \<mapsto> l\<lparr>nxt := Some new\<rparr>))"
      by (blast intro: unchanged_trans unchanged_set_next)
    then show ?thesis
      using True Cons.prems k p n
      by (subst insert_loop.simps) (simp add: set_next_Some less_at_def)
  next
    case False
    obtain m' where m': "insert_loop lt new n (nxt k) m = Some m'"
      "chain m' (Some n) (n # insert_by (less_at lt m) new bs)"
      "unchanged (insert n (insert new (set bs))) m m'"
      using Cons.IH [OF k(2) k(1) refl n] Cons.prems by auto
    have "m' c = Some l" using m'(3) Cons.prems by (simp add: unchanged_def)
    then show ?thesis
      using m' False k p Cons.prems
      by (subst insert_loop.simps) (auto simp: unchanged_def less_at_def)
  qed
qed

lemma delete_link_holds:
  assumes "holds s as"
  obtains s' where "delete_link addr s = Some s'" and "holds s' (remove1 addr as)" and
    "unchanged (set as) (links s) (links s')"
proof (cases as)
  case Nil
  with assms show thesis by (intro that [of s]) (auto simp: holds_def delete_link_def)
next
  case (Cons h bs)
  with assms obtain l where l: "list_head s = Some h" "links s h = Some l" "chain (links s) (nxt l) bs"
    by (auto simp: holds_def)
  have h: "h \<notin> set bs" using chain_distinct [of "links s" _ as] assms Cons by (simp add: holds_def)
  show thesis
  proof (cases "h = addr")
    case True
    then show thesis
      using l Cons by (intro that [of "s\<lparr>list_head := nxt l\<rparr>"]) (simp_all add: delete_link_def holds_def)
  next
    case False
    obtain m where "delete_loop addr h (nxt l) (links s) = Some m" "chain m (Some h) (h # remove1 addr bs)"
      "unchanged (insert h (set bs)) (links s) m"
      using delete_loop_chain [OF l(3,2) refl h] by blast
    then show thesis
      using False l Cons by (intro that [of "s\<lparr>links := m\<rparr>"]) (simp_all add: delete_link_def holds_def)
  qed
qed

lemma insert_link_holds:
  assumes "holds s as" and "links s new = Some v" and "nxt v = None" and "new \<notin> set as"
  obtains s' where
    "insert_link lt new s =
      Some ((list_head s' = Some new, new), s')" and
    "holds s' (insert_by (less_at lt (links s)) new as)" and
    "unchanged (insert new (set as)) (links s) (links s')"
proof (cases as)
  case Nil
  with assms show thesis
    by (intro that [of "s\<lparr>list_head := Some new\<rparr>"]) (auto simp: holds_def insert_link_def)
next
  case (Cons h bs)
  with assms obtain l where l: "list_head s = Some h" "links s h = Some l" "chain (links s) (nxt l) bs"
    by (auto simp: holds_def)
  have h: "h \<notin> set bs" using chain_distinct [of "links s" _ as] assms Cons by (simp add: holds_def)
  show thesis
  proof (cases "lt (val v) (val l)")
    case True
    let ?m = "(links s)(new \<mapsto> v\<lparr>nxt := Some h\<rparr>)"
    show thesis
      using True l Cons assms
      by (intro that [of "\<lparr>list_head = Some new, links = ?m\<rparr>"])
        (auto simp: insert_link_def holds_def set_next_Some less_at_def intro: unchanged_set_next)
  next
    case False
    obtain m where m: "insert_loop lt new h (nxt l) (links s) = Some m"
      "chain m (Some h) (h # insert_by (less_at lt (links s)) new bs)"
      "unchanged (insert h (insert new (set bs))) (links s) m"
      using insert_loop_chain [OF l(3,2) refl h assms(2,3), of lt] assms(4) Cons by auto
    show thesis
      using False l Cons assms m
      by (intro that [of "s\<lparr>links := m\<rparr>"])
        (auto simp: insert_link_def holds_def less_at_def insert_commute)
  qed
qed

lemma pop_if_holds:
  assumes "holds s as"
  shows "pop_if f c s = (case as of
      [] \<Rightarrow> Some (None, c, s)
    | h # bs \<Rightarrow> let l = the (links s h); (pop, v, c') = f (val l) c; m = (links s)(h \<mapsto> l\<lparr>val := v\<rparr>)
        in if pop then Some (Some v, c', \<lparr>list_head = nxt l, links = m\<rparr>)
           else Some (None, c', s\<lparr>links := m\<rparr>))"
  using assms by (cases as) (auto simp: holds_def pop_if_def Let_def cong: if_cong)

lemma remove1_insert_by: "x \<notin> set ys \<Longrightarrow> remove1 x (insert_by lt x ys) = ys"
  by (induction ys) auto

lemma insert_by_split:
  "insert_by lt x ys = takeWhile (\<lambda>y. \<not> lt x y) ys @ x # dropWhile (\<lambda>y. \<not> lt x y) ys"
  by (induction ys) auto

text \<open>
  C27: The operations on links in memory are those on the list of their addresses. A new link goes in after
  every link that is not greater, the result says whether it is the head; deleting it by the address that
  the insertion returned gives the list there was; and neither touches a value or a link outside the list.
\<close>

theorem timer_list_refines:
  assumes "holds s as" and "links s new = Some v" and "nxt v = None" and "new \<notin> set as"
  shows "\<exists>s' s''. insert_link lt new s = Some ((list_head s' = Some new, new), s') \<and>
    holds s' (takeWhile (\<lambda>a. \<not> less_at lt (links s) new a) as @ new #
      dropWhile (\<lambda>a. \<not> less_at lt (links s) new a) as) \<and>
    unchanged (insert new (set as)) (links s) (links s') \<and>
    delete_link new s' = Some s'' \<and> holds s'' as \<and> unchanged (insert new (set as)) (links s) (links s'')"
proof -
  obtain s' where s': "insert_link lt new s = Some ((list_head s' = Some new, new), s')"
    "holds s' (insert_by (less_at lt (links s)) new as)" "unchanged (insert new (set as)) (links s) (links s')"
    by (rule insert_link_holds [OF assms])
  obtain s'' where s'': "delete_link new s' = Some s''" "holds s'' as"
    "unchanged (insert new (set as)) (links s') (links s'')"
    using delete_link_holds [OF s'(2), of new] by (auto simp: remove1_insert_by assms(4))
  show ?thesis
    using s' s'' unchanged_trans [OF s'(3) s''(3)] unfolding insert_by_split by blast
qed

lemma timer_list_refines_witness:
  "\<exists>s'. insert_link (<) 2 \<lparr>list_head = Some 1, links = [1 \<mapsto> new_link (4 :: nat), 2 \<mapsto> new_link 4]\<rparr> =
    Some ((False, 2), s') \<and> holds s' [1, 2]"
proof -
  let ?s = "\<lparr>list_head = Some 1, links = [1 \<mapsto> new_link (4 :: nat), 2 \<mapsto> new_link 4]\<rparr>"
  have "holds ?s [1]" by (simp add: holds_def new_link_def)
  from timer_list_refines [OF this, of 2 "new_link 4" "(<)"] show ?thesis
    by (auto simp: new_link_def less_at_def holds_def)
qed

end
