(* ===== verification/Rtic_Timer_Queue.thy ===== *)
theory Rtic_Timer_Queue
  imports Rtic_Ticks Rtic_Timer_List
begin

text \<open>
  The timer queue (\<open>rtic-time/src/timer_queue.rs\<close>) as a state machine whose steps are what runs without
  interruption: a critical section, a reading of the clock, a call of the back end. Tasks create, poll
  and drop delays; the interrupt handler of the monotonic runs between any two of their steps; the clock
  advances between any two steps. The back end is a clock of which the code reads the low bits, a compare
  register that pends the interrupt when the clock reaches it, and a pending flag.
\<close>

section \<open>State\<close>

record ('w, 't) waiting_waker =
  waker :: 'w
  release_at :: 't
  was_popped :: bool

datatype 'w delay_stage =
    Resting             \<comment> \<open>not in \<open>poll\<close> and not in \<open>drop\<close>\<close>
  | Inserting 'w        \<comment> \<open>in \<open>poll\<close>, before the insertion\<close>
  | Inserted bool nat   \<comment> \<open>in \<open>poll\<close>, with what the insertion returned\<close>
  | Dropping            \<comment> \<open>in \<open>drop\<close>, before the deletion\<close>

text \<open>The link of a delay, \<open>link_ptr\<close>, is the link in memory at the address of the delay.\<close>

record ('w, 't) delay =
  instant :: 't
  marker :: nat
  stage :: "'w delay_stage"
  ready :: bool         \<comment> \<open>a poll has returned \<open>Ready\<close>\<close>

datatype 't phase = Idle | Popping | Arming 't | Checking 't | Disabling

text \<open>
  Of the fields, \<open>due\<close> and \<open>target\<close> are not in the code: the instants of absolute time which the ticks of
  the delays and of the handler stand for.
\<close>

record ('w, 't) timers =
  queue :: "('w, 't) waiting_waker linked_list"
  initialized :: bool
  delays :: "nat \<Rightarrow> ('w, 't) delay option"
  handler :: "'t phase"
  woken :: "'w list"
  clock :: nat
  enabled :: bool
  compare_at :: 't
  pending :: bool
  due :: "nat \<Rightarrow> nat"
  target :: nat

definition new_timers :: "('w, 'l::len word) timers" where
  "new_timers = \<lparr>queue = new_list Map.empty, initialized = False, delays = Map.empty, handler = Idle,
     woken = [], clock = 0, enabled = False, compare_at = 0, pending = False, due = (\<lambda>_. 0), target = 0\<rparr>"

definition now_ticks :: "('w, 'l::len word) timers \<Rightarrow> 'l word" where
  \<comment> \<open>\<open>Backend::now\<close>\<close>
  "now_ticks s = word_of_nat (clock s)"

definition earlier :: "('w, 'l::len word) waiting_waker \<Rightarrow> ('w, 'l word) waiting_waker \<Rightarrow> bool" where
  \<comment> \<open>\<open><\<close> by \<open>partial_cmp\<close>\<close>
  "earlier v w \<longleftrightarrow> compare_ticks (release_at v) (release_at w) = Less"

section \<open>Delays\<close>

definition initialize :: "('w, 'l word) timers \<Rightarrow> ('w, 'l word) timers" where
  "initialize s = s\<lparr>initialized := True\<rparr>"

definition new_delay :: "'l word \<Rightarrow> ('w, 'l word) delay" where
  "new_delay i = \<lparr>instant = i, marker = 0, stage = Resting, ready = False\<rparr>"

definition timeout_at :: "nat \<Rightarrow> 'l word \<Rightarrow> ('w, 'l word) timers \<Rightarrow> ('w, 'l word) timers" where
  \<comment> \<open>the delay of the timeout is at address \<open>a\<close>\<close>
  "timeout_at a i s = s\<lparr>delays := (delays s)(a \<mapsto> new_delay i)\<rparr>"

definition delay_until :: "nat \<Rightarrow> 'l word \<Rightarrow> ('w, 'l word) timers \<Rightarrow> ('w, 'l word) timers option" where
  \<comment> \<open>the delay is at address \<open>a\<close>; \<open>None\<close> is the panic\<close>
  "delay_until a i s =
     (if initialized s then Some (s\<lparr>delays := (delays s)(a \<mapsto> new_delay i)\<rparr>) else None)"

definition set_delay :: "nat \<Rightarrow> ('w, 'l word) delay \<Rightarrow> ('w, 'l word) timers \<Rightarrow> ('w, 'l word) timers" where
  "set_delay a d s = s\<lparr>delays := (delays s)(a \<mapsto> d)\<rparr>"

definition poll :: "nat \<Rightarrow> 'w \<Rightarrow> ('w, 'l::len word) timers \<Rightarrow> ('w, 'l word) timers option" where
  \<comment> \<open>up to the insertion\<close>
  "poll a w s = do {
     d \<leftarrow> delays s a;
     if is_at_least (now_ticks s) (instant d) then Some (set_delay a (d\<lparr>ready := True\<rparr>) s)
     else if links (queue s) a = None then Some (set_delay a (d\<lparr>stage := Inserting w\<rparr>) s)
     else Some s
   }"

text \<open>\<open>Timeout\<close>: the future inside is polled first; \<open>r\<close> is what that gave.\<close>

datatype 'r timed = Completed 'r | TimeoutError

definition poll_timeout ::
  "'r option \<Rightarrow> nat \<Rightarrow> 'w \<Rightarrow> ('w, 'l::len word) timers \<Rightarrow> ('r timed option \<times> ('w, 'l word) timers) option" where
  "poll_timeout r a w s =
     (case r of
        Some v \<Rightarrow> Some (Some (Completed v), s)
      | None \<Rightarrow> do {
          d \<leftarrow> delays s a;
          s' \<leftarrow> poll a w s;
          Some (if is_at_least (now_ticks s) (instant d) then Some TimeoutError else None, s')
        })"

definition poll_insert :: "nat \<Rightarrow> 'w \<Rightarrow> ('w, 'l::len word) timers \<Rightarrow> ('w, 'l word) timers option" where
  \<comment> \<open>the new link and \<open>queue.insert\<close>\<close>
  "poll_insert a w s = do {
     d \<leftarrow> delays s a;
     let l = new_link \<lparr>waker = w, release_at = instant d, was_popped = False\<rparr>;
     ((head_updated, addr), q) \<leftarrow>
       insert_link earlier a ((queue s)\<lparr>links := (links (queue s))(a \<mapsto> l)\<rparr>);
     Some (set_delay a (d\<lparr>stage := Inserted head_updated addr\<rparr>) (s\<lparr>queue := q\<rparr>))
   }"

definition poll_pend :: "nat \<Rightarrow> bool \<Rightarrow> nat \<Rightarrow> ('w, 'l word) timers \<Rightarrow> ('w, 'l word) timers option" where
  \<comment> \<open>\<open>marker.store\<close> and \<open>pend_interrupt\<close>\<close>
  "poll_pend a head_updated addr s = do {
     d \<leftarrow> delays s a;
     let s' = set_delay a (d\<lparr>marker := addr, stage := Resting\<rparr>) s;
     Some (if head_updated then s'\<lparr>pending := True\<rparr> else s')
   }"

definition release :: "nat \<Rightarrow> ('w, 'l word) timers \<Rightarrow> ('w, 'l word) timers" where
  \<comment> \<open>the memory of the delay, and of its link, is free\<close>
  "release a s = s\<lparr>delays := (delays s)(a := None),
     queue := (queue s)\<lparr>links := (links (queue s))(a := None)\<rparr>\<rparr>"

definition drop_delay :: "nat \<Rightarrow> ('w, 'l word) timers \<Rightarrow> ('w, 'l word) timers option" where
  \<comment> \<open>up to the deletion\<close>
  "drop_delay a s = do {
     d \<leftarrow> delays s a;
     case links (queue s) a of
       None \<Rightarrow> Some (release a s)
     | Some l \<Rightarrow> if was_popped (val l) then Some (release a s)
                 else Some (set_delay a (d\<lparr>stage := Dropping\<rparr>) s)
   }"

definition drop_delete :: "nat \<Rightarrow> ('w, 'l word) timers \<Rightarrow> ('w, 'l word) timers option" where
  "drop_delete a s = do {
     d \<leftarrow> delays s a;
     q \<leftarrow> delete_link (marker d) (queue s);
     Some (release a (s\<lparr>queue := q\<rparr>))
   }"

section \<open>The interrupt handler\<close>

definition enter :: "('w, 'l word) timers \<Rightarrow> ('w, 'l word) timers" where
  \<comment> \<open>\<open>clear_compare_flag\<close> and \<open>on_interrupt\<close>\<close>
  "enter s = s\<lparr>pending := False, handler := Popping\<rparr>"

definition release_due ::
  "'l::len word \<Rightarrow> ('w, 'l word) waiting_waker \<Rightarrow> 'l word option \<Rightarrow> bool \<times> ('w, 'l word) waiting_waker \<times> 'l word option"
  where
  \<comment> \<open>the closure of \<open>pop_if\<close>\<close>
  "release_due now v _ =
     (let should_pop = is_at_least now (release_at v)
      in (should_pop, v\<lparr>was_popped := should_pop\<rparr>, Some (release_at v)))"

definition handle_pop :: "('w, 'l::len word) timers \<Rightarrow> ('w, 'l word) timers option" where
  "handle_pop s = do {
     (r, at, q) \<leftarrow> pop_if (release_due (now_ticks s)) None (queue s);
     let s' = s\<lparr>queue := q\<rparr>;
     Some (case r of
         Some link \<Rightarrow> s'\<lparr>woken := woken s @ [waker link]\<rparr>
       | None \<Rightarrow> (case at of
           Some i \<Rightarrow> s'\<lparr>handler := Arming i, target := due s (the (list_head q))\<rparr>
         | None \<Rightarrow> s'\<lparr>handler := Disabling\<rparr>))
   }"

definition handle :: "('w, 'l::len word) timers \<Rightarrow> ('w, 'l word) timers option" where
  "handle s = (case handler s of
     Idle \<Rightarrow> Some s
   | Popping \<Rightarrow> handle_pop s
   | Arming i \<Rightarrow> Some (s\<lparr>enabled := True, compare_at := i, handler := Checking i\<rparr>)
   | Checking i \<Rightarrow> Some (s\<lparr>handler := if is_at_least (now_ticks s) i then Popping else Idle\<rparr>)
   | Disabling \<Rightarrow> Some (s\<lparr>enabled := False, handler := Idle\<rparr>))"

section \<open>The clock\<close>

definition tick :: "('w, 'l::len word) timers \<Rightarrow> ('w, 'l word) timers" where
  "tick s = (let t = Suc (clock s) in
     s\<lparr>clock := t, pending := pending s \<or> enabled s \<and> compare_at s = word_of_nat t\<rparr>)"

text \<open>
  Half of the range within which ticks compare, and an instant near the clock. The timer queue is used
  within this range: no delay is longer, and every delay is gone, and the handler is done with an
  instant, that long after the instant.
\<close>

definition horizon :: "'l::len itself \<Rightarrow> nat" where
  "horizon l = 2 ^ (LENGTH('l) - 2)"

definition near :: "('w, 'l::len word) timers \<Rightarrow> nat \<Rightarrow> bool" where
  "near s t \<longleftrightarrow> clock s < t + horizon TYPE('l) \<and> t \<le> clock s + horizon TYPE('l)"

definition may_tick :: "('w, 'l::len word) timers \<Rightarrow> bool" where
  "may_tick s \<longleftrightarrow> (\<forall>a. delays s a \<noteq> None \<longrightarrow> Suc (clock s) < due s a + horizon TYPE('l)) \<and>
     (case handler s of Arming _ \<Rightarrow> Suc (clock s) < target s + horizon TYPE('l)
      | Checking _ \<Rightarrow> Suc (clock s) < target s + horizon TYPE('l) | _ \<Rightarrow> True)"

section \<open>Steps\<close>

inductive timer_step :: "('w, 'l::len word) timers \<Rightarrow> ('w, 'l word) timers \<Rightarrow> bool" where
  step_initialize: "timer_step s (initialize s)"
| step_create: "timer_step s s'"
    if "delays s a = None" "links (queue s) a = None" "near s t" "delay_until a (word_of_nat t) s = Some s1"
      "s' = s1\<lparr>due := (due s)(a := t)\<rparr>"
| step_timeout: "timer_step s ((timeout_at a (word_of_nat t) s)\<lparr>due := (due s)(a := t)\<rparr>)"
    if "delays s a = None" "links (queue s) a = None" "near s t"
| step_poll: "timer_step s s'"
    if "delays s a = Some d" "stage d = Resting" "poll a w s = Some s'"
| step_insert: "timer_step s s'"
    if "delays s a = Some d" "stage d = Inserting w" "poll_insert a w s = Some s'"
| step_pend: "timer_step s s'"
    if "delays s a = Some d" "stage d = Inserted h m" "poll_pend a h m s = Some s'"
| step_drop: "timer_step s s'"
    if "delays s a = Some d" "stage d = Resting" "drop_delay a s = Some s'"
| step_delete: "timer_step s s'"
    if "delays s a = Some d" "stage d = Dropping" "drop_delete a s = Some s'"
| step_enter: "timer_step s (enter s)" if "pending s" "handler s = Idle"
| step_handle: "timer_step s s'" if "handler s \<noteq> Idle" "handle s = Some s'"
| step_tick: "timer_step s (tick s)" if "may_tick s"

section \<open>The invariant\<close>

text \<open>
  Of each delay: what its link and its stage say of each other. A link is in the list until it is popped
  or deleted; it is popped only when its instant has come; a poll returns \<open>Ready\<close> only then.
\<close>

definition delay_ok :: "('w, 'l::len word) timers \<Rightarrow> nat list \<Rightarrow> nat \<Rightarrow> bool" where
  "delay_ok s as a \<longleftrightarrow>
     (case delays s a of
        None \<Rightarrow> links (queue s) a = None \<and> a \<notin> set as
      | Some d \<Rightarrow> instant d = word_of_nat (due s a) \<and> near s (due s a) \<and> (ready d \<longrightarrow> due s a \<le> clock s) \<and>
          (case value_at (links (queue s)) a of
             None \<Rightarrow> a \<notin> set as \<and> (case stage d of Resting \<Rightarrow> True | Inserting _ \<Rightarrow> True | _ \<Rightarrow> False)
           | Some v \<Rightarrow> release_at v = instant d \<and> (was_popped v \<longleftrightarrow> a \<notin> set as) \<and>
               (was_popped v \<longrightarrow> due s a \<le> clock s) \<and>
               (case stage d of Inserting _ \<Rightarrow> False | Inserted _ m \<Rightarrow> m = a | _ \<Rightarrow> marker d = a)))"

text \<open>
  Nothing has asked for the handler: the interrupt is not pending, and no task is between an insertion at
  the head and pending it.
\<close>

definition settled :: "('w, 't) timers \<Rightarrow> bool" where
  "settled s \<longleftrightarrow> \<not> pending s \<and> (\<forall>a d m. delays s a = Some d \<longrightarrow> stage d \<noteq> Inserted True m)"

definition armed :: "('w, 'l::len word) timers \<Rightarrow> nat list \<Rightarrow> bool" where
  "armed s as \<longleftrightarrow> (settled s \<and> as \<noteq> [] \<longrightarrow>
     (case handler s of
        Idle \<Rightarrow> enabled s \<and> compare_at s = word_of_nat (target s) \<and> clock s < target s \<and>
          target s \<le> due s (hd as)
      | Popping \<Rightarrow> True
      | Arming i \<Rightarrow> target s \<le> due s (hd as)
      | Checking i \<Rightarrow> enabled s \<and> compare_at s = word_of_nat (target s) \<and> target s \<le> due s (hd as)
      | Disabling \<Rightarrow> False))"

definition aimed :: "('w, 'l::len word) timers \<Rightarrow> bool" where
  "aimed s \<longleftrightarrow> (case handler s of
     Arming i \<Rightarrow> i = word_of_nat (target s) \<and> near s (target s)
   | Checking i \<Rightarrow> i = word_of_nat (target s) \<and> near s (target s)
   | _ \<Rightarrow> True)"

definition timers_ok :: "('w, 'l::len word) timers \<Rightarrow> nat list \<Rightarrow> bool" where
  "timers_ok s as \<longleftrightarrow> holds (queue s) as \<and> (\<forall>a. delay_ok s as a) \<and> sorted (map (due s) as) \<and>
     armed s as \<and> aimed s"

lemma near_comparable:
  assumes "2 \<le> LENGTH('l::len)" and "near (s :: ('w, 'l word) timers) t" and "near s u"
  shows "comparable TYPE('l) t u"
proof -
  obtain k where k: "LENGTH('l) = Suc (Suc k)"
    using assms(1) by (metis add_2_eq_Suc le_Suc_ex)
  show ?thesis using assms(2,3) by (auto simp: near_def comparable_def horizon_def k)
qed

lemma near_now: "near s (clock s)"
  by (simp add: near_def horizon_def)

lemma in_time:
  assumes "2 \<le> LENGTH('l::len)" and "near (s :: ('w, 'l word) timers) t"
  shows "is_at_least (now_ticks s) (word_of_nat t :: 'l word) \<longleftrightarrow> t \<le> clock s"
  unfolding now_ticks_def by (rule is_at_least_instants, rule near_comparable [OF assms(1) near_now assms(2)])

lemma ok_linked:
  assumes "timers_ok s as" and "a \<in> set as"
  obtains d l where "delays s a = Some d" and "links (queue s) a = Some l" and
    "instant d = word_of_nat (due s a)" and "near s (due s a)" and "release_at (val l) = word_of_nat (due s a)" and
    "\<not> was_popped (val l)"
  using assms unfolding timers_ok_def delay_ok_def value_at_def
  by (auto split: option.splits) (metis option.distinct(1) option.inject option.exhaust)

lemma armed_later:
  assumes "armed s as" and "settled s' \<Longrightarrow> settled s" and "handler s' = handler s" and
    "enabled s' = enabled s" and "compare_at s' = compare_at s" and "clock s' = clock s" and
    "target s' = target s" and "as' \<noteq> [] \<Longrightarrow> as \<noteq> [] \<and> due s (hd as) \<le> due s' (hd as')"
  shows "armed s' as'"
  using assms unfolding armed_def by (auto split: phase.splits intro: order_trans)

section \<open>Every step keeps the invariant\<close>

lemma near_cong: "clock s' = clock s \<Longrightarrow> near (s' :: ('w, 'l::len word) timers) t = near (s :: ('w, 'l word) timers) t"
  by (simp add: near_def)

lemma delay_ok_cong:
  fixes s s' :: "('w, 'l::len word) timers"
  assumes "delays s' a = delays s a" and "value_at (links (queue s')) a = value_at (links (queue s)) a" and
    "due s' a = due s a" and "clock s' = clock s" and "a \<in> set as' \<longleftrightarrow> a \<in> set as"
  shows "delay_ok s' as' a = delay_ok s as a"
  using assms unfolding delay_ok_def value_at_def
  by (auto simp: near_cong [OF assms(4)] split: option.splits)

lemma timers_okI:
  "holds (queue s) as \<Longrightarrow> (\<And>a. delay_ok s as a) \<Longrightarrow> sorted (map (due s) as) \<Longrightarrow> armed s as \<Longrightarrow> aimed s \<Longrightarrow>
    timers_ok s as"
  by (simp add: timers_ok_def)

lemma okD:
  assumes "timers_ok s as"
  shows "holds (queue s) as" and "delay_ok s as a" and "sorted (map (due s) as)" and "armed s as" and "aimed s"
  using assms by (simp_all add: timers_ok_def)

lemma aimed_frame:
  "aimed s \<Longrightarrow> handler s' = handler s \<Longrightarrow> target s' = target s \<Longrightarrow> clock s' = clock s \<Longrightarrow> aimed s'"
  by (auto simp: aimed_def near_def split: phase.splits)

lemma settled_frame:
  assumes "settled s'" and "pending s \<Longrightarrow> pending s'" and
    "\<And>b e m. delays s b = Some e \<Longrightarrow> stage e = Inserted True m \<Longrightarrow> delays s' b = Some e"
  shows "settled s"
  using assms unfolding settled_def by blast

lemma fresh_unlinked: "timers_ok s as \<Longrightarrow> links (queue s) a = None \<Longrightarrow> a \<notin> set as"
  using ok_linked [of s as a] by force

lemma create_ok:
  assumes "timers_ok s as" and "delays s a = None" and "links (queue s) a = None" and "near s t" and
    s1: "s1 = timeout_at a (word_of_nat t) s"
  shows "timers_ok (s1\<lparr>due := (due s)(a := t)\<rparr>) as"
proof -
  let ?s = "s1\<lparr>due := (due s)(a := t)\<rparr>"
  note s1 = s1 [unfolded timeout_at_def]
  have a: "a \<notin> set as" by (rule fresh_unlinked [OF assms(1,3)])
  have "settled ?s \<Longrightarrow> settled s"
    by (rule settled_frame [of ?s]) (auto simp: s1 assms(2))
  moreover have "as \<noteq> [] \<Longrightarrow> as \<noteq> [] \<and> due s (hd as) \<le> due ?s (hd as)" using a by (cases as) auto
  moreover have "armed s as" using assms(1) by (simp add: timers_ok_def)
  ultimately have "armed ?s as" by (intro armed_later [of s as ?s as]) (assumption | simp add: s1)+
  moreover have "delay_ok ?s as b" for b
  proof (cases "b = a")
    case True
    then show ?thesis
      using a assms(3,4) by (simp add: delay_ok_def value_at_def s1 new_delay_def near_def)
  next
    case False
    then have "delay_ok ?s as b = delay_ok s as b" by (intro delay_ok_cong) (simp_all add: s1)
    then show ?thesis using assms(1) by (simp add: timers_ok_def)
  qed
  ultimately show ?thesis
    using okD [OF assms(1)] aimed_frame [of s ?s] a by (intro timers_okI) (simp_all add: s1)
qed

text \<open>A change of one delay's own record.\<close>

lemma settled_set_delay:
  assumes "delays s a = Some d" and "\<And>m. stage d \<noteq> Inserted True m" and "settled (set_delay a d' s)"
  shows "settled s"
proof (rule settled_frame [OF assms(3)])
  fix b e m assume "delays s b = Some e" "stage e = Inserted True m"
  with assms(1,2) show "delays (set_delay a d' s) b = Some e" by (cases "b = a") (auto simp: set_delay_def)
qed (simp add: set_delay_def)

lemma set_delay_ok:
  assumes "timers_ok s as" and "delays s a = Some d" and "delay_ok (set_delay a d' s) as a" and
    "\<And>m. stage d \<noteq> Inserted True m"
  shows "timers_ok (set_delay a d' s) as"
proof -
  have "armed s as" using assms(1) by (simp add: timers_ok_def)
  then have "armed (set_delay a d' s) as"
  proof (rule armed_later)
    show "settled (set_delay a d' s) \<Longrightarrow> settled s" by (rule settled_set_delay [OF assms(2,4)])
  qed (simp_all add: set_delay_def)
  moreover have "delay_ok (set_delay a d' s) as b" for b
  proof (cases "b = a")
    case True
    with assms(3) show ?thesis by simp
  next
    case False
    then have "delay_ok (set_delay a d' s) as b = delay_ok s as b"
      by (intro delay_ok_cong) (simp_all add: set_delay_def)
    then show ?thesis using assms(1) by (simp add: timers_ok_def)
  qed
  ultimately show ?thesis
    using okD [OF assms(1)] aimed_frame [of s "set_delay a d' s"]
    by (intro timers_okI) (simp_all add: set_delay_def)
qed

lemma poll_ok:
  assumes "2 \<le> LENGTH('l::len)" and "timers_ok (s :: ('w, 'l word) timers) as" and "delays s a = Some d" and
    "stage d = Resting"
  obtains s' where "poll a w s = Some s'" and "timers_ok s' as"
proof -
  have a: "delay_ok s as a" using assms(2) by (simp add: timers_ok_def)
  then have i: "instant d = word_of_nat (due s a)" "near s (due s a)"
    by (simp_all add: delay_ok_def assms(3))
  have now: "is_at_least (now_ticks s) (instant d) \<longleftrightarrow> due s a \<le> clock s"
    unfolding i(1) by (rule in_time [OF assms(1) i(2)])
  show thesis
  proof (cases "due s a \<le> clock s")
    case True
    then have "timers_ok (set_delay a (d\<lparr>ready := True\<rparr>) s) as"
      using a assms(3,4) by (intro set_delay_ok [OF assms(2,3)])
        (auto simp: delay_ok_def set_delay_def near_def split: option.splits)
    with True show thesis by (intro that) (simp_all add: poll_def assms(3) now)
  next
    case early: False
    show thesis
    proof (cases "links (queue s) a")
      case None
      then have "timers_ok (set_delay a (d\<lparr>stage := Inserting w\<rparr>) s) as"
        using a assms(3,4) by (intro set_delay_ok [OF assms(2,3)])
          (auto simp: delay_ok_def set_delay_def near_def value_at_def)
      with None early show thesis by (intro that) (simp_all add: poll_def assms(3) now)
    next
      case (Some l)
      with early show thesis by (intro that [OF _ assms(2)]) (simp add: poll_def assms(3) now)
    qed
  qed
qed

lemma sorted_insert_by:
  assumes "sorted (map f xs)" and "\<And>y. y \<in> set xs \<Longrightarrow> lt x y \<longleftrightarrow> f x < (f y :: nat)"
  shows "sorted (map f (insert_by lt x xs))"
  using assms by (induction xs) (auto simp: not_less dest: order.strict_implies_order intro: order_trans)

lemma hd_insert_by: "hd (insert_by lt x xs) = x \<or> (xs \<noteq> [] \<and> hd (insert_by lt x xs) = hd xs)"
  by (cases xs) auto

lemma insert_ok:
  assumes l: "2 \<le> LENGTH('l::len)" and ok: "timers_ok (s :: ('w, 'l word) timers) as" and
    d: "delays s a = Some d" "stage d = Inserting w"
  obtains s' as' where "poll_insert a w s = Some s'" and "timers_ok s' as'"
proof -
  let ?l = "new_link \<lparr>waker = w, release_at = instant d, was_popped = False\<rparr>"
  let ?q = "(queue s)\<lparr>links := (links (queue s))(a \<mapsto> ?l)\<rparr>"
  have a: "instant d = word_of_nat (due s a)" "near s (due s a)" "ready d \<longrightarrow> due s a \<le> clock s"
    and link: "links (queue s) a = None" "a \<notin> set as"
    using okD(2) [OF ok, of a] d by (auto simp: delay_ok_def value_at_def split: option.splits)
  have "holds ?q as" using okD(1) [OF ok] link(2) by (simp add: holds_def)
  from insert_link_holds [OF this, of a ?l earlier] obtain q where
    q: "insert_link earlier a ?q = Some ((list_head q = Some a, a), q)"
      "holds q (insert_by (less_at earlier (links ?q)) a as)"
      "unchanged (insert a (set as)) (links ?q) (links q)"
    using link(2) by (auto simp: new_link_def)
  let ?as = "insert_by (less_at earlier (links ?q)) a as"
  let ?s = "set_delay a (d\<lparr>stage := Inserted (list_head q = Some a) a\<rparr>) (s\<lparr>queue := q\<rparr>)"
  have val: "value_at (links q) = (value_at (links (queue s)))(a \<mapsto> val ?l)"
    using q(3) by (simp add: unchanged_def fun_eq_iff value_at_update)
  have less: "less_at earlier (links ?q) a b \<longleftrightarrow> due s a < due s b" if b: "b \<in> set as" for b
  proof -
    obtain e k where "near s (due s b)" and k: "links (queue s) b = Some k"
      "release_at (val k) = word_of_nat (due s b)"
      using ok_linked [OF ok b] by metis
    have "comparable TYPE('l) (due s a) (due s b)" by (rule near_comparable [OF l a(2)]) fact
    moreover have "b \<noteq> a" using b link(2) by blast
    ultimately show ?thesis
      by (simp add: less_at_def earlier_def new_link_def a(1) compare_ticks_instants k)
  qed
  have sorted: "sorted (map (due s) ?as)" by (rule sorted_insert_by [OF okD(3) [OF ok]], rule less)
  have "armed ?s ?as"
  proof (cases "list_head q = Some a")
    case True
    then have "\<not> settled ?s" by (auto simp: settled_def set_delay_def)
    then show ?thesis by (simp add: armed_def)
  next
    case False
    have "?as \<noteq> []" using set_insert_by [of _ a as] by (metis empty_iff insertI1 list.set(1))
    then have "hd ?as \<noteq> a" using q(2) False unfolding holds_def by (cases ?as) auto
    then have "as \<noteq> []" "hd ?as = hd as" using hd_insert_by [of "less_at earlier (links ?q)" a as] by auto
    moreover have "settled ?s \<Longrightarrow> settled s"
    proof (erule settled_frame)
      show "delays ?s b = Some e" if "delays s b = Some e" "stage e = Inserted True m" for b e m
        using that d by (cases "b = a") (auto simp: set_delay_def)
    qed (simp add: set_delay_def)
    ultimately show ?thesis
      using armed_later [OF okD(4) [OF ok], of ?s ?as] by (simp add: set_delay_def)
  qed
  moreover have "delay_ok ?s ?as b" for b
  proof (cases "b = a")
    case True
    then show ?thesis using a by (simp add: delay_ok_def set_delay_def val near_def new_link_def)
  next
    case False
    then have "delay_ok ?s ?as b = delay_ok s as b"
      by (intro delay_ok_cong) (simp_all add: set_delay_def val)
    then show ?thesis using okD(2) [OF ok] by simp
  qed
  ultimately have "timers_ok ?s ?as"
    using q(2) aimed_frame [OF okD(5) [OF ok], of ?s] sorted
    by (intro timers_okI) (simp_all add: set_delay_def)
  then show thesis by (intro that [of ?s ?as]) (simp_all add: poll_insert_def d q(1) Let_def)
qed

lemma pend_ok:
  assumes ok: "timers_ok (s :: ('w, 'l::len word) timers) as" and d: "delays s a = Some d" "stage d = Inserted h m"
  obtains s' where "poll_pend a h m s = Some s'" and "timers_ok s' as"
proof -
  let ?s = "set_delay a (d\<lparr>marker := m, stage := Resting\<rparr>) s"
  have a: "delay_ok ?s as a"
    using okD(2) [OF ok, of a] d by (auto simp: delay_ok_def set_delay_def near_def split: option.splits)
  show thesis
  proof (cases h)
    case True
    let ?t = "?s\<lparr>pending := True\<rparr>"
    have "delay_ok ?t as b" for b
    proof (cases "b = a")
      case True
      moreover have "delay_ok ?t as a = delay_ok ?s as a" by (intro delay_ok_cong) simp_all
      ultimately show ?thesis using a by simp
    next
      case False
      then have "delay_ok ?t as b = delay_ok s as b" by (intro delay_ok_cong) (simp_all add: set_delay_def)
      then show ?thesis using okD(2) [OF ok] by simp
    qed
    moreover have "armed ?t as" by (simp add: armed_def settled_def)
    ultimately have "timers_ok ?t as"
      using okD [OF ok] aimed_frame [of s ?t] by (intro timers_okI) (simp_all add: set_delay_def)
    with True show thesis by (intro that [of ?t]) (simp_all add: poll_pend_def d Let_def)
  next
    case False
    then have "timers_ok ?s as" using d by (intro set_delay_ok [OF ok d(1) a]) auto
    with False show thesis by (intro that [of ?s]) (simp_all add: poll_pend_def d Let_def)
  qed
qed

lemma unlinked_ok:
  assumes ok: "timers_ok (s :: ('w, 'l::len word) timers) as" and "delays s a \<noteq> None" and
    "a \<notin> set as" and "\<And>d m. delays s a = Some d \<Longrightarrow> stage d \<noteq> Inserted True m"
  shows "timers_ok (release a s) as"
proof -
  let ?s = "release a s"
  have "armed ?s as"
  proof (rule armed_later [OF okD(4) [OF ok]])
    show "settled ?s \<Longrightarrow> settled s"
      by (erule settled_frame) (use assms(4) in \<open>auto simp: release_def\<close>)
  qed (simp_all add: release_def)
  moreover have "delay_ok ?s as b" for b
  proof (cases "b = a")
    case True
    with assms(3) show ?thesis by (simp add: delay_ok_def release_def)
  next
    case False
    then have "delay_ok ?s as b = delay_ok s as b"
      by (intro delay_ok_cong) (simp_all add: release_def value_at_update)
    then show ?thesis using okD(2) [OF ok] by simp
  qed
  ultimately show ?thesis
    using okD [OF ok] aimed_frame [of s ?s] assms(3)
    by (intro timers_okI) (simp_all add: release_def holds_def)
qed

lemma drop_ok:
  assumes ok: "timers_ok (s :: ('w, 'l::len word) timers) as" and d: "delays s a = Some d" "stage d = Resting"
  obtains s' where "drop_delay a s = Some s'" and "timers_ok s' as"
proof (cases "links (queue s) a")
  case None
  then have "timers_ok (release a s) as"
    using fresh_unlinked [OF ok None] d by (intro unlinked_ok [OF ok]) auto
  with None show thesis by (intro that) (simp_all add: drop_delay_def d)
next
  case (Some l)
  have a: "was_popped (val l) \<longleftrightarrow> a \<notin> set as" "delay_ok (set_delay a (d\<lparr>stage := Dropping\<rparr>) s) as a"
    using okD(2) [OF ok, of a] d Some by (auto simp: delay_ok_def value_at_def set_delay_def near_def)
  show thesis
  proof (cases "was_popped (val l)")
    case True
    then have "timers_ok (release a s) as" using a d by (intro unlinked_ok [OF ok]) auto
    with True Some show thesis by (intro that) (simp_all add: drop_delay_def d)
  next
    case False
    have "timers_ok (set_delay a (d\<lparr>stage := Dropping\<rparr>) s) as"
      using d by (intro set_delay_ok [OF ok d(1) a(2)]) auto
    with False Some show thesis by (intro that) (simp_all add: drop_delay_def d)
  qed
qed

lemma hd_remove1:
  assumes "sorted (map f xs)" and "remove1 a xs \<noteq> []"
  shows "xs \<noteq> [] \<and> f (hd xs) \<le> (f (hd (remove1 a xs)) :: nat)"
  using assms by (cases xs; cases "tl xs") auto

lemma sorted_map_remove1': "sorted (map f xs) \<Longrightarrow> sorted (map (f :: nat \<Rightarrow> nat) (remove1 a xs))"
  by (induction xs) (auto dest: notin_set_remove1)

lemma delete_ok:
  assumes ok: "timers_ok (s :: ('w, 'l::len word) timers) as" and d: "delays s a = Some d" "stage d = Dropping"
  obtains s' as' where "drop_delete a s = Some s'" and "timers_ok s' as'"
proof -
  have m: "marker d = a" using okD(2) [OF ok, of a] d by (simp add: delay_ok_def split: option.splits)
  obtain q where q: "delete_link a (queue s) = Some q" "holds q (remove1 a as)"
    "unchanged (set as) (links (queue s)) (links q)"
    by (rule delete_link_holds [OF okD(1) [OF ok], of a])
  let ?s = "release a (s\<lparr>queue := q\<rparr>)" and ?as = "remove1 a as"
  have "distinct as" using okD(1) [OF ok] by (auto simp: holds_def dest: chain_distinct)
  then have a: "a \<notin> set ?as" by simp
  have "armed ?s ?as"
  proof (rule armed_later [OF okD(4) [OF ok]])
    show "settled ?s \<Longrightarrow> settled s"
      by (erule settled_frame) (use d in \<open>auto simp: release_def\<close>)
    show "?as \<noteq> [] \<Longrightarrow> as \<noteq> [] \<and> due s (hd as) \<le> due ?s (hd ?as)"
      using hd_remove1 [OF okD(3) [OF ok]] by (simp add: release_def)
  qed (simp_all add: release_def)
  moreover have "delay_ok ?s ?as b" for b
  proof (cases "b = a")
    case True
    with a show ?thesis by (simp add: delay_ok_def release_def)
  next
    case False
    then have "delay_ok ?s ?as b = delay_ok s as b"
      using q(3) by (intro delay_ok_cong) (simp_all add: release_def value_at_update unchanged_def)
    then show ?thesis using okD(2) [OF ok] by simp
  qed
  moreover have "holds (queue ?s) ?as" using q(2) a by (simp add: release_def holds_def)
  ultimately have "timers_ok ?s ?as"
    using okD [OF ok] aimed_frame [of s ?s] sorted_map_remove1' [of "due s" as a]
    by (intro timers_okI) (simp_all add: release_def)
  then show thesis by (intro that) (simp_all add: drop_delete_def d m q(1))
qed

section \<open>The handler keeps the invariant\<close>

definition popped :: "nat \<Rightarrow> ('w, 't) timers \<Rightarrow> ('w, 't) timers" where
  "popped h s = (let l = the (links (queue s) h) in
     s\<lparr>queue := \<lparr>list_head = nxt l, links = (links (queue s))(h \<mapsto> l\<lparr>val := (val l)\<lparr>was_popped := True\<rparr>\<rparr>)\<rparr>,
       woken := woken s @ [waker (val l)]\<rparr>)"

lemma handle_pop_cases:
  assumes l: "2 \<le> LENGTH('l::len)" and ok: "timers_ok (s :: ('w, 'l word) timers) as"
  shows "handle_pop s = Some (case as of
      [] \<Rightarrow> s\<lparr>handler := Disabling\<rparr>
    | h # bs \<Rightarrow> if due s h \<le> clock s then popped h s
        else s\<lparr>handler := Arming (word_of_nat (due s h)), target := due s h\<rparr>)"
proof (cases as)
  case Nil
  then show ?thesis
    using pop_if_holds [OF okD(1) [OF ok], of "release_due (now_ticks s)" None] by (simp add: handle_pop_def)
next
  case (Cons h bs)
  then obtain d k where k: "links (queue s) h = Some k" "near s (due s h)"
    "release_at (val k) = word_of_nat (due s h)" "\<not> was_popped (val k)"
    using ok_linked [OF ok, of h] by auto
  have h: "list_head (queue s) = Some h" using okD(1) [OF ok] Cons by (simp add: holds_def)
  have "release_due (now_ticks s) (val k) None =
    (due s h \<le> clock s, (val k)\<lparr>was_popped := due s h \<le> clock s\<rparr>, Some (word_of_nat (due s h)))"
    unfolding release_due_def k(3) in_time [OF l k(2)] Let_def by (rule refl)
  moreover have "k\<lparr>val := (val k)\<lparr>was_popped := False\<rparr>\<rparr> = k" using k(4) by simp
  ultimately show ?thesis
    using pop_if_holds [OF okD(1) [OF ok], of "release_due (now_ticks s)" None] Cons k(1) h
    by (simp add: handle_pop_def popped_def Let_def fun_upd_idem)
qed

lemma popped_ok:
  assumes ok: "timers_ok (s :: ('w, 'l::len word) timers) (h # bs)" and due: "due s h \<le> clock s" and
    "handler s = Popping"
  shows "timers_ok (popped h s) bs"
proof -
  obtain k where k: "links (queue s) h = Some k" using ok_linked [OF ok, of h] by auto
  have c: "chain (links (queue s)) (list_head (queue s)) (h # bs)" using okD(1) [OF ok] by (simp add: holds_def)
  have h: "h \<notin> set bs" using chain_distinct [OF c] by simp
  have "holds (queue (popped h s)) bs" using c k h by (simp add: popped_def holds_def Let_def)
  moreover have "delay_ok (popped h s) bs b" for b
  proof (cases "b = h")
    case True
    then show ?thesis
      using okD(2) [OF ok, of h] k h due
      by (auto simp: delay_ok_def popped_def Let_def value_at_def near_def split: option.splits)
  next
    case False
    then have "delay_ok (popped h s) bs b = delay_ok s (h # bs) b"
      by (intro delay_ok_cong) (simp_all add: popped_def Let_def value_at_update)
    then show ?thesis using okD(2) [OF ok] by simp
  qed
  moreover have "armed (popped h s) bs" by (simp add: armed_def popped_def Let_def assms(3))
  moreover have "aimed (popped h s)" by (simp add: aimed_def popped_def Let_def assms(3))
  moreover have "sorted (map (due (popped h s)) bs)" using okD(3) [OF ok] by (simp add: popped_def Let_def)
  ultimately show ?thesis by (intro timers_okI)
qed

text \<open>A change of the handler and the back end alone.\<close>

lemma handler_ok:
  assumes ok: "timers_ok (s :: ('w, 'l::len word) timers) as" and
    "queue s' = queue s" "delays s' = delays s" "due s' = due s" "clock s' = clock s" and
    "armed s' as" and "aimed s'"
  shows "timers_ok s' as"
proof (rule timers_okI)
  have "delay_ok s' as a = delay_ok s as a" for a
    using assms(2-5) by (intro delay_ok_cong) simp_all
  then show "delay_ok s' as a" for a using okD(2) [OF ok] by simp
qed (use assms okD(1,3) [OF ok] in simp_all)

lemma enter_ok: "timers_ok (s :: ('w, 'l::len word) timers) as \<Longrightarrow> timers_ok (enter s) as"
  by (erule handler_ok) (simp_all add: enter_def armed_def aimed_def)

lemma handle_ok:
  assumes l: "2 \<le> LENGTH('l::len)" and ok: "timers_ok (s :: ('w, 'l word) timers) as"
  obtains s' as' where "handle s = Some s'" and "timers_ok s' as'"
proof (cases "handler s")
  case Idle
  then show thesis by (intro that [OF _ ok]) (simp add: handle_def)
next
  case Popping
  show thesis
  proof (cases as)
    case Nil
    have "timers_ok (s\<lparr>handler := Disabling\<rparr>) as"
      by (rule handler_ok [OF ok]) (simp_all add: armed_def aimed_def Nil)
    then show thesis
      using handle_pop_cases [OF l ok] Nil Popping by (intro that) (simp_all add: handle_def)
  next
    case (Cons h bs)
    show thesis
    proof (cases "due s h \<le> clock s")
      case True
      then have "timers_ok (popped h s) bs" using ok Cons Popping by (intro popped_ok) simp_all
      then show thesis
        using handle_pop_cases [OF l ok] Cons Popping True by (intro that) (simp_all add: handle_def)
    next
      case False
      let ?s = "s\<lparr>handler := Arming (word_of_nat (due s h)), target := due s h\<rparr>"
      have "near s (due s h)" using ok_linked [OF ok, of h] Cons by auto
      then have "timers_ok ?s as"
        by (intro handler_ok [OF ok]) (simp_all add: armed_def aimed_def Cons near_def)
      then show thesis
        using handle_pop_cases [OF l ok] Cons Popping False by (intro that) (simp_all add: handle_def)
    qed
  qed
next
  case (Arming i)
  let ?s = "s\<lparr>enabled := True, compare_at := i, handler := Checking i\<rparr>"
  have "settled ?s \<Longrightarrow> settled s" by (simp add: settled_def)
  then have "timers_ok ?s as"
    using okD(4,5) [OF ok] Arming
    by (intro handler_ok [OF ok]) (auto simp: armed_def aimed_def near_def)
  then show thesis using Arming by (intro that) (simp_all add: handle_def)
next
  case (Checking i)
  let ?s = "s\<lparr>handler := if is_at_least (now_ticks s) i then Popping else Idle\<rparr>"
  have i: "i = word_of_nat (target s)" "near s (target s)"
    using okD(5) [OF ok] Checking by (simp_all add: aimed_def)
  have now: "is_at_least (now_ticks s) i \<longleftrightarrow> target s \<le> clock s"
    unfolding i(1) by (rule in_time [OF l i(2)])
  have "settled ?s \<Longrightarrow> settled s" by (simp add: settled_def)
  then have "timers_ok ?s as"
    using okD(4) [OF ok] Checking
    by (intro handler_ok [OF ok]) (auto simp: armed_def aimed_def now)
  then show thesis using Checking by (intro that) (simp_all add: handle_def)
next
  case Disabling
  let ?s = "s\<lparr>enabled := False, handler := Idle\<rparr>"
  have "settled ?s \<Longrightarrow> settled s" by (simp add: settled_def)
  then have "timers_ok ?s as"
    using okD(4) [OF ok] Disabling by (intro handler_ok [OF ok]) (auto simp: armed_def aimed_def)
  then show thesis using Disabling by (intro that) (simp_all add: handle_def)
qed

lemma tick_ok:
  assumes ok: "timers_ok (s :: ('w, 'l::len word) timers) as" and "may_tick s"
  shows "timers_ok (tick s) as"
proof (rule timers_okI)
  show "delay_ok (tick s) as a" for a
    using okD(2) [OF ok, of a] assms(2)
    by (auto simp: delay_ok_def tick_def Let_def may_tick_def near_def split: option.splits)
  show "armed (tick s) as"
    unfolding armed_def
  proof (rule impI)
    assume *: "settled (tick s) \<and> as \<noteq> []"
    then have "settled s" by (auto simp: settled_def tick_def Let_def)
    moreover have "\<not> (enabled s \<and> compare_at s = word_of_nat (Suc (clock s)))"
      using * by (auto simp: settled_def tick_def Let_def)
    ultimately show "case handler (tick s) of
        Idle \<Rightarrow> enabled (tick s) \<and> compare_at (tick s) = word_of_nat (target (tick s)) \<and>
          clock (tick s) < target (tick s) \<and> target (tick s) \<le> due (tick s) (hd as)
      | Popping \<Rightarrow> True
      | Arming i \<Rightarrow> target (tick s) \<le> due (tick s) (hd as)
      | Checking i \<Rightarrow> enabled (tick s) \<and> compare_at (tick s) = word_of_nat (target (tick s)) \<and>
          target (tick s) \<le> due (tick s) (hd as)
      | Disabling \<Rightarrow> False"
      using * okD(4) [OF ok]
      by (cases "handler s"; cases "Suc (clock s) = target s") (simp_all add: armed_def tick_def Let_def)
  qed
  show "aimed (tick s)"
    using okD(5) [OF ok] assms(2)
    by (auto simp: aimed_def tick_def Let_def may_tick_def near_def split: phase.splits)
qed (use okD [OF ok] in \<open>simp_all add: tick_def Let_def\<close>)

section \<open>What reaches and what runs\<close>

definition reachable :: "('w, 'l::len word) timers \<Rightarrow> bool" where
  "reachable s \<longleftrightarrow> timer_step\<^sup>*\<^sup>* new_timers s"

text \<open>The handler from its start to its end, when nothing else runs.\<close>

partial_function (option) run_handler :: "('w, 'l::len word) timers \<Rightarrow> ('w, 'l word) timers option" where
  "run_handler s = (if handler s = Idle then Some s else do { s' \<leftarrow> handle s; run_handler s' })"

definition on_monotonic_interrupt :: "('w, 'l::len word) timers \<Rightarrow> ('w, 'l word) timers option" where
  "on_monotonic_interrupt s = run_handler (enter s)"

lemma new_timers_ok: "timers_ok new_timers []"
  by (intro timers_okI)
    (simp_all add: new_timers_def holds_def new_list_def delay_ok_def armed_def aimed_def)

lemma initialize_ok:
  assumes "timers_ok (s :: ('w, 'l::len word) timers) as"
  shows "timers_ok (initialize s) as"
  using armed_later [OF okD(4) [OF assms], of "initialize s" as] aimed_frame [OF okD(5) [OF assms], of "initialize s"]
    handler_ok [OF assms, of "initialize s"]
  by (simp add: initialize_def settled_def)

lemma timer_step_ok:
  assumes l: "2 \<le> LENGTH('l::len)" and "timer_step (s :: ('w, 'l word) timers) s'" and ok: "timers_ok s as"
  shows "\<exists>as'. timers_ok s' as'"
  using assms(2)
proof cases
  case step_initialize
  then show ?thesis using initialize_ok [OF ok] by blast
next
  case (step_create a t s1)
  then have "s1 = timeout_at a (word_of_nat t) s" by (auto simp: delay_until_def timeout_at_def split: if_splits)
  then show ?thesis using create_ok [OF ok step_create(1-3)] step_create(5) by blast
next
  case (step_timeout a t)
  then show ?thesis using create_ok [OF ok step_timeout(2,3,4) refl] by blast
next
  case (step_poll a d w)
  then show ?thesis using poll_ok [OF l ok] by (metis option.inject)
next
  case (step_insert a d w)
  then show ?thesis using insert_ok [OF l ok] by (metis option.inject)
next
  case (step_pend a d h m)
  then show ?thesis using pend_ok [OF ok] by (metis option.inject)
next
  case (step_drop a d)
  then show ?thesis using drop_ok [OF ok] by (metis option.inject)
next
  case (step_delete a d)
  then show ?thesis using delete_ok [OF ok] by (metis option.inject)
next
  case step_enter
  then show ?thesis using enter_ok [OF ok] by blast
next
  case step_handle
  then show ?thesis using handle_ok [OF l ok] by (metis option.inject)
next
  case step_tick
  then show ?thesis using tick_ok [OF ok] by blast
qed

interpretation tq: transitions new_timers timer_step
  "\<lambda>s :: ('w, 'l::len word) timers. 2 \<le> LENGTH('l) \<longrightarrow> (\<exists>as. timers_ok s as)"
proof unfold_locales
  show "2 \<le> LENGTH('l) \<longrightarrow> (\<exists>as. timers_ok (new_timers :: ('w, 'l::len word) timers) as)"
    using new_timers_ok by blast
  show "2 \<le> LENGTH('l) \<longrightarrow> (\<exists>as. timers_ok s' as)"
    if "2 \<le> LENGTH('l) \<longrightarrow> (\<exists>as. timers_ok s as)" "timer_step s s'" for s s' :: "('w, 'l::len word) timers"
    using that timer_step_ok by blast
qed

lemma reachable_ok:
  assumes "2 \<le> LENGTH('l::len)" and "reachable (s :: ('w, 'l word) timers)"
  obtains as where "timers_ok s as"
  using tq.reachable_inv assms unfolding reachable_def by blast

lemma holds_unique: "holds s as \<Longrightarrow> holds s bs \<Longrightarrow> as = bs"
  unfolding holds_def by (rule chain_unique)

section \<open>What the timer queue promises\<close>

text \<open>
  C14: No operation of the timer queue reads or writes memory that is not there. Whatever tasks, the
  handler and the clock have done so far, every link in the list is the link of a delay that is still
  there, and every step that can come next succeeds: a poll and its insertion, a drop and its deletion,
  the next step of the handler.
\<close>

theorem timers_memory_safe:
  assumes "2 \<le> LENGTH('l::len)" and "reachable (s :: ('w, 'l word) timers)"
  shows "(\<exists>as. holds (queue s) as \<and> (\<forall>a. a \<in> set as \<longrightarrow> delays s a \<noteq> None)) \<and> handle s \<noteq> None \<and>
    (\<forall>a d. delays s a = Some d \<longrightarrow>
      (case stage d of
         Resting \<Rightarrow> (\<forall>w. poll a w s \<noteq> None) \<and> drop_delay a s \<noteq> None
       | Inserting w \<Rightarrow> poll_insert a w s \<noteq> None
       | Inserted h m \<Rightarrow> poll_pend a h m s \<noteq> None
       | Dropping \<Rightarrow> drop_delete a s \<noteq> None))"
proof -
  obtain as where ok: "timers_ok s as" by (rule reachable_ok [OF assms])
  have "delays s a \<noteq> None" if "a \<in> set as" for a using ok_linked [OF ok that] by auto
  moreover have "handle s \<noteq> None" using handle_ok [OF assms(1) ok] by (metis option.distinct(1))
  moreover have "case stage d of
         Resting \<Rightarrow> (\<forall>w. poll a w s \<noteq> None) \<and> drop_delay a s \<noteq> None
       | Inserting w \<Rightarrow> poll_insert a w s \<noteq> None
       | Inserted h m \<Rightarrow> poll_pend a h m s \<noteq> None
       | Dropping \<Rightarrow> drop_delete a s \<noteq> None" if d: "delays s a = Some d" for a d
  proof (cases "stage d")
    case Resting
    then show ?thesis
      using poll_ok [OF assms(1) ok d] drop_ok [OF ok d] by simp (metis option.distinct(1))
  next
    case (Inserting w)
    then show ?thesis using insert_ok [OF assms(1) ok d] by simp (metis option.distinct(1))
  next
    case (Inserted h m)
    then show ?thesis using pend_ok [OF ok d] by simp (metis option.distinct(1))
  next
    case Dropping
    then show ?thesis using delete_ok [OF ok d] by simp (metis option.distinct(1))
  qed
  ultimately show ?thesis using okD(1) [OF ok] by blast
qed

text \<open>
  C2: No timer is missed. When the handler is not running, the interrupt is not pending and no task is
  about to pend it, every timer in the list lies in the future, the timer interrupt is enabled, and the
  compare register holds an instant still to come that is not after any of them.
\<close>

theorem no_timer_missed:
  assumes "2 \<le> LENGTH('l::len)" and "reachable (s :: ('w, 'l word) timers)" and
    "handler s = Idle" and "settled s" and "holds (queue s) as" and "a \<in> set as"
  shows "clock s < due s a \<and> enabled s \<and>
    (\<exists>c. compare_at s = word_of_nat c \<and> clock s < c \<and> c \<le> due s a)"
proof -
  obtain bs where ok: "timers_ok s bs" by (rule reachable_ok [OF assms(1,2)])
  have as: "timers_ok s as" using ok holds_unique [OF okD(1) [OF ok] assms(5)] by simp
  have "due s (hd as) \<le> due s a" using okD(3) [OF as] assms(6) by (cases as) auto
  moreover have "as \<noteq> []" using assms(6) by auto
  ultimately show ?thesis using okD(4) [OF as] assms(3,4) by (auto simp: armed_def)
qed

text \<open>
  C34: A delay never ends early: its ticks are those of the instant it is due, a poll returns \<open>Ready\<close>, and
  the handler takes its link from the list and wakes the task, only once the clock has reached that instant.
\<close>

theorem never_early:
  assumes "2 \<le> LENGTH('l::len)" and "reachable (s :: ('w, 'l word) timers)" and "delays s a = Some d"
  shows "instant d = word_of_nat (due s a) \<and> (if ready d then due s a \<le> clock s else True) \<and>
    (case links (queue s) a of None \<Rightarrow> True | Some l \<Rightarrow> if was_popped (val l) then due s a \<le> clock s else True)"
proof -
  obtain as where ok: "timers_ok s as" by (rule reachable_ok [OF assms(1,2)])
  show ?thesis
    using okD(2) [OF ok, of a] assms(3) by (auto simp: delay_ok_def value_at_def split: option.splits)
qed

definition waker_of :: "('w, 't) timers \<Rightarrow> nat \<Rightarrow> 'w" where
  "waker_of s a = waker (val (the (links (queue s) a)))"

lemma popped_reads:
  "due (popped h s) = due s" "clock (popped h s) = clock s" "handler (popped h s) = handler s"
  "woken (popped h s) = woken s @ [waker_of s h]"
  by (simp_all add: popped_def Let_def waker_of_def)

lemma enter_reads:
  "queue (enter s) = queue s" "due (enter s) = due s" "clock (enter s) = clock s"
  "handler (enter s) = Popping" "woken (enter s) = woken s" "waker_of (enter s) = waker_of s"
  by (simp_all add: enter_def waker_of_def fun_eq_iff)

lemma run_handler_step: "handler s \<noteq> Idle \<Longrightarrow> handle s = Some s' \<Longrightarrow> run_handler s = run_handler s'"
  by (subst run_handler.simps) simp

lemma run_handler_Idle: "handler s = Idle \<Longrightarrow> run_handler s = Some s"
  by (subst run_handler.simps) simp

lemma run_handler_Disabling:
  "handler s = Disabling \<Longrightarrow> run_handler s = Some (s\<lparr>enabled := False, handler := Idle\<rparr>)"
  by (subst run_handler.simps) (simp add: handle_def run_handler_Idle)

lemma run_handler_Arming:
  assumes "handler s = Arming i" and "\<not> is_at_least (now_ticks s) i"
  shows "run_handler s = Some (s\<lparr>enabled := True, compare_at := i, handler := Idle\<rparr>)"
proof -
  let ?s = "s\<lparr>enabled := True, compare_at := i, handler := Checking i\<rparr>"
  have "run_handler s = run_handler ?s" using assms(1) by (intro run_handler_step) (simp_all add: handle_def)
  also have "\<dots> = run_handler (?s\<lparr>handler := Idle\<rparr>)"
    using assms(2) by (intro run_handler_step) (simp_all add: handle_def now_ticks_def)
  finally show ?thesis by (simp add: run_handler_Idle)
qed

lemma run_handler_Popping:
  assumes l: "2 \<le> LENGTH('l::len)" and "timers_ok (s :: ('w, 'l word) timers) as" and "handler s = Popping"
  shows "\<exists>s'. run_handler s = Some s' \<and> handler s' = Idle \<and>
    woken s' = woken s @ map (waker_of s) (takeWhile (\<lambda>a. due s a \<le> clock s) as) \<and>
    holds (queue s') (dropWhile (\<lambda>a. due s a \<le> clock s) as) \<and>
    (case dropWhile (\<lambda>a. due s a \<le> clock s) as of
       [] \<Rightarrow> \<not> enabled s'
     | b # bs \<Rightarrow> enabled s' \<and> compare_at s' = word_of_nat (due s b))"
  using assms(2,3)
proof (induction as arbitrary: s)
  case Nil
  have "handle s = Some (s\<lparr>handler := Disabling\<rparr>)"
    using handle_pop_cases [OF l Nil.prems(1)] Nil.prems(2) by (simp add: handle_def)
  then have "run_handler s = run_handler (s\<lparr>handler := Disabling\<rparr>)"
    using Nil.prems(2) by (intro run_handler_step) simp_all
  then show ?case using okD(1) [OF Nil.prems(1)] by (simp add: run_handler_Disabling)
next
  case (Cons h as)
  show ?case
  proof (cases "due s h \<le> clock s")
    case True
    let ?s = "popped h s"
    have "handle s = Some ?s"
      using handle_pop_cases [OF l Cons.prems(1)] Cons.prems(2) True by (simp add: handle_def)
    then have "run_handler s = run_handler ?s"
      using Cons.prems(2) by (intro run_handler_step) simp_all
    moreover have "waker_of ?s = waker_of s" by (simp add: waker_of_def popped_def Let_def fun_eq_iff)
    moreover have "timers_ok ?s as" by (rule popped_ok [OF Cons.prems(1) True Cons.prems(2)])
    from Cons.IH [OF this, unfolded popped_reads, OF Cons.prems(2)] obtain s' where
      "run_handler ?s = Some s'" "handler s' = Idle"
      "woken s' = (woken s @ [waker_of s h]) @ map (waker_of ?s) (takeWhile (\<lambda>a. due s a \<le> clock s) as)"
      "holds (queue s') (dropWhile (\<lambda>a. due s a \<le> clock s) as)"
      "case dropWhile (\<lambda>a. due s a \<le> clock s) as of [] \<Rightarrow> \<not> enabled s'
       | b # bs \<Rightarrow> enabled s' \<and> compare_at s' = word_of_nat (due s b)" by blast
    ultimately show ?thesis using True by simp
  next
    case False
    let ?s = "s\<lparr>handler := Arming (word_of_nat (due s h)), target := due s h\<rparr>"
    have "handle s = Some ?s"
      using handle_pop_cases [OF l Cons.prems(1)] Cons.prems(2) False by (simp add: handle_def)
    then have "run_handler s = run_handler ?s"
      using Cons.prems(2) by (intro run_handler_step) simp_all
    moreover obtain d k where "near s (due s h)" using ok_linked [OF Cons.prems(1), of h] by auto
    then have "\<not> is_at_least (now_ticks ?s) (word_of_nat (due s h))"
      using in_time [OF l, of s] False by (simp add: now_ticks_def)
    ultimately show ?thesis
      using okD(1) [OF Cons.prems(1)] False by (simp add: run_handler_Arming)
  qed
qed

text \<open>
  C13: The interrupt handler of the monotonic, run alone and while the clock stands, returns; it wakes the tasks of the timers that are
  due, all of them and in the order of their instants, takes these out of the list, and leaves the compare
  register on the first of the others, or the timer interrupt disabled when there is none.
\<close>

theorem interrupt_serves_due:
  assumes "2 \<le> LENGTH('l::len)" and "reachable (s :: ('w, 'l word) timers)" and "handler s = Idle" and
    "holds (queue s) as"
  shows "sorted (map (due s) as) \<and> (\<exists>s'. on_monotonic_interrupt s = Some s' \<and> handler s' = Idle \<and>
    woken s' = woken s @ map (waker_of s) (takeWhile (\<lambda>a. due s a \<le> clock s) as) \<and>
    holds (queue s') (dropWhile (\<lambda>a. due s a \<le> clock s) as) \<and>
    (case dropWhile (\<lambda>a. due s a \<le> clock s) as of
       [] \<Rightarrow> \<not> enabled s'
     | b # bs \<Rightarrow> enabled s' \<and> compare_at s' = word_of_nat (due s b)))"
proof -
  obtain bs where ok: "timers_ok s bs" by (rule reachable_ok [OF assms(1,2)])
  have as: "timers_ok s as" using ok holds_unique [OF okD(1) [OF ok] assms(4)] by simp
  show ?thesis
    using run_handler_Popping [OF assms(1) enter_ok [OF as], unfolded enter_reads] okD(3) [OF as]
    unfolding on_monotonic_interrupt_def by blast
qed

section \<open>A run\<close>

text \<open>A delay until instant 3 at address 7, polled by task 5; then the handler runs.\<close>

definition created :: "(nat, 32 word) timers" where
  "created = \<lparr>queue = new_list Map.empty, initialized = True, delays = [7 \<mapsto> new_delay 3], handler = Idle,
     woken = [], clock = 0, enabled = False, compare_at = 0, pending = False, due = (\<lambda>_. 0)(7 := 3), target = 0\<rparr>"

definition with_link :: "(nat, 32 word) timers \<Rightarrow> (nat, 32 word) timers" where
  "with_link s = s\<lparr>queue := \<lparr>list_head = Some 7,
     links = [7 \<mapsto> \<lparr>val = \<lparr>waker = 5, release_at = 3, was_popped = False\<rparr>, nxt = None\<rparr>]\<rparr>\<rparr>"

definition polled :: "(nat, 32 word) timers" where
  "polled = (with_link (set_delay 7 ((new_delay 3)\<lparr>marker := 7\<rparr>) created))\<lparr>pending := True\<rparr>"

definition served :: "(nat, 32 word) timers" where
  "served = polled\<lparr>pending := False, enabled := True, compare_at := 3, target := 3\<rparr>"

lemma reachable_step: "reachable s \<Longrightarrow> timer_step s s' \<Longrightarrow> reachable s'"
  unfolding reachable_def by (rule rtranclp.rtrancl_into_rtrancl)

lemma created_reachable: "reachable created"
proof -
  have i: "reachable (initialize new_timers :: (nat, 32 word) timers)"
    unfolding reachable_def by (intro r_into_rtranclp step_initialize)
  have "timer_step (initialize new_timers) created"
  proof (rule step_create)
    show "delays (initialize new_timers) 7 = None" "links (queue (initialize new_timers)) 7 = None"
      by (simp_all add: initialize_def new_timers_def new_list_def)
    show "near (initialize new_timers :: (nat, 32 word) timers) 3" by (simp add: near_def horizon_def initialize_def new_timers_def)
    show "delay_until 7 (word_of_nat 3) (initialize new_timers) = Some (created\<lparr>due := \<lambda>_. 0\<rparr>)"
      by (simp add: delay_until_def initialize_def new_timers_def created_def)
    show "created = created\<lparr>due := \<lambda>_. 0, due := (due (initialize new_timers))(7 := 3)\<rparr>"
      by (simp add: created_def initialize_def new_timers_def)
  qed
  then show ?thesis by (rule reachable_step [OF i])
qed

lemma not_yet: "\<not> is_at_least (0 :: 32 word) 3"
  using is_at_least_instants [of 0 3, where ?'l = 32] by (simp add: comparable_def)

lemma polled_reachable: "reachable polled"
proof -
  let ?d = "(new_delay 3)\<lparr>stage := Inserting 5\<rparr>" and ?e = "(new_delay 3)\<lparr>stage := Inserted True 7\<rparr>"
  let ?p = "set_delay 7 ?d created" and ?i = "with_link (set_delay 7 ?e created)"
  have "timer_step created ?p"
    by (rule step_poll [where a = 7 and w = 5 and d = "new_delay 3"])
      (simp_all add: created_def new_delay_def poll_def now_ticks_def not_yet new_list_def)
  with created_reachable have "reachable ?p" by (rule reachable_step)
  moreover have "timer_step ?p ?i"
    by (rule step_insert [where a = 7 and w = 5 and d = ?d])
      (simp_all add: created_def set_delay_def poll_insert_def insert_link_def new_list_def with_link_def new_link_def
        new_delay_def)
  ultimately have "reachable ?i" by (rule reachable_step)
  moreover have "timer_step ?i polled"
    by (rule step_pend [where a = 7 and h = True and m = 7 and d = ?e])
      (simp_all add: created_def set_delay_def with_link_def poll_pend_def Let_def polled_def new_delay_def)
  ultimately show ?thesis by (rule reachable_step)
qed

lemma polled_holds: "holds (queue polled) [7]"
  by (simp add: polled_def with_link_def holds_def)

lemma served_reachable: "reachable served"
proof -
  let ?e = "enter polled"
  let ?a = "?e\<lparr>handler := Arming 3, target := 3\<rparr>"
  let ?c = "?a\<lparr>enabled := True, compare_at := 3, handler := Checking 3\<rparr>"
  note states = created_def set_delay_def with_link_def polled_def new_delay_def enter_def
  have "timer_step polled ?e" by (rule step_enter) (simp_all add: states)
  with polled_reachable have "reachable ?e" by (rule reachable_step)
  moreover have "timer_step ?e ?a"
    by (rule step_handle)
      (simp_all add: states handle_def handle_pop_def pop_if_def release_due_def now_ticks_def not_yet Let_def)
  ultimately have "reachable ?a" by (rule reachable_step)
  moreover have "timer_step ?a ?c" by (rule step_handle) (simp_all add: states handle_def)
  ultimately have "reachable ?c" by (rule reachable_step)
  moreover have "timer_step ?c served"
    by (rule step_handle) (simp_all add: states handle_def served_def now_ticks_def not_yet)
  ultimately show ?thesis by (rule reachable_step)
qed

lemma timers_memory_safe_witness: "handle (enter polled) \<noteq> None \<and> drop_delay 7 polled \<noteq> None"
proof -
  have "reachable (enter polled)"
    by (rule reachable_step [OF polled_reachable], rule step_enter) (simp_all add: polled_def with_link_def set_delay_def created_def)
  with timers_memory_safe [of "enter polled"] have "handle (enter polled) \<noteq> None" by simp
  moreover have d: "delays polled 7 = Some ((new_delay 3)\<lparr>marker := 7\<rparr>)"
    by (simp add: polled_def with_link_def set_delay_def created_def)
  have "2 \<le> LENGTH(32)" by simp
  from timers_memory_safe [OF this polled_reachable, THEN conjunct2, THEN conjunct2, rule_format, OF d]
  have "drop_delay 7 polled \<noteq> None" by (simp add: new_delay_def)
  ultimately show ?thesis by blast
qed

lemma no_timer_missed_witness: "clock served < due served 7 \<and> enabled served"
proof -
  have "handler served = Idle" "settled served" "holds (queue served) [7]"
    by (simp_all add: served_def polled_def with_link_def set_delay_def created_def settled_def new_delay_def holds_def)
  with no_timer_missed [OF _ served_reachable, of "[7]" 7] show ?thesis by simp
qed

lemma never_early_witness: "instant (the (delays served 7)) = word_of_nat (due served 7) \<and> due served 7 = 3"
proof -
  have "delays served 7 = Some ((new_delay 3)\<lparr>marker := 7\<rparr>)" "due served 7 = 3"
    by (simp_all add: served_def polled_def with_link_def set_delay_def created_def)
  with never_early [OF _ served_reachable, of 7] show ?thesis by simp
qed

lemma interrupt_serves_due_witness:
  "holds (queue polled) [7] \<and> (\<exists>s'. on_monotonic_interrupt polled = Some s' \<and> enabled s' \<and> compare_at s' = 3)"
proof -
  have s: "handler polled = Idle" "due polled 7 = 3" "clock polled = 0"
    by (simp_all add: polled_def with_link_def set_delay_def created_def)
  then show ?thesis
    using interrupt_serves_due [OF _ polled_reachable s(1) polled_holds] polled_holds by auto
qed

end
