(* ===== verification/Rtic_Wait_Queue.thy ===== *)
theory Rtic_Wait_Queue
  imports Prelude "HOL-Library.Monad_Syntax"
begin

text \<open>
  The wait queue (\<open>rtic-common/src/wait_queue.rs\<close>): an intrusive doubly linked list, first in first out,
  whose links live on the stacks of the tasks that wait. Each operation is one critical section. A
  dereference of a link that is not in memory is undefined in the code and \<open>None\<close> here.
\<close>

section \<open>Links and operations\<close>

record 'a wait_link =
  content :: 'a
  nxt :: "nat option"
  prev :: "nat option"
  is_popped :: bool

type_synonym 'a wait_links = "nat \<Rightarrow> 'a wait_link option"

record 'a wait_queue =
  qhead :: "nat option"
  qtail :: "nat option"
  nodes :: "'a wait_links"

definition new_wait_queue :: "'a wait_links \<Rightarrow> 'a wait_queue" where
  "new_wait_queue m = \<lparr>qhead = None, qtail = None, nodes = m\<rparr>"

definition new_wait_link :: "'a \<Rightarrow> 'a wait_link" where
  "new_wait_link v = \<lparr>content = v, nxt = None, prev = None, is_popped = False\<rparr>"

definition store :: "nat \<Rightarrow> ('a wait_link \<Rightarrow> 'a wait_link) \<Rightarrow> 'a wait_links \<Rightarrow> 'a wait_links option" where
  \<comment> \<open>a store to a field of the link at an address\<close>
  "store a f m = (case m a of None \<Rightarrow> None | Some l \<Rightarrow> Some (m(a \<mapsto> f l)))"

definition wait_pop :: "'a wait_queue \<Rightarrow> ('a option \<times> 'a wait_queue) option" where
  "wait_pop s =
     (case qhead s of
        None \<Rightarrow> Some (None, s)
      | Some h \<Rightarrow> do {
          l \<leftarrow> nodes s h;
          let t = (if qhead s = qtail s then None else qtail s);
          m \<leftarrow> (case nxt l of None \<Rightarrow> Some (nodes s) | Some n \<Rightarrow> store n (\<lambda>k. k\<lparr>prev := None\<rparr>) (nodes s));
          m' \<leftarrow> store h (\<lambda>k. k\<lparr>nxt := None, prev := None, is_popped := True\<rparr>) m;
          Some (Some (content l), \<lparr>qhead = nxt l, qtail = t, nodes = m'\<rparr>)
        })"

definition wait_push :: "nat \<Rightarrow> 'a wait_queue \<Rightarrow> 'a wait_queue option" where
  "wait_push a s =
     (case qtail s of
        Some t \<Rightarrow> do {
          m \<leftarrow> store a (\<lambda>k. k\<lparr>prev := Some t\<rparr>) (nodes s);
          m' \<leftarrow> store t (\<lambda>k. k\<lparr>nxt := Some a\<rparr>) m;
          Some (s\<lparr>qtail := Some a, nodes := m'\<rparr>)
        }
      | None \<Rightarrow> Some (s\<lparr>qtail := Some a, qhead := Some a\<rparr>))"

definition wait_is_empty :: "'a wait_queue \<Rightarrow> bool" where
  "wait_is_empty s \<longleftrightarrow> qhead s = None"

definition remove_from_list :: "nat \<Rightarrow> 'a wait_queue \<Rightarrow> 'a wait_queue option" where
  "remove_from_list a s = do {
     l \<leftarrow> nodes s a;
     if is_popped l then Some s
     else do {
       m \<leftarrow> store a (\<lambda>k. k\<lparr>is_popped := True\<rparr>) (nodes s);
       case (prev l, nxt l) of
         (None, None) \<Rightarrow>
           Some (if qhead s = Some a then s\<lparr>qhead := None, qtail := None, nodes := m\<rparr> else s\<lparr>nodes := m\<rparr>)
       | (None, Some n) \<Rightarrow> do {
           m' \<leftarrow> store n (\<lambda>k. k\<lparr>prev := None\<rparr>) m;
           Some (s\<lparr>qhead := Some n, nodes := m'\<rparr>)
         }
       | (Some p, None) \<Rightarrow> do {
           m' \<leftarrow> store p (\<lambda>k. k\<lparr>nxt := None\<rparr>) m;
           Some (s\<lparr>qtail := Some p, nodes := m'\<rparr>)
         }
       | (Some p, Some n) \<Rightarrow> do {
           m' \<leftarrow> store p (\<lambda>k. k\<lparr>nxt := Some n\<rparr>) m;
           m'' \<leftarrow> store n (\<lambda>k. k\<lparr>prev := Some p\<rparr>) m';
           Some (s\<lparr>nodes := m''\<rparr>)
         }
     }
   }"

section \<open>Segments\<close>

text \<open>
  \<open>seg m b p as e q\<close>: from \<open>p\<close> the links \<open>as\<close> lead to \<open>q\<close>, and backwards: before the first is \<open>b\<close>, the last
  is \<open>e\<close> (\<open>b\<close> when there is none).
\<close>

primrec seg :: "'a wait_links \<Rightarrow> nat option \<Rightarrow> nat option \<Rightarrow> nat list \<Rightarrow> nat option \<Rightarrow> nat option \<Rightarrow> bool" where
  "seg m b p [] e q = (p = q \<and> e = b)"
| "seg m b p (a # as) e q =
     (p = Some a \<and> (\<exists>l. m a = Some l \<and> prev l = b \<and> \<not> is_popped l \<and> seg m (Some a) (nxt l) as e q))"

definition queued :: "'a wait_queue \<Rightarrow> nat list \<Rightarrow> bool" where
  "queued s as = seg (nodes s) None (qhead s) as (qtail s) None"

definition content_at :: "'a wait_links \<Rightarrow> nat \<Rightarrow> 'a option" where
  "content_at m a = map_option content (m a)"

definition popped_at :: "'a wait_links \<Rightarrow> nat \<Rightarrow> bool option" where
  "popped_at m a = map_option is_popped (m a)"

lemma seg_append: "seg m b p (as @ bs) e q \<longleftrightarrow> (\<exists>x y. seg m b p as x y \<and> seg m x y bs e q)"
  by (induction as arbitrary: b p) auto

lemma seg_cong: "(\<And>a. a \<in> set as \<Longrightarrow> m' a = m a) \<Longrightarrow> seg m' b p as e q = seg m b p as e q"
  by (induction as arbitrary: b p) auto

lemma seg_outside [simp]: "a \<notin> set as \<Longrightarrow> seg (m(a := x)) b p as e q = seg m b p as e q"
  by (rule seg_cong) auto

lemma seg_unique: "seg m b p as e None \<Longrightarrow> seg m b' p bs e' None \<Longrightarrow> as = bs"
proof (induction as arbitrary: b b' p bs)
  case Nil
  then show ?case by (cases bs) auto
next
  case (Cons a as)
  then show ?case by (cases bs) auto
qed

lemma seg_suffix: "seg m b p (as @ c # cs) e q \<Longrightarrow> \<exists>x. seg m x (Some c) (c # cs) e q"
  by (induction as arbitrary: b p) auto

lemma seg_distinct: "seg m b p as e None \<Longrightarrow> distinct as"
proof (induction as arbitrary: b p)
  case (Cons a as)
  have "a \<notin> set as"
  proof
    assume "a \<in> set as"
    then obtain ys zs where as: "as = ys @ a # zs" by (meson split_list)
    have "seg m b p ((a # ys) @ a # zs) e None" using Cons.prems by (simp add: as)
    then obtain x where "seg m x (Some a) (a # zs) e None" using seg_suffix by blast
    moreover have "seg m b (Some a) (a # as) e None" using Cons.prems by simp
    ultimately have "a # zs = a # as" by (rule seg_unique)
    then show False by (simp add: as)
  qed
  with Cons show ?case by auto
qed simp

lemma seg_end: "seg m b p as e q \<Longrightarrow> e = (if as = [] then b else Some (last as))"
  by (induction as arbitrary: b p) auto

lemma seg_start: "seg m b p as e q \<Longrightarrow> p = (if as = [] then q else Some (hd as))"
  by (cases as) auto

lemma seg_mapped: "seg m b p as e q \<Longrightarrow> a \<in> set as \<Longrightarrow> \<exists>l. m a = Some l \<and> \<not> is_popped l"
  by (induction as arbitrary: b p) auto

text \<open>The last link of a segment led elsewhere; something else before its first.\<close>

lemma seg_set_next:
  assumes "seg m b p (as @ [c]) e q" and "c \<notin> set as" and "m c = Some l"
  shows "seg (m(c \<mapsto> l\<lparr>nxt := q'\<rparr>)) b p (as @ [c]) e q'"
  using assms by (auto simp: seg_append)

lemma seg_set_prev:
  assumes "seg m b p (c # as) e q" and "c \<notin> set as" and "m c = Some l"
  shows "seg (m(c \<mapsto> l\<lparr>prev := b'\<rparr>)) b' p (c # as) e q"
  using assms by auto

section \<open>What the operations do to the list of addresses\<close>

text \<open>Only the links of the list, and of these not the contents, change; \<open>P\<close> is what has been popped.\<close>

definition kept :: "nat set \<Rightarrow> nat set \<Rightarrow> 'a wait_links \<Rightarrow> 'a wait_links \<Rightarrow> bool" where
  "kept A P m m' \<longleftrightarrow> content_at m' = content_at m \<and> (\<forall>a. a \<notin> A \<longrightarrow> m' a = m a) \<and>
     (\<forall>a. popped_at m' a = (if a \<in> P then Some True else popped_at m a))"

lemma store_Some: "m a = Some l \<Longrightarrow> store a f m = Some (m(a \<mapsto> f l))"
  by (simp add: store_def)

lemma queued_distinct: "queued s as \<Longrightarrow> distinct as"
  unfolding queued_def by (rule seg_distinct)

lemma queued_unique: "queued s as \<Longrightarrow> queued s bs \<Longrightarrow> as = bs"
  unfolding queued_def by (rule seg_unique)

lemma wait_pop_Nil: "queued s [] \<Longrightarrow> wait_pop s = Some (None, s)"
  by (simp add: queued_def wait_pop_def)

lemma wait_is_empty_iff: "queued s as \<Longrightarrow> wait_is_empty s \<longleftrightarrow> as = []"
  by (cases as) (auto simp: queued_def wait_is_empty_def)

lemma wait_pop_Cons:
  assumes "queued s (h # as)"
  obtains s' l where "nodes s h = Some l" and "wait_pop s = Some (Some (content l), s')" and "queued s' as" and
    "kept (set (h # as)) {h} (nodes s) (nodes s')"
proof -
  from assms obtain l where l: "qhead s = Some h" "nodes s h = Some l" "prev l = None" "\<not> is_popped l"
    "seg (nodes s) (Some h) (nxt l) as (qtail s) None" by (auto simp: queued_def)
  have d: "h \<notin> set as" "distinct as" using queued_distinct [OF assms] by auto
  show thesis
  proof (cases as)
    case Nil
    with l show thesis
      by (intro that [OF l(2)]) (auto simp: wait_pop_def store_Some queued_def kept_def content_at_def popped_at_def fun_eq_iff)
  next
    case (Cons n bs)
    then obtain k where k: "nxt l = Some n" "nodes s n = Some k" "seg (nodes s) (Some n) (nxt k) bs (qtail s) None"
      using l(5) by auto
    have "qtail s = Some (last as)" using seg_end [OF l(5)] Cons by simp
    moreover have "last as \<noteq> h" using d Cons last_in_set by blast
    ultimately have t: "qhead s \<noteq> qtail s" using l(1) by simp
    let ?m = "(nodes s)(n \<mapsto> k\<lparr>prev := None\<rparr>)"
    let ?m' = "?m(h \<mapsto> l\<lparr>nxt := None, prev := None, is_popped := True\<rparr>)"
    have "seg ?m None (Some n) (n # bs) (qtail s) None"
      using l(5) d Cons k by auto
    then have "seg ?m' None (Some n) as (qtail s) None"
      using d Cons by (subst seg_outside) auto
    then show thesis
      using l k t d Cons
      by (intro that [OF l(2), of "\<lparr>qhead = Some n, qtail = qtail s, nodes = ?m'\<rparr>"])
        (auto simp: wait_pop_def store_Some queued_def kept_def content_at_def popped_at_def fun_eq_iff)
  qed
qed

lemma wait_push_queued:
  assumes "queued s as" and "nodes s a = Some l" and "nxt l = None" and "prev l = None" and "\<not> is_popped l" and
    "a \<notin> set as"
  obtains s' where "wait_push a s = Some s'" and "queued s' (as @ [a])" and
    "kept (insert a (set as)) {} (nodes s) (nodes s')"
proof (cases as rule: rev_cases)
  case Nil
  with assms show thesis
    by (intro that [of "s\<lparr>qhead := Some a, qtail := Some a\<rparr>"]) (auto simp: queued_def wait_push_def kept_def)
next
  case (snoc bs t)
  then have s: "seg (nodes s) None (qhead s) (bs @ [t]) (qtail s) None" using assms(1) by (simp add: queued_def)
  have t: "qtail s = Some t" using seg_end [OF s] by simp
  obtain k where k: "nodes s t = Some k" using seg_mapped [OF s, of t] by auto
  have d: "t \<notin> set bs" "a \<noteq> t" "a \<notin> set bs" using queued_distinct [OF assms(1)] assms(6) snoc by auto
  let ?m = "(nodes s)(t \<mapsto> k\<lparr>nxt := Some a\<rparr>)"
  let ?m' = "(nodes s)(a \<mapsto> l\<lparr>prev := Some t\<rparr>, t \<mapsto> k\<lparr>nxt := Some a\<rparr>)"
  have eq: "?m' = ?m(a \<mapsto> l\<lparr>prev := Some t\<rparr>)" using d by (simp add: fun_upd_twist)
  have "seg ?m None (qhead s) (bs @ [t]) (Some t) (Some a)"
    using seg_set_next [OF s d(1) k, of "Some a"] t by simp
  then have "seg ?m' None (qhead s) (bs @ [t]) (Some t) (Some a)"
    unfolding eq using d by (subst seg_outside) auto
  then have "seg ?m' None (qhead s) ((bs @ [t]) @ [a]) (Some a) None"
    using d assms(3-5) unfolding seg_append [of _ _ _ "bs @ [t]"] by (intro exI [of _ "Some t"] exI [of _ "Some a"]) simp
  then show thesis
    using assms k t d snoc
    by (intro that [of "s\<lparr>qtail := Some a, nodes := ?m'\<rparr>"])
      (auto simp: wait_push_def store_Some queued_def kept_def content_at_def popped_at_def fun_eq_iff)
qed

lemma remove_popped: "nodes s a = Some l \<Longrightarrow> is_popped l \<Longrightarrow> remove_from_list a s = Some s"
  by (simp add: remove_from_list_def)

lemma seg_set_prev':
  assumes "seg m b p as e q" and "as = c # cs" and "c \<notin> set cs" and "m c = Some k"
  shows "seg (m(c \<mapsto> k\<lparr>prev := b'\<rparr>)) b' p as e q"
  using assms by auto

lemma remove_queued:
  assumes "queued s as" and "a \<in> set as"
  obtains s' where "remove_from_list a s = Some s'" and "queued s' (remove1 a as)" and
    "kept (set as) {a} (nodes s) (nodes s')"
proof -
  obtain xs ys where as: "as = xs @ a # ys" using assms(2) by (meson split_list)
  have d: "distinct (xs @ a # ys)" using queued_distinct [OF assms(1)] as by simp
  then have r: "remove1 a as = xs @ ys" unfolding as by (simp add: remove1_append)
  obtain x l where xs: "seg (nodes s) None (qhead s) xs x (Some a)" and
    l: "nodes s a = Some l" "prev l = x" "\<not> is_popped l" and ys: "seg (nodes s) (Some a) (nxt l) ys (qtail s) None"
    using assms(1) by (auto simp: queued_def as seg_append)
  let ?m = "(nodes s)(a \<mapsto> l\<lparr>is_popped := True\<rparr>)"
  have xs': "seg ?m None (qhead s) xs x (Some a)" and ys': "seg ?m (Some a) (nxt l) ys (qtail s) None"
    using xs ys d by simp_all
  note defs = remove_from_list_def store_Some kept_def content_at_def popped_at_def fun_eq_iff
  show thesis
  proof (cases xs rule: rev_cases; cases ys)
    assume e: "xs = []" "ys = []"
    show thesis
      using e l xs ys as
      by (intro that [of "s\<lparr>qhead := None, qtail := None, nodes := ?m\<rparr>"]) (auto simp: defs queued_def)
  next
    fix n zs assume e: "xs = []" "ys = n # zs"
    then obtain k where k: "nodes s n = Some k" "nxt l = Some n" using ys by auto
    let ?m' = "?m(n \<mapsto> k\<lparr>prev := None\<rparr>)"
    have "n \<noteq> a" using d e by auto
    then have "seg ?m' None (nxt l) ys (qtail s) None"
      using e d k by (intro seg_set_prev' [OF ys' e(2)]) auto
    then have "queued (s\<lparr>qhead := Some n, nodes := ?m'\<rparr>) (remove1 a as)"
      using e k r by (simp add: queued_def)
    then show thesis
      using e l xs k as \<open>n \<noteq> a\<close>
      by (intro that [of "s\<lparr>qhead := Some n, nodes := ?m'\<rparr>"]) (auto simp: defs)
  next
    fix us p assume e: "xs = us @ [p]" "ys = []"
    then obtain k where k: "nodes s p = Some k" using seg_mapped [OF xs, of p] by auto
    have p: "x = Some p" using seg_end [OF xs] e by simp
    have q: "nxt l = None" using ys e by simp
    let ?m' = "?m(p \<mapsto> k\<lparr>nxt := None\<rparr>)"
    have "p \<noteq> a" using d e by auto
    then have "seg ?m' None (qhead s) (us @ [p]) x None"
      using e d k xs' by (intro seg_set_next [where q = "Some a"]) auto
    then have "queued (s\<lparr>qtail := Some p, nodes := ?m'\<rparr>) (remove1 a as)"
      using e p r by (simp add: queued_def)
    then show thesis
      using e l p q k as \<open>p \<noteq> a\<close>
      by (intro that [of "s\<lparr>qtail := Some p, nodes := ?m'\<rparr>"]) (auto simp: defs)
  next
    fix us p n zs assume e: "xs = us @ [p]" "ys = n # zs"
    obtain j where j: "nodes s p = Some j" using seg_mapped [OF xs, of p] e by auto
    obtain k where k: "nodes s n = Some k" "nxt l = Some n" using ys e by auto
    have p: "x = Some p" using seg_end [OF xs] e by simp
    have ne: "p \<noteq> a" "n \<noteq> a" "p \<noteq> n" "p \<notin> set us" "n \<notin> set zs" "p \<notin> set ys" "n \<notin> set xs" using d e by auto
    let ?m1 = "?m(p \<mapsto> j\<lparr>nxt := Some n\<rparr>)"
    let ?m2 = "?m1(n \<mapsto> k\<lparr>prev := Some p\<rparr>)"
    have "seg ?m1 None (qhead s) (us @ [p]) x (Some n)"
      using e ne j xs' by (intro seg_set_next [where q = "Some a"]) auto
    then have "seg ?m2 None (qhead s) xs x (Some n)" using e(1) ne(7) by simp
    moreover have "seg ?m1 (Some a) (nxt l) ys (qtail s) None" using ys' ne(6) by simp
    then have "seg ?m2 (Some p) (nxt l) ys (qtail s) None"
      using ne k by (intro seg_set_prev' [OF _ e(2)]) auto
    ultimately have "queued (s\<lparr>nodes := ?m2\<rparr>) (remove1 a as)"
      unfolding r queued_def seg_append using p k(2) by auto
    then show thesis
      using e l p k j as ne
      by (intro that [of "s\<lparr>nodes := ?m2\<rparr>"]) (auto simp: defs)
  qed
qed

text \<open>
  C23: The operations on links in memory are those of a queue of addresses, first in first out: \<open>pop\<close> takes
  the first link and gives its content, \<open>push\<close> puts a new link at the end, \<open>remove_from_list\<close> takes a
  link out wherever it is, once. None of them dereferences a link that is not there, and the links
  that leave, and only these, are marked as popped.
\<close>

theorem wait_queue_refines:
  assumes "queued s as"
  shows "(case as of
      [] \<Rightarrow> wait_pop s = Some (None, s)
    | h # bs \<Rightarrow> \<exists>s'. wait_pop s = Some (content_at (nodes s) h, s') \<and> queued s' bs \<and>
        kept (set as) {h} (nodes s) (nodes s')) \<and>
    (\<forall>a v. nodes s a = Some (new_wait_link v) \<longrightarrow> a \<notin> set as \<longrightarrow>
      (\<exists>s'. wait_push a s = Some s' \<and> queued s' (as @ [a]) \<and> kept (insert a (set as)) {} (nodes s) (nodes s'))) \<and>
    (\<forall>a. a \<in> set as \<longrightarrow>
      (\<exists>s'. remove_from_list a s = Some s' \<and> queued s' (remove1 a as) \<and>
        kept (set as) {a} (nodes s) (nodes s') \<and> remove_from_list a s' = Some s'))"
proof (intro conjI allI impI)
  show "case as of
      [] \<Rightarrow> wait_pop s = Some (None, s)
    | h # bs \<Rightarrow> \<exists>s'. wait_pop s = Some (content_at (nodes s) h, s') \<and> queued s' bs \<and>
        kept (set as) {h} (nodes s) (nodes s')"
  proof (cases as)
    case Nil
    with assms show ?thesis by (simp add: wait_pop_Nil)
  next
    case (Cons h bs)
    obtain s' l where "nodes s h = Some l" "wait_pop s = Some (Some (content l), s')" "queued s' bs"
      "kept (set (h # bs)) {h} (nodes s) (nodes s')"
      by (rule wait_pop_Cons [OF assms [unfolded Cons]])
    with Cons show ?thesis by (simp add: content_at_def)
  qed
  show "\<exists>s'. wait_push a s = Some s' \<and> queued s' (as @ [a]) \<and> kept (insert a (set as)) {} (nodes s) (nodes s')"
    if "nodes s a = Some (new_wait_link v)" "a \<notin> set as" for a v
    using wait_push_queued [OF assms that(1) _ _ _ that(2)] unfolding new_wait_link_def
    by (metis wait_link.select_convs(2,3,4))
  show "\<exists>s'. remove_from_list a s = Some s' \<and> queued s' (remove1 a as) \<and>
      kept (set as) {a} (nodes s) (nodes s') \<and> remove_from_list a s' = Some s'" if a: "a \<in> set as" for a
  proof -
    obtain s' where s': "remove_from_list a s = Some s'" "queued s' (remove1 a as)"
      "kept (set as) {a} (nodes s) (nodes s')" by (rule remove_queued [OF assms a])
    then have "popped_at (nodes s') a = Some True" by (simp add: kept_def)
    then have "remove_from_list a s' = Some s'" by (auto simp: popped_at_def remove_popped)
    with s' show ?thesis by blast
  qed
qed

lemma wait_queue_refines_witness:
  "\<exists>s s'. queued s [4, 9] \<and> wait_pop s = Some (Some (7 :: nat), s') \<and> queued s' [9]"
proof -
  let ?s = "\<lparr>qhead = Some 4, qtail = Some 9, nodes =
    [4 \<mapsto> \<lparr>content = 7, nxt = Some 9, prev = None, is_popped = False\<rparr>,
     9 \<mapsto> \<lparr>content = 8, nxt = None, prev = Some 4, is_popped = False\<rparr>]\<rparr> :: nat wait_queue"
  have "queued ?s [4, 9]" by (simp add: queued_def)
  with wait_queue_refines [of ?s "[4, 9]"] show ?thesis by (auto simp: content_at_def)
qed

section \<open>Waiting until a condition holds\<close>

text \<open>
  \<open>wait_until\<close>: its link is at address \<open>a\<close>; the guard takes it out of the queue and forgets it, at each
  poll and when the future is dropped; \<open>r\<close> is what the closure returns.
\<close>

definition wait_guard :: "nat \<Rightarrow> 'a wait_queue \<Rightarrow> 'a wait_queue option" where
  "wait_guard a s =
     (case nodes s a of
        None \<Rightarrow> Some s
      | Some l \<Rightarrow> do {
          s' \<leftarrow> remove_from_list a s;
          Some (s'\<lparr>nodes := (nodes s')(a := None)\<rparr>)
        })"

definition wait_until_poll :: "nat \<Rightarrow> 'a \<Rightarrow> 'r option \<Rightarrow> 'a wait_queue \<Rightarrow> ('r option \<times> 'a wait_queue) option" where
  "wait_until_poll a w r s = do {
     s' \<leftarrow> wait_guard a s;
     case r of
       Some v \<Rightarrow> Some (Some v, s')
     | None \<Rightarrow> do {
         s'' \<leftarrow> wait_push a (s'\<lparr>nodes := (nodes s')(a \<mapsto> new_wait_link w)\<rparr>);
         Some (None, s'')
       }
   }"

lemma wait_guard_queued:
  assumes q: "queued s as" and a: "a \<in> set as \<or> popped_at (nodes s) a \<noteq> Some False"
  obtains s' where "wait_guard a s = Some s'" and "queued s' (remove1 a as)" and "nodes s' a = None"
proof (cases "a \<in> set as")
  case True
  obtain s' where s': "remove_from_list a s = Some s'" "queued s' (remove1 a as)"
    by (rule remove_queued [OF q True])
  obtain l where "nodes s a = Some l" using q True by (auto simp: queued_def dest: seg_mapped)
  moreover have "a \<notin> set (remove1 a as)" using queued_distinct [OF q] by simp
  ultimately show thesis
    using s' by (intro that [of "s'\<lparr>nodes := (nodes s')(a := None)\<rparr>"]) (simp_all add: wait_guard_def queued_def)
next
  case False
  show thesis
  proof (cases "nodes s a")
    case None
    with q False show thesis by (intro that [of s]) (simp_all add: wait_guard_def remove1_idem)
  next
    case (Some l)
    then have "is_popped l" using a False by (simp add: popped_at_def)
    with q False Some show thesis
      by (intro that [of "s\<lparr>nodes := (nodes s)(a := None)\<rparr>"])
        (simp_all add: wait_guard_def remove_popped queued_def remove1_idem)
  qed
qed

lemma wait_until_poll_queued:
  assumes q: "queued s as" and a: "a \<in> set as \<or> popped_at (nodes s) a \<noteq> Some False"
  obtains s' where "wait_until_poll a w r s = Some (r, s')" and
    "queued s' (case r of None \<Rightarrow> remove1 a as @ [a] | Some v \<Rightarrow> remove1 a as)"
proof -
  obtain s' where s': "wait_guard a s = Some s'" "queued s' (remove1 a as)" "nodes s' a = None"
    by (rule wait_guard_queued [OF q a])
  show thesis
  proof (cases r)
    case (Some v)
    with s' show thesis by (intro that [of s']) (simp_all add: wait_until_poll_def)
  next
    case None
    have n: "a \<notin> set (remove1 a as)" using queued_distinct [OF q] by simp
    let ?s = "s'\<lparr>nodes := (nodes s')(a \<mapsto> new_wait_link w)\<rparr>"
    have "queued ?s (remove1 a as)" using s'(2) n by (simp add: queued_def)
    then obtain s'' where "wait_push a ?s = Some s''" "queued s'' (remove1 a as @ [a])"
      by (rule wait_push_queued [where l = "new_wait_link w"]) (use n in \<open>simp_all add: new_wait_link_def\<close>)
    with s' None show thesis by (intro that [of s'']) (simp_all add: wait_until_poll_def)
  qed
qed

end
