(* ===== verification/Rtic_Channel.thy ===== *)
theory Rtic_Channel
  imports Rtic_Wait_Queue "HOL-Library.Multiset"
begin

text \<open>
  The channel (\<open>rtic-sync/src/channel.rs\<close>): \<open>N\<close> slots for values, the queues of the free and of the ready
  ones, the senders that wait for a slot, one receiver. It is a state machine whose steps are what runs
  without interruption: a critical section, or a copy of a value in or out of a slot. Every sender and
  the receiver is at some point of its current operation; between two of its steps any other may run.
  What the code leaves undefined (an index pushed to a full queue with \<open>push_back_unchecked\<close>, a slot read
  that holds no value, a link that is gone) is \<open>None\<close>.
\<close>

section \<open>State\<close>

datatype leaving = Claimed nat | Refused | Cancelled  \<comment> \<open>how a \<open>send\<close> leaves its \<open>poll_fn\<close>\<close>

datatype 'v activity =
    Resting
  | Checking 'v           \<comment> \<open>\<open>try_send\<close>: the wait queue was empty, \<open>is_closed\<close> is next\<close>
  | Claiming 'v           \<comment> \<open>\<open>try_send\<close>: not closed, a free slot is next\<close>
  | Polling 'v            \<comment> \<open>\<open>send\<close>: between polls\<close>
  | Exiting 'v leaving    \<comment> \<open>\<open>send\<close>: the dropper removes the link\<close>
  | Freeing 'v leaving    \<comment> \<open>\<open>send\<close>: the dropper returns an unused slot\<close>
  | Filling 'v nat        \<comment> \<open>\<open>send_footer\<close>: the value is written\<close>
  | Readying 'v nat       \<comment> \<open>\<open>send_footer\<close>: the slot becomes ready\<close>
  | Waking                \<comment> \<open>\<open>send_footer\<close>: the receiver is woken\<close>
  | Closing               \<comment> \<open>\<open>drop\<close> of the last sender: the receiver is woken\<close>
  | Dead

datatype 'v send_result = Sent | NoReceiver 'v | Full 'v

record 'v sender =
  activity :: "'v activity"
  free_slot_ptr :: "nat option"
  send_result :: "'v send_result option"

text \<open>The receiver; the flag says whether it tries for an \<open>await\<close>ing \<open>recv\<close>.\<close>

datatype 'v receiving =
    Idle
  | Trying bool           \<comment> \<open>\<open>try_recv\<close>\<close>
  | Reading bool nat      \<comment> \<open>a ready slot taken, its value is read next\<close>
  | Returning bool 'v nat \<comment> \<open>the value read, the slot is returned next\<close>
  | Finding bool          \<comment> \<open>no ready slot, \<open>is_closed\<close> is next\<close>
  | Waiting               \<comment> \<open>\<open>recv\<close> has returned \<open>Pending\<close>\<close>
  | Draining              \<comment> \<open>\<open>drop\<close>: the loop over the ready slots\<close>
  | Discarding nat        \<comment> \<open>\<open>drop\<close>: a ready slot taken, its value is dropped next\<close>
  | Releasing             \<comment> \<open>\<open>drop\<close>: the loop over the wait queue\<close>
  | Gone

datatype 'v receive_result = Received 'v | NoSender | Empty

text \<open>
  The link and the free slot of the \<open>send\<close> of sender \<open>i\<close> are at address \<open>i\<close>. The last three fields are not in
  the code: the values that became ready, those received, and whether the receiver has been woken since
  it registered its waker last.
\<close>

record ('v, 'w) channel =
  capacity :: nat
  freeq :: "nat list"
  readyq :: "nat list"
  slots :: "nat \<Rightarrow> 'v option"
  receiver_waker :: "'w option"
  waiting :: "('w \<times> nat) wait_queue"
  receiver_dropped :: bool
  num_senders :: nat
  senders :: "'v sender list"
  receiver :: "'v receiving"
  receive_result :: "'v receive_result option"
  woken :: "'w list"
  sent :: "'v list"
  received :: "'v list"
  notified :: bool

definition new_channel :: "nat \<Rightarrow> ('v, 'w) channel" where
  "new_channel n = \<lparr>capacity = n, freeq = [], readyq = [], slots = (\<lambda>_. None), receiver_waker = None,
     waiting = new_wait_queue Map.empty, receiver_dropped = False, num_senders = 0, senders = [], receiver = Gone,
     receive_result = None, woken = [], sent = [], received = [], notified = False\<rparr>"

definition new_sender :: "'v sender" where
  "new_sender = \<lparr>activity = Resting, free_slot_ptr = None, send_result = None\<rparr>"

definition split :: "('v, 'w) channel \<Rightarrow> ('v, 'w) channel option" where
  \<comment> \<open>\<open>None\<close> is the failure of \<open>debug_assert\<close>\<close>
  "split c = (if readyq c \<noteq> [] then None
     else Some (c\<lparr>freeq := [0..<capacity c], num_senders := 1, senders := [new_sender], receiver := Idle\<rparr>))"

section \<open>Shared operations\<close>

definition set_sender :: "nat \<Rightarrow> ('v sender \<Rightarrow> 'v sender) \<Rightarrow> ('v, 'w) channel \<Rightarrow> ('v, 'w) channel" where
  "set_sender i f c = c\<lparr>senders := (senders c)[i := f (senders c ! i)]\<rparr>"

definition go :: "nat \<Rightarrow> 'v activity \<Rightarrow> ('v, 'w) channel \<Rightarrow> ('v, 'w) channel" where
  "go i a = set_sender i (\<lambda>s. s\<lparr>activity := a\<rparr>)"

definition finish :: "nat \<Rightarrow> 'v send_result \<Rightarrow> ('v, 'w) channel \<Rightarrow> ('v, 'w) channel" where
  "finish i r = set_sender i (\<lambda>s. s\<lparr>activity := Resting, send_result := Some r\<rparr>)"

definition set_links :: "('w \<times> nat) wait_links \<Rightarrow> ('v, 'w) channel \<Rightarrow> ('v, 'w) channel" where
  "set_links m c = c\<lparr>waiting := (waiting c)\<lparr>nodes := m\<rparr>\<rparr>"

definition return_free_slot :: "nat \<Rightarrow> ('v, 'w) channel \<Rightarrow> ('v, 'w) channel option" where
  "return_free_slot slot c = do {
     (r, q) \<leftarrow> wait_pop (waiting c);
     case r of
       Some (waker, p) \<Rightarrow>
         Some (set_sender p (\<lambda>s. s\<lparr>free_slot_ptr := Some slot\<rparr>) (c\<lparr>waiting := q, woken := woken c @ [waker]\<rparr>))
     | None \<Rightarrow>
         if length (freeq c) < capacity c then Some (c\<lparr>waiting := q, freeq := freeq c @ [slot]\<rparr>) else None
   }"

definition wake_receiver :: "('v, 'w) channel \<Rightarrow> ('v, 'w) channel" where
  "wake_receiver c = (case receiver_waker c of
     None \<Rightarrow> c
   | Some w \<Rightarrow> c\<lparr>receiver_waker := None, woken := woken c @ [w], notified := True\<rparr>)"

definition register :: "'w \<Rightarrow> ('v, 'w) channel \<Rightarrow> ('v, 'w) channel" where
  "register w c = (case receiver_waker c of
     None \<Rightarrow> c\<lparr>receiver_waker := Some w\<rparr>
   | Some w' \<Rightarrow> if w' = w then c else c\<lparr>receiver_waker := Some w, woken := woken c @ [w']\<rparr>)"

section \<open>Senders\<close>

definition try_send :: "nat \<Rightarrow> 'v \<Rightarrow> ('v, 'w) channel \<Rightarrow> ('v, 'w) channel" where
  \<comment> \<open>up to the reading of \<open>is_closed\<close>\<close>
  "try_send i v c = (if wait_is_empty (waiting c) then go i (Checking v) c else finish i (Full v) c)"

definition try_closed :: "nat \<Rightarrow> 'v \<Rightarrow> ('v, 'w) channel \<Rightarrow> ('v, 'w) channel" where
  "try_closed i v c = (if receiver_dropped c then finish i (NoReceiver v) c else go i (Claiming v) c)"

definition try_claim :: "nat \<Rightarrow> 'v \<Rightarrow> ('v, 'w) channel \<Rightarrow> ('v, 'w) channel" where
  "try_claim i v c = (case freeq c of
     [] \<Rightarrow> finish i (Full v) c
   | slot # q \<Rightarrow> go i (Filling v slot) (c\<lparr>freeq := q\<rparr>))"

definition send_poll :: "nat \<Rightarrow> 'w \<Rightarrow> 'v \<Rightarrow> ('v, 'w) channel \<Rightarrow> ('v, 'w) channel option" where
  "send_poll i w v c =
     (if receiver_dropped c then Some (go i (Exiting v Refused) c)
      else case nodes (waiting c) i of
        Some l \<Rightarrow>
          if is_popped l then
            let c' = set_links ((nodes (waiting c))(i := None)) c
            in Some (case free_slot_ptr (senders c ! i) of
                Some slot \<Rightarrow> set_sender i (\<lambda>s. s\<lparr>free_slot_ptr := None, activity := Exiting v (Claimed slot)\<rparr>) c'
              | None \<Rightarrow> go i (Exiting v Refused) c')
          else Some c
      | None \<Rightarrow>
          if \<not> wait_is_empty (waiting c) \<or> freeq c = [] then do {
            q \<leftarrow> wait_push i ((waiting c)\<lparr>nodes := (nodes (waiting c))(i \<mapsto> new_wait_link (w, i))\<rparr>);
            Some (c\<lparr>waiting := q\<rparr>)
          }
          else Some (go i (Exiting v (Claimed (last (freeq c)))) (c\<lparr>freeq := butlast (freeq c)\<rparr>)))"

definition send_exit :: "nat \<Rightarrow> 'v \<Rightarrow> leaving \<Rightarrow> ('v, 'w) channel \<Rightarrow> ('v, 'w) channel option" where
  \<comment> \<open>the dropper: the link\<close>
  "send_exit i v r c = (case nodes (waiting c) i of
     None \<Rightarrow> Some (go i (Freeing v r) c)
   | Some l \<Rightarrow> do {
       q \<leftarrow> remove_from_list i (waiting c);
       Some (go i (Freeing v r) (c\<lparr>waiting := q\<rparr>))
     })"

definition left_send :: "nat \<Rightarrow> 'v \<Rightarrow> leaving \<Rightarrow> ('v, 'w) channel \<Rightarrow> ('v, 'w) channel" where
  \<comment> \<open>after the dropper; the link and the free slot are gone with the future\<close>
  "left_send i v r c =
     (let c' = set_links ((nodes (waiting c))(i := None)) c
      in case r of Claimed slot \<Rightarrow> go i (Filling v slot) c'
         | Refused \<Rightarrow> finish i (NoReceiver v) c'
         | Cancelled \<Rightarrow> go i Resting c')"

definition send_free :: "nat \<Rightarrow> 'v \<Rightarrow> leaving \<Rightarrow> ('v, 'w) channel \<Rightarrow> ('v, 'w) channel option" where
  \<comment> \<open>the dropper: the slot\<close>
  "send_free i v r c = (case free_slot_ptr (senders c ! i) of
     None \<Rightarrow> Some (left_send i v r c)
   | Some slot \<Rightarrow> do {
       c' \<leftarrow> return_free_slot slot (set_sender i (\<lambda>s. s\<lparr>free_slot_ptr := None\<rparr>) c);
       Some (left_send i v r c')
     })"

definition write_slot :: "nat \<Rightarrow> 'v \<Rightarrow> nat \<Rightarrow> ('v, 'w) channel \<Rightarrow> ('v, 'w) channel" where
  "write_slot i v slot c = go i (Readying v slot) (c\<lparr>slots := (slots c)(slot := Some v)\<rparr>)"

definition push_ready :: "nat \<Rightarrow> 'v \<Rightarrow> nat \<Rightarrow> ('v, 'w) channel \<Rightarrow> ('v, 'w) channel option" where
  "push_ready i v slot c =
     (if length (readyq c) < capacity c
      then Some (go i Waking (c\<lparr>readyq := readyq c @ [slot], sent := sent c @ [v]\<rparr>)) else None)"

definition run_sender :: "nat \<Rightarrow> 'w \<Rightarrow> ('v, 'w) channel \<Rightarrow> ('v, 'w) channel option" where
  \<comment> \<open>the next step of what sender \<open>i\<close> is doing; \<open>w\<close> is the waker of its task\<close>
  "run_sender i w c = (case activity (senders c ! i) of
     Checking v \<Rightarrow> Some (try_closed i v c)
   | Claiming v \<Rightarrow> Some (try_claim i v c)
   | Polling v \<Rightarrow> send_poll i w v c
   | Exiting v r \<Rightarrow> send_exit i v r c
   | Freeing v r \<Rightarrow> send_free i v r c
   | Filling v slot \<Rightarrow> Some (write_slot i v slot c)
   | Readying v slot \<Rightarrow> push_ready i v slot c
   | Waking \<Rightarrow> Some (finish i Sent (wake_receiver c))
   | Closing \<Rightarrow> Some (go i Dead (wake_receiver c))
   | Resting \<Rightarrow> Some c
   | Dead \<Rightarrow> Some c)"

definition clone_sender :: "('v, 'w) channel \<Rightarrow> ('v, 'w) channel" where
  "clone_sender c = c\<lparr>num_senders := num_senders c + 1, senders := senders c @ [new_sender]\<rparr>"

definition drop_sender :: "nat \<Rightarrow> ('v, 'w) channel \<Rightarrow> ('v, 'w) channel" where
  "drop_sender i c = go i (if num_senders c - 1 = 0 then Closing else Dead) (c\<lparr>num_senders := num_senders c - 1\<rparr>)"

section \<open>The receiver\<close>

definition recv_poll :: "'w \<Rightarrow> ('v, 'w) channel \<Rightarrow> ('v, 'w) channel" where
  \<comment> \<open>up to \<open>try_recv\<close>\<close>
  "recv_poll w c = (register w c)\<lparr>notified := False, receiver := Trying True\<rparr>"

definition received_as :: "'v receive_result \<Rightarrow> ('v, 'w) channel \<Rightarrow> ('v, 'w) channel" where
  "received_as r c = c\<lparr>receiver := Idle, receive_result := Some r\<rparr>"

definition take_ready :: "bool \<Rightarrow> ('v, 'w) channel \<Rightarrow> ('v, 'w) channel" where
  "take_ready a c = (case readyq c of
     [] \<Rightarrow> c\<lparr>receiver := Finding a\<rparr>
   | slot # q \<Rightarrow> c\<lparr>readyq := q, receiver := Reading a slot\<rparr>)"

definition read_slot :: "nat \<Rightarrow> ('v, 'w) channel \<Rightarrow> ('v \<times> ('v, 'w) channel) option" where
  \<comment> \<open>the value is moved out\<close>
  "read_slot slot c = do {
     v \<leftarrow> slots c slot;
     Some (v, c\<lparr>slots := (slots c)(slot := None)\<rparr>)
   }"

definition find_closed :: "bool \<Rightarrow> ('v, 'w) channel \<Rightarrow> ('v, 'w) channel" where
  "find_closed a c =
     (if num_senders c = 0 then received_as NoSender c
      else if a then c\<lparr>receiver := Waiting\<rparr> else received_as Empty c)"

definition drop_receiver :: "('v, 'w) channel \<Rightarrow> ('v, 'w) channel" where
  \<comment> \<open>up to the loops\<close>
  "drop_receiver c = c\<lparr>receiver_dropped := True, receiver := Draining\<rparr>"

definition drain :: "('v, 'w) channel \<Rightarrow> ('v, 'w) channel" where
  "drain c = (if readyq c = [] then c\<lparr>receiver := Releasing\<rparr>
     else c\<lparr>readyq := butlast (readyq c), receiver := Discarding (last (readyq c))\<rparr>)"

definition release_waiting :: "('v, 'w) channel \<Rightarrow> ('v, 'w) channel option" where
  "release_waiting c = do {
     (r, q) \<leftarrow> wait_pop (waiting c);
     Some (case r of
       None \<Rightarrow> c\<lparr>waiting := q, receiver := Gone\<rparr>
     | Some (waker, _) \<Rightarrow> c\<lparr>waiting := q, woken := woken c @ [waker]\<rparr>)
   }"

definition run_receiver :: "('v, 'w) channel \<Rightarrow> ('v, 'w) channel option" where
  \<comment> \<open>the next step of what the receiver is doing\<close>
  "run_receiver c = (case receiver c of
     Trying a \<Rightarrow> Some (take_ready a c)
   | Reading a slot \<Rightarrow> do {
       (v, c') \<leftarrow> read_slot slot c;
       Some (c'\<lparr>receiver := Returning a v slot, received := received c @ [v]\<rparr>)
     }
   | Returning a v slot \<Rightarrow> do {
       c' \<leftarrow> return_free_slot slot c;
       Some (received_as (Received v) c')
     }
   | Finding a \<Rightarrow> Some (find_closed a c)
   | Draining \<Rightarrow> Some (drain c)
   | Discarding slot \<Rightarrow> do {
       (v, c') \<leftarrow> read_slot slot c;
       Some (c'\<lparr>receiver := Draining\<rparr>)
     }
   | Releasing \<Rightarrow> release_waiting c
   | Idle \<Rightarrow> Some c
   | Waiting \<Rightarrow> Some c
   | Gone \<Rightarrow> Some c)"

section \<open>Steps\<close>

text \<open>
  A sender begins an operation when it rests, a future is dropped between polls; the channel is split when
  no sender and no receiver is left of an earlier split.
\<close>

inductive channel_step :: "('v, 'w) channel \<Rightarrow> ('v, 'w) channel \<Rightarrow> bool" where
  step_split: "channel_step c c'"
    if "receiver c = Gone" "list_all (\<lambda>s. activity s = Dead) (senders c)" "split c = Some c'"
| step_try_send: "channel_step c (try_send i v c)"
    if "i < length (senders c)" "activity (senders c ! i) = Resting"
| step_send: "channel_step c (go i (Polling v) c)"
    if "i < length (senders c)" "activity (senders c ! i) = Resting"
| step_cancel: "channel_step c (go i (Exiting v Cancelled) c)"
    if "i < length (senders c)" "activity (senders c ! i) = Polling v"
| step_sender: "channel_step c c'"
    if "i < length (senders c)" "run_sender i w c = Some c'"
| step_clone: "channel_step c (clone_sender c)"
    if "i < length (senders c)" "activity (senders c ! i) = Resting"
| step_drop_sender: "channel_step c (drop_sender i c)"
    if "i < length (senders c)" "activity (senders c ! i) = Resting"
| step_recv: "channel_step c (recv_poll w c)"
    if "receiver c = Idle \<or> receiver c = Waiting"
| step_try_recv: "channel_step c (c\<lparr>receiver := Trying False\<rparr>)"
    if "receiver c = Idle"
| step_give_up: "channel_step c (c\<lparr>receiver := Idle\<rparr>)"
    if "receiver c = Waiting"
| step_receiver: "channel_step c c'"
    if "run_receiver c = Some c'"
| step_drop_receiver: "channel_step c (drop_receiver c)"
    if "receiver c = Idle"

section \<open>The links of the senders\<close>

definition claimed :: "leaving \<Rightarrow> bool" where
  "claimed r \<longleftrightarrow> (case r of Claimed _ \<Rightarrow> True | _ \<Rightarrow> False)"

text \<open>
  A sender has a link only in \<open>send\<close>; the link is in the queue until it is popped or removed, and a link that
  \<open>return_free_slot\<close> popped has left a slot.
\<close>

definition sender_ok :: "('v, 'w) channel \<Rightarrow> nat list \<Rightarrow> nat \<Rightarrow> bool" where
  "sender_ok c as i \<longleftrightarrow> (let s = senders c ! i in
     (case popped_at (nodes (waiting c)) i of
        None \<Rightarrow> i \<notin> set as \<and> free_slot_ptr s = None
      | Some p \<Rightarrow> (\<exists>w. content_at (nodes (waiting c)) i = Some (w, i)) \<and> (p \<longleftrightarrow> i \<notin> set as) \<and>
          (\<not> p \<longrightarrow> free_slot_ptr s = None) \<and>
          (case activity s of
             Polling v \<Rightarrow> p \<and> \<not> receiver_dropped c \<longrightarrow> free_slot_ptr s \<noteq> None
           | Exiting v r \<Rightarrow> \<not> claimed r
           | Freeing v r \<Rightarrow> \<not> claimed r \<and> p
           | _ \<Rightarrow> False)))"

definition ending :: "'v receiving \<Rightarrow> bool" where
  "ending r \<longleftrightarrow> (case r of Draining \<Rightarrow> True | Discarding _ \<Rightarrow> True | Releasing \<Rightarrow> True | _ \<Rightarrow> False)"

definition links_ok :: "('v, 'w) channel \<Rightarrow> nat list \<Rightarrow> bool" where
  "links_ok c as \<longleftrightarrow> queued (waiting c) as \<and>
     (\<forall>i. if i < length (senders c) then sender_ok c as i else nodes (waiting c) i = None) \<and>
     (as \<noteq> [] \<longrightarrow> freeq c = []) \<and>
     (receiver c = Gone \<longrightarrow> as = [] \<and> (receiver_dropped c \<or> senders c = [])) \<and>
     (ending (receiver c) \<longrightarrow> receiver_dropped c)"

lemma queued_node: "queued q as \<Longrightarrow> a \<in> set as \<Longrightarrow> popped_at (nodes q) a = Some False"
  unfolding queued_def popped_at_def by (auto dest: seg_mapped)

lemma links_sender:
  "links_ok c as \<Longrightarrow> i < length (senders c) \<Longrightarrow> sender_ok c as i"
  unfolding links_ok_def by metis

lemma links_unlinked: "links_ok c as \<Longrightarrow> \<not> i < length (senders c) \<Longrightarrow> nodes (waiting c) i = None"
  unfolding links_ok_def by metis

lemma links_member: "links_ok c as \<Longrightarrow> i \<in> set as \<Longrightarrow> i < length (senders c)"
  using queued_node [of "waiting c" as i] links_unlinked [of c as i]
  by (fastforce simp: links_ok_def popped_at_def)

lemma sender_ok_cong:
  assumes "popped_at (nodes (waiting c')) i = popped_at (nodes (waiting c)) i" and
    "content_at (nodes (waiting c')) i = content_at (nodes (waiting c)) i" and
    "senders c' ! i = senders c ! i" and "i \<in> set as' \<longleftrightarrow> i \<in> set as" and
    "receiver_dropped c \<longrightarrow> receiver_dropped c'" and "sender_ok c as i"
  shows "sender_ok c' as' i"
  using assms unfolding sender_ok_def Let_def by (auto split: option.splits activity.splits)

text \<open>One sender moves on, the wait queue stays.\<close>

lemma links_set_sender:
  assumes "links_ok c as" and "i < length (senders c)" and "waiting c' = waiting c" and
    "senders c' = (senders c)[i := s']" and "receiver c' = receiver c" and
    "receiver_dropped c' = receiver_dropped c" and "freeq c = [] \<longrightarrow> freeq c' = []" and
    "sender_ok c' as i"
  shows "links_ok c' as"
proof -
  have "sender_ok c' as j" if "j < length (senders c)" for j
  proof (cases "j = i")
    case True
    with assms(8) show ?thesis by simp
  next
    case False
    then show ?thesis
      using assms(3,4,6) by (intro sender_ok_cong [OF _ _ _ _ _ links_sender [OF assms(1) that]]) simp_all
  qed
  then show ?thesis using assms by (auto simp: links_ok_def)
qed

text \<open>The wait queue and the senders stay.\<close>

lemma links_frame:
  assumes "links_ok c as" and "waiting c' = waiting c" and "senders c' = senders c" and
    "receiver_dropped c \<longrightarrow> receiver_dropped c'" and "freeq c = [] \<longrightarrow> freeq c' = []" and
    "receiver c' \<noteq> Gone" and "ending (receiver c') \<longrightarrow> receiver_dropped c'"
  shows "links_ok c' as"
proof -
  have "sender_ok c' as j" if "j < length (senders c)" for j
    using assms(2-4) by (intro sender_ok_cong [OF _ _ _ _ _ links_sender [OF assms(1) that]]) simp_all
  then show ?thesis using assms by (auto simp: links_ok_def)
qed

lemma return_free_slot_Nil:
  assumes "queued (waiting c) []"
  shows "return_free_slot slot c =
    (if length (freeq c) < capacity c then Some (c\<lparr>freeq := freeq c @ [slot]\<rparr>) else None)"
  by (simp add: return_free_slot_def wait_pop_Nil [OF assms])

lemma return_free_slot_Cons:
  assumes "links_ok c (p # as)"
  obtains w q where "return_free_slot slot c =
      Some (set_sender p (\<lambda>s. s\<lparr>free_slot_ptr := Some slot\<rparr>) (c\<lparr>waiting := q, woken := woken c @ [w]\<rparr>))" and
    "queued q as" and "kept (set (p # as)) {p} (nodes (waiting c)) (nodes q)"
proof -
  have q: "queued (waiting c) (p # as)" using assms by (simp add: links_ok_def)
  have p: "p < length (senders c)" by (rule links_member [OF assms]) simp
  obtain q l where l: "nodes (waiting c) p = Some l" "wait_pop (waiting c) = Some (Some (content l), q)"
    "queued q as" "kept (set (p # as)) {p} (nodes (waiting c)) (nodes q)"
    by (rule wait_pop_Cons [OF q])
  moreover obtain w where "content l = (w, p)"
    using links_sender [OF assms p] queued_node [OF q, of p] l(1)
    by (auto simp: sender_ok_def Let_def content_at_def)
  ultimately show thesis by (intro that [of w q]) (simp_all add: return_free_slot_def)
qed

lemma links_return:
  assumes "links_ok c as" and "return_free_slot slot c = Some c'"
  shows "links_ok c' (tl as)"
proof (cases as)
  case Nil
  then have "queued (waiting c) []" using assms(1) by (simp add: links_ok_def)
  then have c': "c' = c\<lparr>freeq := freeq c @ [slot]\<rparr>"
    using assms(2) by (auto simp: return_free_slot_Nil split: if_splits)
  have "sender_ok c' [] j" if "j < length (senders c)" for j
    using Nil by (intro sender_ok_cong [OF _ _ _ _ _ links_sender [OF assms(1) that]]) (simp_all add: c')
  then show ?thesis using assms(1) Nil by (simp add: links_ok_def c')
next
  case (Cons p bs)
  then have ok: "links_ok c (p # bs)" using assms(1) by simp
  have p: "p < length (senders c)" by (rule links_member [OF ok]) simp
  have d: "p \<notin> set bs" using ok queued_distinct by (fastforce simp: links_ok_def)
  obtain w q where q: "return_free_slot slot c =
      Some (set_sender p (\<lambda>s. s\<lparr>free_slot_ptr := Some slot\<rparr>) (c\<lparr>waiting := q, woken := woken c @ [w]\<rparr>))"
    "queued q bs" "kept (set (p # bs)) {p} (nodes (waiting c)) (nodes q)"
    by (rule return_free_slot_Cons [OF ok])
  have c': "c' = set_sender p (\<lambda>s. s\<lparr>free_slot_ptr := Some slot\<rparr>) (c\<lparr>waiting := q, woken := woken c @ [w]\<rparr>)"
    using assms(2) q(1) by simp
  have "sender_ok c' bs j" if "j < length (senders c)" for j
  proof (cases "j = p")
    case True
    have "popped_at (nodes (waiting c)) p = Some False"
      using ok queued_node [of "waiting c" "p # bs" p] by (simp add: links_ok_def)
    then show ?thesis
      using True links_sender [OF ok p] q(3) d p
      by (auto simp: sender_ok_def Let_def c' set_sender_def kept_def split: activity.splits)
  next
    case False
    then show ?thesis
      using q(3) by (intro sender_ok_cong [OF _ _ _ _ _ links_sender [OF ok that]])
        (simp_all add: c' set_sender_def kept_def)
  qed
  moreover have "nodes q j = None" if "\<not> j < length (senders c)" for j
  proof -
    have "j \<notin> set (p # bs)" using links_member [OF ok] that by blast
    then show ?thesis using q(3) links_unlinked [OF ok that] by (simp add: kept_def)
  qed
  ultimately show ?thesis
    using ok q(2) Cons by (auto simp: links_ok_def c' set_sender_def)
qed

definition quiet :: "'v activity \<Rightarrow> bool" where
  "quiet a \<longleftrightarrow> (case a of Polling _ \<Rightarrow> False | Exiting _ _ \<Rightarrow> False | Freeing _ _ \<Rightarrow> False | _ \<Rightarrow> True)"

lemma quiet_unlinked:
  assumes "sender_ok c as i" and "quiet (activity (senders c ! i))"
  shows "popped_at (nodes (waiting c)) i = None \<and> i \<notin> set as \<and> free_slot_ptr (senders c ! i) = None"
  using assms by (auto simp: sender_ok_def Let_def quiet_def split: option.splits activity.splits)

text \<open>A sender outside \<open>send\<close> moves on.\<close>

lemma links_quiet:
  assumes "links_ok c as" and "i < length (senders c)" and "quiet (activity (senders c ! i))" and
    "waiting c' = waiting c" and "senders c' = (senders c)[i := senders c' ! i]" and
    "free_slot_ptr (senders c' ! i) = free_slot_ptr (senders c ! i)" and "receiver c' = receiver c" and
    "receiver_dropped c' = receiver_dropped c" and "freeq c = [] \<longrightarrow> freeq c' = []"
  shows "links_ok c' as"
  using quiet_unlinked [OF links_sender [OF assms(1,2)] assms(3)] assms(4,6)
  by (intro links_set_sender [OF assms(1,2,4,5,7,8,9)]) (simp add: sender_ok_def Let_def)

lemma set_sender_reads [simp]:
  "waiting (set_sender i f c) = waiting c" "receiver (set_sender i f c) = receiver c"
  "receiver_dropped (set_sender i f c) = receiver_dropped c" "freeq (set_sender i f c) = freeq c"
  "readyq (set_sender i f c) = readyq c" "slots (set_sender i f c) = slots c"
  "capacity (set_sender i f c) = capacity c" "num_senders (set_sender i f c) = num_senders c"
  "receiver_waker (set_sender i f c) = receiver_waker c" "notified (set_sender i f c) = notified c"
  "sent (set_sender i f c) = sent c" "received (set_sender i f c) = received c"
  "senders (set_sender i f c) = (senders c)[i := f (senders c ! i)]"
  by (simp_all add: set_sender_def)

lemma wake_receiver_reads [simp]:
  "waiting (wake_receiver c) = waiting c" "receiver (wake_receiver c) = receiver c"
  "receiver_dropped (wake_receiver c) = receiver_dropped c" "freeq (wake_receiver c) = freeq c"
  "readyq (wake_receiver c) = readyq c" "slots (wake_receiver c) = slots c"
  "capacity (wake_receiver c) = capacity c" "num_senders (wake_receiver c) = num_senders c"
  "sent (wake_receiver c) = sent c" "received (wake_receiver c) = received c"
  "senders (wake_receiver c) = senders c"
  by (simp_all add: wake_receiver_def split: option.splits)

lemmas sender_moves = go_def finish_def

lemma links_try_send:
  assumes "links_ok c as" and "i < length (senders c)" and "activity (senders c ! i) = Resting"
  shows "links_ok (try_send i v c) as"
  using assms(2,3) by (intro links_quiet [OF assms(1,2)]) (simp_all add: quiet_def try_send_def sender_moves)

lemma links_send:
  assumes "links_ok c as" and "i < length (senders c)" and "activity (senders c ! i) = Resting"
  shows "links_ok (go i (Polling v) c) as"
  using assms(2,3) by (intro links_quiet [OF assms(1,2)]) (simp_all add: quiet_def sender_moves)

lemma links_drop_sender:
  assumes "links_ok c as" and "i < length (senders c)" and "activity (senders c ! i) = Resting"
  shows "links_ok (drop_sender i c) as"
  using assms(2,3) by (intro links_quiet [OF assms(1,2)]) (simp_all add: quiet_def drop_sender_def sender_moves)

lemma links_cancel:
  assumes "links_ok c as" and "i < length (senders c)" and "activity (senders c ! i) = Polling v"
  shows "links_ok (go i (Exiting v Cancelled) c) as"
  using links_sender [OF assms(1,2)] assms
  by (intro links_set_sender [OF assms(1,2)])
    (auto simp: sender_moves sender_ok_def Let_def claimed_def split: option.splits)

lemma links_clone:
  assumes "links_ok c as" and "i < length (senders c)"
  shows "links_ok (clone_sender c) as"
proof -
  let ?c = "clone_sender c"
  have "sender_ok ?c as j" if "j < Suc (length (senders c))" for j
  proof (cases "j = length (senders c)")
    case True
    have "length (senders c) \<notin> set as" using links_member [OF assms(1)] by blast
    with True links_unlinked [OF assms(1), of j] show ?thesis
      by (simp add: sender_ok_def Let_def clone_sender_def popped_at_def new_sender_def)
  next
    case False
    then have j: "j < length (senders c)" using that by simp
    then show ?thesis
      by (intro sender_ok_cong [OF _ _ _ _ _ links_sender [OF assms(1) j]])
        (simp_all add: clone_sender_def nth_append)
  qed
  then show ?thesis using assms by (auto simp: links_ok_def clone_sender_def)
qed

lemma links_split:
  assumes ok: "links_ok c as" and "receiver c = Gone" and "list_all (\<lambda>s. activity s = Dead) (senders c)" and
    "split c = Some c'"
  shows "links_ok c' as"
proof -
  have c': "c' = c\<lparr>freeq := [0..<capacity c], num_senders := 1, senders := [new_sender], receiver := Idle\<rparr>"
    using assms(4) by (simp add: split_def split: if_splits)
  have as: "as = []" using ok assms(2) by (simp add: links_ok_def)
  have n: "nodes (waiting c) j = None" for j
  proof (cases "j < length (senders c)")
    case True
    then have "quiet (activity (senders c ! j))"
      using assms(3) by (simp add: quiet_def list_all_length)
    then show ?thesis
      using quiet_unlinked [OF links_sender [OF ok True]] by (simp add: popped_at_def)
  next
    case False
    then show ?thesis by (rule links_unlinked [OF ok])
  qed
  then have "sender_ok c' [] 0" by (simp add: c' sender_ok_def Let_def popped_at_def new_sender_def)
  then show ?thesis using ok as n by (simp add: links_ok_def c' ending_def)
qed

text \<open>A sender whose link is not in the queue forgets it.\<close>

lemma links_unlink:
  assumes "links_ok c as" and "i < length (senders c)" and "i \<notin> set as" and
    "waiting c' = (waiting c)\<lparr>nodes := (nodes (waiting c))(i := None)\<rparr>" and
    "senders c' = (senders c)[i := senders c' ! i]" and "free_slot_ptr (senders c' ! i) = None" and
    "receiver c' = receiver c" and "receiver_dropped c' = receiver_dropped c" and "freeq c' = freeq c"
  shows "links_ok c' as"
proof -
  have s: "senders c' ! j = senders c ! j" if "j \<noteq> i" for j
    by (subst assms(5)) (simp add: that [symmetric])
  have "sender_ok c' as j" if "j < length (senders c)" for j
  proof (cases "j = i")
    case True
    with assms(3,4,6) show ?thesis by (simp add: sender_ok_def Let_def popped_at_def)
  next
    case False
    then show ?thesis
      using assms(4,8) s [OF False]
      by (intro sender_ok_cong [OF _ _ _ _ _ links_sender [OF assms(1) that]])
        (simp_all add: popped_at_def content_at_def)
  qed
  moreover have "length (senders c') = length (senders c)" by (subst assms(5)) simp
  moreover have "queued (waiting c') as" using assms(1,3,4) by (simp add: links_ok_def queued_def)
  moreover have "nodes (waiting c') j = None" if "\<not> j < length (senders c)" for j
    using links_unlinked [OF assms(1) that] assms(4) by simp
  ultimately show ?thesis using assms(1,2,7-9) by (auto simp: links_ok_def)
qed

lemma links_push:
  assumes ok: "links_ok c as" and i: "i < length (senders c)" and "nodes (waiting c) i = None" and
    "activity (senders c ! i) = Polling v" and "as \<noteq> [] \<or> freeq c = []" and "\<not> receiver_dropped c"
  obtains q where "wait_push i ((waiting c)\<lparr>nodes := (nodes (waiting c))(i \<mapsto> new_wait_link (w, i))\<rparr>) = Some q" and
    "links_ok (c\<lparr>waiting := q\<rparr>) (as @ [i])"
proof -
  let ?q = "(waiting c)\<lparr>nodes := (nodes (waiting c))(i \<mapsto> new_wait_link (w, i))\<rparr>"
  have s: "i \<notin> set as" "free_slot_ptr (senders c ! i) = None"
    using links_sender [OF ok i] assms(3) by (simp_all add: sender_ok_def Let_def popped_at_def)
  have "queued ?q as" using ok s(1) by (simp add: links_ok_def queued_def)
  from wait_push_queued [OF this, of i "new_wait_link (w, i)"] obtain q where
    q: "wait_push i ?q = Some q" "queued q (as @ [i])" "kept (insert i (set as)) {} (nodes ?q) (nodes q)"
    using s(1) by (auto simp: new_wait_link_def)
  let ?c = "c\<lparr>waiting := q\<rparr>"
  have "sender_ok ?c (as @ [i]) j" if "j < length (senders c)" for j
  proof (cases "j = i")
    case True
    then show ?thesis
      using q(3) s assms(4)
      by (simp add: sender_ok_def Let_def kept_def popped_at_def content_at_def new_wait_link_def)
  next
    case False
    then show ?thesis
      using q(3) by (intro sender_ok_cong [OF _ _ _ _ _ links_sender [OF ok that]])
        (simp_all add: kept_def popped_at_def content_at_def)
  qed
  moreover have "nodes q j = None" if "\<not> j < length (senders c)" for j
  proof -
    have "j \<notin> set as" "j \<noteq> i" using links_member [OF ok] that i by blast+
    then show ?thesis using q(3) links_unlinked [OF ok that] by (simp add: kept_def)
  qed
  moreover have "freeq c = []" "receiver c \<noteq> Gone"
    using ok assms(5,6) i by (auto simp: links_ok_def)
  ultimately have "links_ok ?c (as @ [i])" using ok q(2) by (simp add: links_ok_def)
  with q(1) show thesis by (rule that)
qed

lemma links_send_poll:
  assumes ok: "links_ok c as" and i: "i < length (senders c)" and p: "activity (senders c ! i) = Polling v"
  obtains c' as' where "send_poll i w v c = Some c'" and "links_ok c' as'"
proof (cases "receiver_dropped c")
  case True
  then have "links_ok (go i (Exiting v Refused) c) as"
    using links_sender [OF ok i] i p
    by (intro links_set_sender [OF ok i])
      (auto simp: sender_moves sender_ok_def Let_def claimed_def split: option.splits)
  with True show thesis by (intro that) (simp_all add: send_poll_def)
next
  case open_: False
  show thesis
  proof (cases "nodes (waiting c) i")
    case None
    have s: "i \<notin> set as" "free_slot_ptr (senders c ! i) = None"
      using links_sender [OF ok i] None by (simp_all add: sender_ok_def Let_def popped_at_def)
    show thesis
    proof (cases "\<not> wait_is_empty (waiting c) \<or> freeq c = []")
      case True
      then have "as \<noteq> [] \<or> freeq c = []" using ok wait_is_empty_iff by (auto simp: links_ok_def)
      then obtain q where "wait_push i ((waiting c)\<lparr>nodes := (nodes (waiting c))(i \<mapsto> new_wait_link (w, i))\<rparr>) = Some q"
        "links_ok (c\<lparr>waiting := q\<rparr>) (as @ [i])"
        by (rule links_push [OF ok i None p _ open_])
      with open_ None True show thesis by (intro that) (simp_all add: send_poll_def)
    next
      case False
      let ?c = "go i (Exiting v (Claimed (last (freeq c)))) (c\<lparr>freeq := butlast (freeq c)\<rparr>)"
      have "links_ok ?c as"
        using s None i
        by (intro links_set_sender [OF ok i]) (simp_all add: sender_moves sender_ok_def Let_def popped_at_def)
      with open_ None False show thesis by (intro that) (simp_all add: send_poll_def)
    qed
  next
    case (Some l)
    show thesis
    proof (cases "is_popped l")
      case True
      then have "i \<notin> set as"
        using links_sender [OF ok i] Some by (simp add: sender_ok_def Let_def popped_at_def)
      then have "links_ok (the (send_poll i w v c)) as"
        using open_ Some True i
        by (cases "free_slot_ptr (senders c ! i)"; intro links_unlink [OF ok i])
          (simp_all add: send_poll_def set_links_def sender_moves Let_def)
      moreover have "send_poll i w v c \<noteq> None" using open_ Some True by (simp add: send_poll_def Let_def)
      ultimately show thesis by (intro that) auto
    next
      case False
      with open_ Some show thesis by (intro that [OF _ ok]) (simp add: send_poll_def)
    qed
  qed
qed

lemma links_send_exit:
  assumes ok: "links_ok c as" and i: "i < length (senders c)" and p: "activity (senders c ! i) = Exiting v r"
  obtains c' as' where "send_exit i v r c = Some c'" and "links_ok c' as'" and "i \<notin> set as'"
proof (cases "nodes (waiting c) i")
  case None
  then have s: "i \<notin> set as" "free_slot_ptr (senders c ! i) = None"
    using links_sender [OF ok i] by (simp_all add: sender_ok_def Let_def popped_at_def)
  then have "links_ok (go i (Freeing v r) c) as"
    using None i by (intro links_set_sender [OF ok i]) (simp_all add: sender_moves sender_ok_def Let_def popped_at_def)
  with None s(1) show thesis by (intro that) (simp_all add: send_exit_def)
next
  case (Some l)
  have s: "sender_ok c as i" by (rule links_sender [OF ok i])
  have q: "queued (waiting c) as" using ok by (simp add: links_ok_def)
  show thesis
  proof (cases "is_popped l")
    case True
    then have "i \<notin> set as" using s Some by (simp add: sender_ok_def Let_def popped_at_def)
    moreover have "links_ok (go i (Freeing v r) c) as"
      using s Some True i p by (intro links_set_sender [OF ok i]) (simp_all add: sender_moves sender_ok_def Let_def popped_at_def)
    ultimately show thesis
      using Some True by (intro that [of _ as]) (simp_all add: send_exit_def remove_popped)
  next
    case False
    then have m: "i \<in> set as" using s Some by (simp add: sender_ok_def Let_def popped_at_def)
    obtain q' where q': "remove_from_list i (waiting c) = Some q'" "queued q' (remove1 i as)"
      "kept (set as) {i} (nodes (waiting c)) (nodes q')" by (rule remove_queued [OF q m])
    let ?c = "go i (Freeing v r) (c\<lparr>waiting := q'\<rparr>)" and ?as = "remove1 i as"
    have d: "i \<notin> set ?as" using queued_distinct [OF q] by simp
    have "sender_ok ?c ?as j" if "j < length (senders c)" for j
    proof (cases "j = i")
      case True
      then show ?thesis
        using s q'(3) d i p Some False
        by (simp add: sender_ok_def Let_def kept_def sender_moves popped_at_def)
    next
      case False
      then show ?thesis
        using q'(3) by (intro sender_ok_cong [OF _ _ _ _ _ links_sender [OF ok that]]) (simp_all add: kept_def sender_moves)
    qed
    moreover have "nodes q' j = None" if "\<not> j < length (senders c)" for j
    proof -
      have "j \<notin> set as" using links_member [OF ok] that by blast
      then show ?thesis using q'(3) links_unlinked [OF ok that] by (simp add: kept_def)
    qed
    ultimately have "links_ok ?c ?as"
      using ok q'(2) m by (auto simp: links_ok_def sender_moves)
    with d Some show thesis by (intro that [of _ ?as]) (simp_all add: send_exit_def q'(1))
  qed
qed

lemma map_update_same: "f y = f (xs ! i) \<Longrightarrow> map f (xs[i := y]) = map f xs"
  by (cases "i < length xs") (simp_all add: map_update list_update_same_conv list_update_beyond)

lemma return_free_slot_effect:
  assumes ok: "links_ok c as" and r: "return_free_slot slot c = Some c'"
  shows "readyq c' = readyq c" and "slots c' = slots c" and "capacity c' = capacity c" and
    "receiver_dropped c' = receiver_dropped c" and "receiver c' = receiver c" and "num_senders c' = num_senders c" and
    "receiver_waker c' = receiver_waker c" and "notified c' = notified c" and "sent c' = sent c" and
    "received c' = received c" and "length (senders c') = length (senders c)" and
    "map activity (senders c') = map activity (senders c)" and
    "i \<notin> set as \<Longrightarrow> senders c' ! i = senders c ! i"
proof -
  have *: "readyq c' = readyq c \<and> slots c' = slots c \<and> capacity c' = capacity c \<and>
    receiver_dropped c' = receiver_dropped c \<and> receiver c' = receiver c \<and> num_senders c' = num_senders c \<and>
    receiver_waker c' = receiver_waker c \<and> notified c' = notified c \<and> sent c' = sent c \<and>
    received c' = received c \<and> length (senders c') = length (senders c) \<and>
    map activity (senders c') = map activity (senders c) \<and>
    (i \<notin> set as \<longrightarrow> senders c' ! i = senders c ! i)"
  proof (cases as)
    case Nil
    then have "queued (waiting c) []" using ok by (simp add: links_ok_def)
    then show ?thesis using r by (auto simp: return_free_slot_Nil split: if_splits)
  next
    case (Cons p bs)
    then have "links_ok c (p # bs)" using ok by simp
    then obtain w q where "return_free_slot slot c = Some (set_sender p (\<lambda>s. s\<lparr>free_slot_ptr := Some slot\<rparr>)
        (c\<lparr>waiting := q, woken := woken c @ [w]\<rparr>))"
      by (rule return_free_slot_Cons)
    then have "c' = set_sender p (\<lambda>s. s\<lparr>free_slot_ptr := Some slot\<rparr>) (c\<lparr>waiting := q, woken := woken c @ [w]\<rparr>)"
      using r by simp
    then show ?thesis using Cons by (simp add: map_update_same)
  qed
  then show "readyq c' = readyq c" "slots c' = slots c" "capacity c' = capacity c"
    "receiver_dropped c' = receiver_dropped c" "receiver c' = receiver c" "num_senders c' = num_senders c"
    "receiver_waker c' = receiver_waker c" "notified c' = notified c" "sent c' = sent c"
    "received c' = received c" "length (senders c') = length (senders c)"
    "map activity (senders c') = map activity (senders c)" "i \<notin> set as \<Longrightarrow> senders c' ! i = senders c ! i"
    by blast+
qed

lemma return_free_slot_defined:
  assumes "links_ok c as" and "length (freeq c) < capacity c"
  obtains c' where "return_free_slot slot c = Some c'"
proof (cases as)
  case Nil
  then have "queued (waiting c) []" using assms(1) by (simp add: links_ok_def)
  with assms(2) show thesis by (intro that) (simp add: return_free_slot_Nil)
next
  case (Cons p bs)
  then have "links_ok c (p # bs)" using assms(1) by simp
  then show thesis by (rule return_free_slot_Cons) (rule that)
qed

lemma links_left_send:
  assumes "links_ok c as" and "i < length (senders c)" and "i \<notin> set as" and
    "free_slot_ptr (senders c ! i) = None"
  shows "links_ok (left_send i v r c) as"
  using assms(2-4)
  by (cases r; intro links_unlink [OF assms(1,2)]) (simp_all add: left_send_def set_links_def sender_moves)

lemma freeing_unlinked:
  assumes "links_ok c as" and "i < length (senders c)" and "activity (senders c ! i) = Freeing v r"
  shows "i \<notin> set as"
  using links_sender [OF assms(1,2)] assms(3) by (auto simp: sender_ok_def Let_def split: option.splits)

lemma links_freed:
  assumes "links_ok c as" and "i < length (senders c)" and "activity (senders c ! i) = Freeing v r"
  shows "links_ok (set_sender i (\<lambda>s. s\<lparr>free_slot_ptr := None\<rparr>) c) as"
  using links_sender [OF assms(1,2)] assms(2,3)
  by (intro links_set_sender [OF assms(1,2)]) (auto simp: sender_ok_def Let_def split: option.splits)

lemma links_send_free:
  assumes ok: "links_ok c as" and i: "i < length (senders c)" and f: "activity (senders c ! i) = Freeing v r" and
    room: "free_slot_ptr (senders c ! i) \<noteq> None \<Longrightarrow> length (freeq c) < capacity c"
  obtains c' as' where "send_free i v r c = Some c'" and "links_ok c' as'"
proof (cases "free_slot_ptr (senders c ! i)")
  case None
  with links_left_send [OF ok i freeing_unlinked [OF ok i f]] show thesis
    by (intro that) (simp_all add: send_free_def)
next
  case (Some slot)
  let ?c = "set_sender i (\<lambda>s. s\<lparr>free_slot_ptr := None\<rparr>) c"
  have ok': "links_ok ?c as" by (rule links_freed [OF ok i f])
  obtain c' where c': "return_free_slot slot ?c = Some c'"
    using room Some by (auto intro: return_free_slot_defined [OF ok', of slot])
  have n: "i \<notin> set as" by (rule freeing_unlinked [OF ok i f])
  have t: "i \<notin> set (tl as)" using n by (cases as) auto
  have e: "senders c' ! i = senders ?c ! i" "length (senders c') = length (senders c)"
    using return_free_slot_effect(11,13) [OF ok' c'] n by simp_all
  have "links_ok (left_send i v r c') (tl as)"
    using i e t by (intro links_left_send [OF links_return [OF ok' c']]) simp_all
  with Some c' show thesis by (intro that) (simp_all add: send_free_def)
qed

lemma links_run_sender:
  assumes ok: "links_ok c as" and i: "i < length (senders c)" and "run_sender i w c = Some c'" and
    room: "free_slot_ptr (senders c ! i) \<noteq> None \<Longrightarrow> length (freeq c) < capacity c"
  shows "\<exists>as'. links_ok c' as'"
proof (cases "quiet (activity (senders c ! i))")
  case True
  then have "links_ok c' as"
    using assms(3) i
    by (intro links_quiet [OF ok i True]; cases "activity (senders c ! i)")
      (auto simp: run_sender_def try_closed_def try_claim_def write_slot_def push_ready_def sender_moves quiet_def
        split: list.splits if_splits)
  then show ?thesis by blast
next
  case False
  show ?thesis
  proof (cases "activity (senders c ! i)")
    case (Polling v)
    with assms(3) have "send_poll i w v c = Some c'" by (simp add: run_sender_def)
    then show ?thesis using links_send_poll [OF ok i Polling, of w] by (metis option.inject)
  next
    case (Exiting v r)
    with assms(3) have "send_exit i v r c = Some c'" by (simp add: run_sender_def)
    then show ?thesis using links_send_exit [OF ok i Exiting] by (metis option.inject)
  next
    case (Freeing v r)
    with assms(3) have "send_free i v r c = Some c'" by (simp add: run_sender_def)
    then show ?thesis using links_send_free [OF ok i Freeing room] by (metis option.inject)
  qed (use False in \<open>simp_all add: quiet_def\<close>)
qed

lemma links_release_waiting:
  assumes ok: "links_ok c as" and r: "receiver c = Releasing"
  obtains c' as' where "release_waiting c = Some c'" and "links_ok c' as'"
proof (cases as)
  case Nil
  then have q: "queued (waiting c) []" using ok by (simp add: links_ok_def)
  let ?c = "c\<lparr>receiver := Gone\<rparr>"
  have "sender_ok ?c as j" if "j < length (senders c)" for j
    by (intro sender_ok_cong [OF _ _ _ _ _ links_sender [OF ok that]]) simp_all
  then have "links_ok ?c as" using ok Nil r by (simp add: links_ok_def ending_def)
  with q show thesis by (intro that) (simp_all add: release_waiting_def wait_pop_Nil)
next
  case (Cons p bs)
  then have ok': "links_ok c (p # bs)" using ok by simp
  have p: "p < length (senders c)" by (rule links_member [OF ok']) simp
  have qd: "queued (waiting c) (p # bs)" using ok' by (simp add: links_ok_def)
  have d: "p \<notin> set bs" using queued_distinct [OF qd] by simp
  have e: "receiver_dropped c" using ok r by (simp add: links_ok_def ending_def)
  obtain q l where q: "nodes (waiting c) p = Some l" "wait_pop (waiting c) = Some (Some (content l), q)"
    "queued q bs" "kept (set (p # bs)) {p} (nodes (waiting c)) (nodes q)"
    by (rule wait_pop_Cons [OF qd])
  let ?c = "c\<lparr>waiting := q, woken := woken c @ [fst (content l)]\<rparr>"
  have "sender_ok ?c bs j" if "j < length (senders c)" for j
  proof (cases "j = p")
    case True
    then show ?thesis
      using links_sender [OF ok' p] q(4) d p e queued_node [OF qd, of p]
      by (auto simp: sender_ok_def Let_def kept_def split: activity.splits)
  next
    case False
    then show ?thesis
      using q(4) by (intro sender_ok_cong [OF _ _ _ _ _ links_sender [OF ok' that]]) (simp_all add: kept_def)
  qed
  moreover have "nodes q j = None" if "\<not> j < length (senders c)" for j
  proof -
    have "j \<notin> set (p # bs)" using links_member [OF ok'] that by blast
    then show ?thesis using q(4) links_unlinked [OF ok' that] by (simp add: kept_def)
  qed
  ultimately have "links_ok ?c bs" using ok' q(3) r e by (auto simp: links_ok_def)
  with q(2) show thesis by (intro that) (simp_all add: release_waiting_def split: prod.splits)
qed

lemma links_run_receiver:
  assumes ok: "links_ok c as" and "run_receiver c = Some c'"
  shows "\<exists>as'. links_ok c' as'"
proof (cases "receiver c")
  case (Trying a)
  then have "links_ok c' as"
    using assms(2) by (intro links_frame [OF ok])
      (auto simp: run_receiver_def take_ready_def ending_def split: list.splits)
  then show ?thesis by blast
next
  case (Reading a slot)
  then have "links_ok c' as"
    using assms(2) by (intro links_frame [OF ok]) (auto simp: run_receiver_def read_slot_def ending_def bind_eq_Some_conv)
  then show ?thesis by blast
next
  case (Returning a v slot)
  then obtain c1 where c1: "return_free_slot slot c = Some c1" "c' = received_as (Received v) c1"
    using assms(2) by (auto simp: run_receiver_def bind_eq_Some_conv)
  have "links_ok c' (tl as)"
    by (rule links_frame [OF links_return [OF ok c1(1)]]) (simp_all add: c1(2) received_as_def ending_def)
  then show ?thesis by blast
next
  case (Finding a)
  then have "links_ok c' as"
    using assms(2) by (intro links_frame [OF ok])
      (auto simp: run_receiver_def find_closed_def received_as_def ending_def split: if_splits)
  then show ?thesis by blast
next
  case Draining
  then have "links_ok c' as"
    using assms ok by (intro links_frame [OF ok])
      (auto simp: run_receiver_def drain_def ending_def links_ok_def split: if_splits)
  then show ?thesis by blast
next
  case (Discarding slot)
  then have "links_ok c' as"
    using assms ok by (intro links_frame [OF ok])
      (auto simp: run_receiver_def read_slot_def ending_def bind_eq_Some_conv links_ok_def)
  then show ?thesis by blast
next
  case Releasing
  with assms(2) have "release_waiting c = Some c'" by (simp add: run_receiver_def)
  then show ?thesis using links_release_waiting [OF ok Releasing] by (metis option.inject)
qed (use assms in \<open>auto simp: run_receiver_def\<close>)

end
