(* ===== verification/Rtic_Channel_Slots.thy ===== *)
theory Rtic_Channel_Slots
  imports Rtic_Channel
begin

text \<open>
  The invariant of the channel of \<open>rtic-sync/src/channel.rs\<close> and that every step keeps it: who holds each
  slot, what the slots hold and in which order the values became ready, who is about to wake the receiver.
\<close>

section \<open>Who holds a slot\<close>

fun slot_of :: "'v activity \<Rightarrow> nat multiset" where
  "slot_of (Exiting v (Claimed slot)) = {#slot#}"
| "slot_of (Freeing v (Claimed slot)) = {#slot#}"
| "slot_of (Filling v slot) = {#slot#}"
| "slot_of (Readying v slot) = {#slot#}"
| "slot_of _ = {#}"

fun slot_held :: "'v receiving \<Rightarrow> nat multiset" where
  "slot_held (Reading a slot) = {#slot#}"
| "slot_held (Returning a v slot) = {#slot#}"
| "slot_held (Discarding slot) = {#slot#}"
| "slot_held _ = {#}"

definition holds_slots :: "'v sender \<Rightarrow> nat multiset" where
  "holds_slots s = slot_of (activity s) + (case free_slot_ptr s of None \<Rightarrow> {#} | Some slot \<Rightarrow> {#slot#})"

definition all_slots :: "('v, 'w) channel \<Rightarrow> nat multiset" where
  "all_slots c = mset (freeq c) + mset (readyq c) + sum_list (map holds_slots (senders c)) + slot_held (receiver c)"

text \<open>Every slot has one owner; once the receiver is dropped a slot may have none.\<close>

definition owned_once :: "('v, 'w) channel \<Rightarrow> bool" where
  "owned_once c \<longleftrightarrow> (\<exists>lost. all_slots c + lost = mset [0..<capacity c] \<and> (\<not> receiver_dropped c \<longrightarrow> lost = {#}))"

lemma sum_list_update:
  fixes f :: "'s \<Rightarrow> 'm::cancel_comm_monoid_add"
  assumes "i < length xs"
  shows "sum_list (map f (xs[i := y])) + f (xs ! i) = sum_list (map f xs) + f y"
  using assms by (induction xs arbitrary: i) (auto split: nat.splits simp: ac_simps)

lemma owned_sender:
  assumes "owned_once c" and "i < length (senders c)" and "senders c' = (senders c)[i := senders c' ! i]" and
    "receiver c' = receiver c" and "capacity c' = capacity c" and "receiver_dropped c' = receiver_dropped c" and
    "mset (freeq c') + mset (readyq c') + holds_slots (senders c' ! i) =
      mset (freeq c) + mset (readyq c) + holds_slots (senders c ! i)"
  shows "owned_once c'"
proof -
  let ?h = "holds_slots (senders c ! i)" and ?h' = "holds_slots (senders c' ! i)"
  have "sum_list (map holds_slots (senders c')) + ?h = sum_list (map holds_slots (senders c)) + ?h'"
    using sum_list_update [OF assms(2), of holds_slots "senders c' ! i"] assms(3) by simp
  moreover have "all_slots c' + ?h + ?h' = (mset (freeq c') + mset (readyq c') + ?h') +
      (sum_list (map holds_slots (senders c')) + ?h) + slot_held (receiver c)"
    by (simp add: all_slots_def assms(4) ac_simps)
  ultimately have "all_slots c' + ?h + ?h' = all_slots c + ?h + ?h'"
    by (simp only: assms(7)) (simp add: all_slots_def ac_simps)
  then have "all_slots c' = all_slots c" by simp
  then show ?thesis using assms(1,5,6) by (simp add: owned_once_def)
qed

lemma owned_receiver:
  assumes "owned_once c" and "senders c' = senders c" and "capacity c' = capacity c" and
    "receiver_dropped c \<longrightarrow> receiver_dropped c'" and
    "mset (freeq c') + mset (readyq c') + slot_held (receiver c') =
      mset (freeq c) + mset (readyq c) + slot_held (receiver c)"
  shows "owned_once c'"
proof -
  have "all_slots c' = mset (freeq c') + mset (readyq c') + slot_held (receiver c') + sum_list (map holds_slots (senders c))"
    by (simp add: all_slots_def assms(2) ac_simps)
  also have "\<dots> = all_slots c" unfolding assms(5) by (simp add: all_slots_def ac_simps)
  finally have "all_slots c' = all_slots c" .
  then show ?thesis using assms(1,3,4) by (auto simp: owned_once_def)
qed

lemma all_slots_return:
  assumes ok: "links_ok c as" and r: "return_free_slot slot c = Some c'"
  shows "all_slots c' = all_slots c + {#slot#}"
proof (cases as)
  case Nil
  then have "queued (waiting c) []" using ok by (simp add: links_ok_def)
  then show ?thesis using r by (auto simp: return_free_slot_Nil all_slots_def split: if_splits)
next
  case (Cons p bs)
  then have ok': "links_ok c (p # bs)" using ok by simp
  have p: "p < length (senders c)" by (rule links_member [OF ok']) simp
  obtain w q where "return_free_slot slot c = Some (set_sender p (\<lambda>s. s\<lparr>free_slot_ptr := Some slot\<rparr>)
      (c\<lparr>waiting := q, woken := woken c @ [w]\<rparr>))"
    by (rule return_free_slot_Cons [OF ok'])
  then have c': "c' = set_sender p (\<lambda>s. s\<lparr>free_slot_ptr := Some slot\<rparr>) (c\<lparr>waiting := q, woken := woken c @ [w]\<rparr>)"
    using r by simp
  let ?s = "(senders c ! p)\<lparr>free_slot_ptr := Some slot\<rparr>"
  have "queued (waiting c) (p # bs)" using ok' by (simp add: links_ok_def)
  then have "free_slot_ptr (senders c ! p) = None"
    using links_sender [OF ok' p] queued_node [of "waiting c" "p # bs" p] by (simp add: sender_ok_def Let_def)
  then have "holds_slots ?s = holds_slots (senders c ! p) + {#slot#}" by (simp add: holds_slots_def)
  then have "sum_list (map holds_slots ((senders c)[p := ?s])) = sum_list (map holds_slots (senders c)) + {#slot#}"
    using sum_list_update [OF p, of holds_slots ?s] by simp
  then show ?thesis by (simp add: all_slots_def c')
qed

lemma member_sum_list: "i < length ms \<Longrightarrow> ms ! i \<subseteq># sum_list ms"
proof (induction ms arbitrary: i)
  case (Cons x ms)
  then show ?case by (cases i) (auto intro: subset_mset.order_trans [OF _ mset_subset_eq_add_right])
qed simp

lemma members_sum_list:
  assumes "i < length ms" and "j < length ms" and "j \<noteq> i"
  shows "ms ! i + ms ! j \<subseteq># sum_list ms"
proof -
  have "sum_list (ms[i := {#}]) + ms ! i = sum_list ms"
    using sum_list_update [OF assms(1), of id "{#}"] by simp
  moreover have "ms ! j \<subseteq># sum_list (ms[i := {#}])"
    using member_sum_list [of j "ms[i := {#}]"] assms by simp
  ultimately show ?thesis by (metis add.commute subset_mset.add_left_mono)
qed

lemma owned_subset: "owned_once c \<Longrightarrow> all_slots c \<subseteq># mset [0..<capacity c]"
  unfolding owned_once_def by (metis mset_subset_eq_add_left)

lemma count_mset_distinct_le: "distinct xs \<Longrightarrow> count (mset xs) x \<le> 1"
  by (simp add: distinct_count_atmost_1)

lemma owned_count: "owned_once c \<Longrightarrow> count (all_slots c) slot \<le> 1"
  using mset_subset_eq_count [OF owned_subset, of c slot] count_mset_distinct_le [of "[0..<capacity c]" slot] by simp

lemma owned_size: "owned_once c \<Longrightarrow> size (all_slots c) \<le> capacity c"
  using size_mset_mono [OF owned_subset] by fastforce

text \<open>While somebody holds a slot, there is room in both queues, and nobody else holds it.\<close>

lemma room_sender:
  assumes ok: "owned_once c" and i: "i < length (senders c)" and s: "slot \<in># holds_slots (senders c ! i)"
  shows "length (freeq c) < capacity c" and "length (readyq c) < capacity c" and "slot \<notin> set (readyq c)" and
    "slot \<notin># slot_held (receiver c)" and
    "\<And>j. j < length (senders c) \<Longrightarrow> j \<noteq> i \<Longrightarrow> slot \<notin># holds_slots (senders c ! j)"
proof -
  let ?S = "sum_list (map holds_slots (senders c))"
  have sub: "holds_slots (senders c ! i) \<subseteq># ?S"
    using member_sum_list [of i "map holds_slots (senders c)"] i by simp
  have "slot \<in># ?S" by (rule mset_subset_eqD [OF sub s])
  then have one: "1 \<le> count ?S slot" by (simp only: count_greater_eq_one_iff)
  have "slot \<in># ?S" by (rule mset_subset_eqD [OF sub s])
  then have "1 \<le> size ?S" by (metis One_nat_def Suc_leI nonempty_has_size empty_iff set_mset_empty)
  moreover have "length (freeq c) + length (readyq c) + size ?S \<le> capacity c"
    using owned_size [OF ok] by (simp add: all_slots_def)
  ultimately show "length (freeq c) < capacity c" "length (readyq c) < capacity c" by linarith+
  have "count (mset (freeq c)) slot + count (mset (readyq c)) slot + count ?S slot +
      count (slot_held (receiver c)) slot \<le> 1"
    using owned_count [OF ok, of slot] by (simp add: all_slots_def)
  with one have z: "count (mset (readyq c)) slot = 0" "count (slot_held (receiver c)) slot = 0" "count ?S slot = 1"
    by linarith+
  then show "slot \<notin> set (readyq c)" "slot \<notin># slot_held (receiver c)"
    by (simp_all add: count_eq_zero_iff)
  show "slot \<notin># holds_slots (senders c ! j)" if "j < length (senders c)" "j \<noteq> i" for j
  proof
    assume j: "slot \<in># holds_slots (senders c ! j)"
    have "holds_slots (senders c ! i) + holds_slots (senders c ! j) \<subseteq># ?S"
      using members_sum_list [of i "map holds_slots (senders c)" j] i that by simp
    from mset_subset_eq_count [OF this, of slot] z(3) s j show False
      by (simp add: count_greater_zero_iff [symmetric] del: count_greater_zero_iff)
  qed
qed

lemma room_receiver:
  assumes ok: "owned_once c" and s: "slot \<in># slot_held (receiver c)"
  shows "length (freeq c) < capacity c" and "slot \<notin> set (readyq c)" and
    "\<And>j. j < length (senders c) \<Longrightarrow> slot \<notin># holds_slots (senders c ! j)"
proof -
  let ?S = "sum_list (map holds_slots (senders c))"
  have one: "1 \<le> count (slot_held (receiver c)) slot" using s by (simp add: count_greater_eq_one_iff)
  have "1 \<le> size (slot_held (receiver c))" using s by (metis One_nat_def Suc_leI nonempty_has_size empty_iff set_mset_empty)
  moreover have "length (freeq c) + length (readyq c) + size (slot_held (receiver c)) \<le> capacity c"
    using owned_size [OF ok] by (simp add: all_slots_def)
  ultimately show "length (freeq c) < capacity c" by linarith
  have "count (mset (freeq c)) slot + count (mset (readyq c)) slot + count ?S slot +
      count (slot_held (receiver c)) slot \<le> 1"
    using owned_count [OF ok, of slot] by (simp add: all_slots_def)
  with one have z: "count (mset (readyq c)) slot = 0" "count ?S slot = 0" by linarith+
  then show "slot \<notin> set (readyq c)" by (simp add: count_eq_zero_iff)
  show "slot \<notin># holds_slots (senders c ! j)" if "j < length (senders c)" for j
  proof
    assume j: "slot \<in># holds_slots (senders c ! j)"
    have "holds_slots (senders c ! j) \<subseteq># ?S"
      using member_sum_list [of j "map holds_slots (senders c)"] that by simp
    from mset_subset_eq_count [OF this, of slot] z(2) j show False
      by (simp add: count_greater_zero_iff [symmetric] del: count_greater_zero_iff)
  qed
qed

lemma owned_same:
  "owned_once c \<Longrightarrow> all_slots c' = all_slots c \<Longrightarrow> capacity c' = capacity c \<Longrightarrow>
    receiver_dropped c' = receiver_dropped c \<Longrightarrow> owned_once c'"
  by (simp add: owned_once_def)

lemma owned_left_send:
  assumes "owned_once c" and "i < length (senders c)" and "slot_of (activity (senders c ! i)) = slot_of (Freeing v r)"
  shows "owned_once (left_send i v r c)"
  using assms(2,3)
  by (intro owned_sender [OF assms(1,2)]; cases r)
    (simp_all add: left_send_def set_links_def sender_moves holds_slots_def)

lemma mset_butlast_last: "xs \<noteq> [] \<Longrightarrow> mset (butlast xs) + {#last xs#} = mset xs"
  by (metis append_butlast_last_id mset.simps mset_append add_mset_add_single append_Nil2 mset_single_iff)

lemma owned_send_poll:
  assumes ok: "owned_once c" and i: "i < length (senders c)" and p: "activity (senders c ! i) = Polling v" and
    r: "send_poll i w v c = Some c'"
  shows "owned_once c'"
proof (cases "receiver_dropped c")
  case True
  then show ?thesis
    using r p i by (intro owned_sender [OF ok i]) (auto simp: send_poll_def sender_moves holds_slots_def)
next
  case open_: False
  show ?thesis
  proof (cases "nodes (waiting c) i")
    case None
    show ?thesis
    proof (cases "\<not> wait_is_empty (waiting c) \<or> freeq c = []")
      case True
      then obtain q where "c' = c\<lparr>waiting := q\<rparr>"
        using r open_ None by (auto simp: send_poll_def bind_eq_Some_conv)
      then show ?thesis by (intro owned_receiver [OF ok]) simp_all
    next
      case False
      then show ?thesis
        using r open_ None i p mset_butlast_last [of "freeq c"]
        by (intro owned_sender [OF ok i]) (auto simp: send_poll_def sender_moves holds_slots_def)
    qed
  next
    case (Some l)
    then show ?thesis
      using r open_ i p ok
      by (cases "free_slot_ptr (senders c ! i)"; cases "is_popped l")
        (auto simp: send_poll_def set_links_def sender_moves holds_slots_def Let_def intro!: owned_sender [OF ok i])
  qed
qed

lemma owned_send_free:
  assumes ok: "owned_once c" and l: "links_ok c as" and i: "i < length (senders c)" and
    f: "activity (senders c ! i) = Freeing v r" and s: "send_free i v r c = Some c'"
  shows "owned_once c'"
proof (cases "free_slot_ptr (senders c ! i)")
  case None
  then show ?thesis using s owned_left_send [OF ok i, of v r] f by (simp add: send_free_def)
next
  case (Some slot)
  let ?c = "set_sender i (\<lambda>s. s\<lparr>free_slot_ptr := None\<rparr>) c"
  let ?s = "(senders c ! i)\<lparr>free_slot_ptr := None\<rparr>"
  have l': "links_ok ?c as" by (rule links_freed [OF l i f])
  obtain c1 where c1: "return_free_slot slot ?c = Some c1" "c' = left_send i v r c1"
    using s Some by (auto simp: send_free_def bind_eq_Some_conv)
  have "holds_slots (senders c ! i) = holds_slots ?s + {#slot#}" using Some by (simp add: holds_slots_def)
  then have "all_slots ?c + {#slot#} = all_slots c"
    using sum_list_update [OF i, of holds_slots ?s] by (simp add: all_slots_def)
  then have "all_slots c1 = all_slots c" using all_slots_return [OF l' c1(1)] by simp
  then have "owned_once c1"
    using return_free_slot_effect(3,4) [OF l' c1(1)] by (intro owned_same [OF ok]) simp_all
  moreover have "i < length (senders c1)" "activity (senders c1 ! i) = Freeing v r"
    using return_free_slot_effect(11,13) [OF l' c1(1)] freeing_unlinked [OF l i f] i f by simp_all
  ultimately show ?thesis unfolding c1(2) by (intro owned_left_send) simp_all
qed

lemma owned_run_sender:
  assumes ok: "owned_once c" and l: "links_ok c as" and i: "i < length (senders c)" and
    r: "run_sender i w c = Some c'"
  shows "owned_once c'"
proof (cases "activity (senders c ! i)")
  case (Polling v)
  with r show ?thesis by (intro owned_send_poll [OF ok i Polling]) (simp add: run_sender_def)
next
  case (Freeing v k)
  with r show ?thesis by (intro owned_send_free [OF ok l i Freeing]) (simp add: run_sender_def)
next
  case (Exiting v k)
  with r i show ?thesis
    by (intro owned_sender [OF ok i]; cases k)
      (auto simp: run_sender_def send_exit_def sender_moves holds_slots_def bind_eq_Some_conv split: option.splits)
qed (use r i ok in \<open>auto simp: run_sender_def try_closed_def try_claim_def write_slot_def push_ready_def sender_moves
      holds_slots_def split: list.splits if_splits intro!: owned_sender [OF ok i]\<close>)

lemma owned_run_receiver:
  assumes ok: "owned_once c" and l: "links_ok c as" and r: "run_receiver c = Some c'"
  shows "owned_once c'"
proof (cases "receiver c")
  case (Returning a v slot)
  then obtain c1 where c1: "return_free_slot slot c = Some c1" "c' = received_as (Received v) c1"
    using r by (auto simp: run_receiver_def bind_eq_Some_conv)
  have "slot_held (receiver c1) = {#slot#}" using return_free_slot_effect(5) [OF l c1(1)] Returning by simp
  then have "all_slots c' + {#slot#} = all_slots c1" by (simp add: all_slots_def c1(2) received_as_def)
  then have "all_slots c' = all_slots c" using all_slots_return [OF l c1(1)] by simp
  then show ?thesis
    using return_free_slot_effect(3,4) [OF l c1(1)] by (intro owned_same [OF ok]) (simp_all add: c1(2) received_as_def)
next
  case (Discarding slot)
  then have d: "receiver_dropped c" using l by (simp add: links_ok_def ending_def)
  obtain v where c': "c' = c\<lparr>slots := (slots c)(slot := None), receiver := Draining\<rparr>"
    using r Discarding by (auto simp: run_receiver_def read_slot_def bind_eq_Some_conv)
  have "all_slots c = all_slots c' + {#slot#}" by (simp add: all_slots_def Discarding c')
  then show ?thesis using ok d by (auto simp: owned_once_def c' intro: exI [of _ "add_mset slot _"])
next
  case Draining
  then show ?thesis
    using r mset_butlast_last [of "readyq c"]
    by (intro owned_receiver [OF ok]) (auto simp: run_receiver_def drain_def split: if_splits)
next
  case Releasing
  then show ?thesis
    using r by (intro owned_receiver [OF ok])
      (auto simp: run_receiver_def release_waiting_def bind_eq_Some_conv split: option.splits prod.splits)
qed (use r ok in \<open>auto simp: run_receiver_def take_ready_def read_slot_def find_closed_def received_as_def
      bind_eq_Some_conv split: list.splits if_splits intro!: owned_receiver [OF ok]\<close>)

section \<open>What the senders do to the rest\<close>

definition acts :: "('v, 'w) channel \<Rightarrow> 'v activity list" where
  "acts c = map activity (senders c)"

definition busy :: "'v activity \<Rightarrow> bool" where
  \<comment> \<open>the next step touches a slot, a ready index or the receiver\<close>
  "busy a \<longleftrightarrow> (case a of Filling _ _ \<Rightarrow> True | Readying _ _ \<Rightarrow> True | Waking \<Rightarrow> True | Closing \<Rightarrow> True | _ \<Rightarrow> False)"

definition alive :: "'v activity \<Rightarrow> bool" where
  "alive a \<longleftrightarrow> (case a of Dead \<Rightarrow> False | Closing \<Rightarrow> False | _ \<Rightarrow> True)"

text \<open>All but the steps that are told apart: the rest of the channel stays, the activity changes.\<close>

definition only_moves :: "nat \<Rightarrow> ('v, 'w) channel \<Rightarrow> ('v, 'w) channel \<Rightarrow> bool" where
  "only_moves i c c' \<longleftrightarrow> slots c' = slots c \<and> readyq c' = readyq c \<and> sent c' = sent c \<and> received c' = received c \<and>
     receiver c' = receiver c \<and> receiver_dropped c' = receiver_dropped c \<and> num_senders c' = num_senders c \<and>
     receiver_waker c' = receiver_waker c \<and> notified c' = notified c \<and>
     (\<exists>a. acts c' = (acts c)[i := a] \<and> (a = acts c ! i \<or> (\<forall>v slot. a \<noteq> Readying v slot)) \<and>
       alive a = alive (acts c ! i))"

lemma acts_set_sender: "acts (set_sender i f c) = (acts c)[i := activity (f (senders c ! i))]"
  by (simp add: acts_def map_update)

lemma only_moves_go:
  assumes "i < length (senders c)" and "alive a = alive (activity (senders c ! i))" and
    "\<And>v slot. a \<noteq> Readying v slot" and "acts c' = (acts c)[i := a]" and
    "slots c' = slots c" "readyq c' = readyq c" "sent c' = sent c" "received c' = received c"
    "receiver c' = receiver c" "receiver_dropped c' = receiver_dropped c" "num_senders c' = num_senders c"
    "receiver_waker c' = receiver_waker c" "notified c' = notified c"
  shows "only_moves i c c'"
  using assms by (auto simp: only_moves_def acts_def)

lemma only_moves_stay:
  assumes "i < length (senders c)" and "acts c' = acts c" and
    "slots c' = slots c" "readyq c' = readyq c" "sent c' = sent c" "received c' = received c"
    "receiver c' = receiver c" "receiver_dropped c' = receiver_dropped c" "num_senders c' = num_senders c"
    "receiver_waker c' = receiver_waker c" "notified c' = notified c"
  shows "only_moves i c c'"
  using assms unfolding only_moves_def by (intro conjI exI [of _ "acts c ! i"]) simp_all

lemma only_moves_left_send:
  assumes "i < length (senders c)" and "activity (senders c ! i) = Freeing v r"
  shows "only_moves i c (left_send i v r c)"
  using assms
  by (intro only_moves_go [where a = "case r of Claimed slot \<Rightarrow> Filling v slot | _ \<Rightarrow> Resting"]; cases r)
    (simp_all add: left_send_def set_links_def sender_moves acts_def map_update alive_def)

lemma only_moves_trans_same:
  assumes "only_moves i c1 c'" and "acts c1 = acts c" and
    "slots c1 = slots c" "readyq c1 = readyq c" "sent c1 = sent c" "received c1 = received c"
    "receiver c1 = receiver c" "receiver_dropped c1 = receiver_dropped c" "num_senders c1 = num_senders c"
    "receiver_waker c1 = receiver_waker c" "notified c1 = notified c"
  shows "only_moves i c c'"
  using assms by (simp add: only_moves_def)

lemma run_sender_moves:
  assumes l: "links_ok c as" and i: "i < length (senders c)" and r: "run_sender i w c = Some c'" and
    b: "\<not> busy (activity (senders c ! i))"
  shows "only_moves i c c'"
proof (cases "activity (senders c ! i)")
  case Resting
  with r i show ?thesis by (intro only_moves_stay) (simp_all add: run_sender_def)
next
  case Dead
  with r i show ?thesis by (intro only_moves_stay) (simp_all add: run_sender_def)
next
  case (Checking v)
  with r i show ?thesis
    by (intro only_moves_go [where a = "if receiver_dropped c then Resting else Claiming v"])
      (auto simp: run_sender_def try_closed_def sender_moves acts_def map_update alive_def split: if_splits)
next
  case (Claiming v)
  with r i show ?thesis
    by (intro only_moves_go [where a = "case freeq c of [] \<Rightarrow> Resting | slot # q \<Rightarrow> Filling v slot"])
      (auto simp: run_sender_def try_claim_def sender_moves acts_def map_update alive_def split: list.splits)
next
  case (Exiting v k)
  with r i show ?thesis
    by (intro only_moves_go [where a = "Freeing v k"])
      (auto simp: run_sender_def send_exit_def sender_moves acts_def map_update alive_def bind_eq_Some_conv
        split: option.splits)
next
  case (Polling v)
  then have p: "send_poll i w v c = Some c'" using r by (simp add: run_sender_def)
  show ?thesis
  proof (cases "acts c' = acts c")
    case True
    then show ?thesis
      using p i Polling by (intro only_moves_stay)
        (auto simp: send_poll_def sender_moves set_links_def Let_def bind_eq_Some_conv split: if_splits option.splits)
  next
    case False
    then obtain k where "acts c' = (acts c)[i := Exiting v k]"
      using p by (auto simp: send_poll_def sender_moves set_links_def Let_def bind_eq_Some_conv acts_def map_update
          split: if_splits option.splits)
    then show ?thesis
      using p i Polling by (intro only_moves_go [where a = "Exiting v k"])
        (auto simp: send_poll_def sender_moves set_links_def Let_def bind_eq_Some_conv alive_def
          split: if_splits option.splits)
  qed
next
  case (Freeing v k)
  then have f: "send_free i v k c = Some c'" using r by (simp add: run_sender_def)
  show ?thesis
  proof (cases "free_slot_ptr (senders c ! i)")
    case None
    with f only_moves_left_send [OF i Freeing] show ?thesis by (simp add: send_free_def)
  next
    case (Some slot)
    let ?c = "set_sender i (\<lambda>s. s\<lparr>free_slot_ptr := None\<rparr>) c"
    have l': "links_ok ?c as" by (rule links_freed [OF l i Freeing])
    obtain c1 where c1: "return_free_slot slot ?c = Some c1" "c' = left_send i v k c1"
      using f Some by (auto simp: send_free_def bind_eq_Some_conv)
    note e = return_free_slot_effect [OF l' c1(1)]
    have "i < length (senders c1)" "activity (senders c1 ! i) = Freeing v k"
      using e(11,13) freeing_unlinked [OF l i Freeing] i Freeing by simp_all
    then have "only_moves i c1 c'" unfolding c1(2) by (rule only_moves_left_send)
    moreover have "acts c1 = acts c" using e(12) by (simp add: acts_def map_update_same)
    ultimately show ?thesis
      by (rule only_moves_trans_same) (simp_all only: e(1-10) set_sender_reads)
  qed
qed (use b in \<open>simp_all add: busy_def\<close>)

section \<open>Contents and order\<close>

definition filled :: "(nat \<Rightarrow> 'v option) \<Rightarrow> 'v activity \<Rightarrow> bool" where
  "filled m a \<longleftrightarrow> (case a of Readying v slot \<Rightarrow> m slot = Some v | _ \<Rightarrow> True)"

definition in_reading :: "('v, 'w) channel \<Rightarrow> nat list" where
  "in_reading c = (case receiver c of Reading a slot \<Rightarrow> [slot] | _ \<Rightarrow> [])"

definition to_read :: "('v, 'w) channel \<Rightarrow> nat list" where
  "to_read c = (case receiver c of Reading a slot \<Rightarrow> [slot] | Discarding slot \<Rightarrow> [slot] | _ \<Rightarrow> [])"

definition contents_ok :: "('v, 'w) channel \<Rightarrow> bool" where
  "contents_ok c \<longleftrightarrow> (\<forall>slot. slot \<in> set (readyq c) \<union> set (to_read c) \<longrightarrow> slots c slot \<noteq> None) \<and>
     list_all (filled (slots c)) (acts c) \<and>
     (\<not> receiver_dropped c \<longrightarrow>
       map Some (sent c) = map Some (received c) @ map (slots c) (in_reading c @ readyq c))"

definition wakeups_ok :: "('v, 'w) channel \<Rightarrow> bool" where
  "wakeups_ok c \<longleftrightarrow> num_senders c = length (List.filter alive (acts c)) \<and>
     (receiver c \<in> {Trying True, Finding True, Waiting} \<longrightarrow> receiver_waker c \<noteq> None \<or> notified c) \<and>
     (receiver c \<in> {Finding True, Waiting} \<and> readyq c \<noteq> [] \<and> \<not> notified c \<longrightarrow> Waking \<in> set (acts c)) \<and>
     (receiver c = Waiting \<and> num_senders c = 0 \<and> \<not> notified c \<longrightarrow> Closing \<in> set (acts c))"

lemma list_all_update: "list_all P xs \<Longrightarrow> P y \<Longrightarrow> list_all P (xs[i := y])"
  by (induction xs arbitrary: i) (auto split: nat.splits)

lemma set_update_other: "x \<in> set xs \<Longrightarrow> x \<noteq> xs ! i \<Longrightarrow> x \<in> set (xs[i := y])"
  by (induction xs arbitrary: i) (auto split: nat.splits)

lemma length_filter_update:
  "i < length xs \<Longrightarrow> P y = P (xs ! i) \<Longrightarrow> length (List.filter P (xs[i := y])) = length (List.filter P xs)"
  by (induction xs arbitrary: i) (auto split: nat.splits)

lemma length_filter_removed:
  "i < length xs \<Longrightarrow> P (xs ! i) \<Longrightarrow> \<not> P y \<Longrightarrow>
    Suc (length (List.filter P (xs[i := y]))) = length (List.filter P xs)"
  by (induction xs arbitrary: i) (auto split: nat.splits)

lemma length_acts [simp]: "length (acts c) = length (senders c)"
  by (simp add: acts_def)

lemma nth_acts: "i < length (senders c) \<Longrightarrow> acts c ! i = activity (senders c ! i)"
  by (simp add: acts_def)

lemma contents_moves:
  assumes "contents_ok c" and "only_moves i c c'"
  shows "contents_ok c'"
proof -
  obtain a where a: "acts c' = (acts c)[i := a]" "a = acts c ! i \<or> (\<forall>v slot. a \<noteq> Readying v slot)"
    using assms(2) by (auto simp: only_moves_def)
  have l: "list_all (filled (slots c)) (acts c)" using assms(1) by (simp add: contents_ok_def)
  have "list_all (filled (slots c)) (acts c')"
  proof (cases "a = acts c ! i")
    case True
    with a(1) l show ?thesis by simp
  next
    case False
    then have "filled (slots c) a" using a(2) by (cases a) (simp_all add: filled_def)
    with l show ?thesis unfolding a(1) by (rule list_all_update)
  qed
  with assms show ?thesis by (simp add: contents_ok_def only_moves_def in_reading_def to_read_def)
qed

lemma wakeups_moves:
  assumes "wakeups_ok c" and "only_moves i c c'" and "i < length (senders c)" and "acts c ! i \<notin> {Waking, Closing}"
  shows "wakeups_ok c'"
proof -
  obtain a where a: "acts c' = (acts c)[i := a]" "alive a = alive (acts c ! i)"
    using assms(2) by (auto simp: only_moves_def)
  have "length (List.filter alive (acts c')) = length (List.filter alive (acts c))"
    unfolding a(1) using assms(3) a(2) by (intro length_filter_update) simp_all
  moreover have "x \<in> set (acts c')" if "x \<in> set (acts c)" "x \<in> {Waking, Closing}" for x
    unfolding a(1) using that assms(4) by (intro set_update_other) auto
  ultimately show ?thesis using assms(1,2) by (simp add: wakeups_ok_def only_moves_def)
qed

lemma contents_run_sender:
  assumes ok: "contents_ok c" and o: "owned_once c" and l: "links_ok c as" and i: "i < length (senders c)" and
    r: "run_sender i w c = Some c'"
  shows "contents_ok c'"
proof (cases "activity (senders c ! i)")
  case (Filling v slot)
  then have c': "c' = go i (Readying v slot) (c\<lparr>slots := (slots c)(slot := Some v)\<rparr>)"
    using r by (simp add: run_sender_def write_slot_def)
  have s: "slot \<in># holds_slots (senders c ! i)" by (simp add: holds_slots_def Filling)
  note room = room_sender [OF o i s]
  have "list_all (filled ((slots c)(slot := Some v))) ((acts c)[i := Readying v slot])"
    unfolding list_all_length
  proof (intro allI impI)
    fix j assume j: "j < length ((acts c)[i := Readying v slot])"
    show "filled ((slots c)(slot := Some v)) ((acts c)[i := Readying v slot] ! j)"
    proof (cases "j = i")
      case True
      then show ?thesis using i by (simp add: filled_def)
    next
      case False
      have "filled (slots c) (activity (senders c ! j))"
        using ok j by (simp add: contents_ok_def list_all_length nth_acts)
      moreover have "slot \<notin># holds_slots (senders c ! j)" using room(5) j False by simp
      ultimately have "filled ((slots c)(slot := Some v)) (activity (senders c ! j))"
        by (auto simp: filled_def holds_slots_def split: activity.splits)
      then show ?thesis using False j by (simp add: nth_acts)
    qed
  qed
  moreover have "slot \<notin> set (in_reading c)"
    using room(4) by (cases "receiver c") (simp_all add: in_reading_def to_read_def)
  then have "map (\<lambda>k. if k = slot then Some v else slots c k) (in_reading c @ readyq c) =
      map (slots c) (in_reading c @ readyq c)"
    using room(3) by (intro map_cong) auto
  moreover have "in_reading c' = in_reading c" by (simp add: c' in_reading_def sender_moves)
  ultimately show ?thesis
    using ok by (auto simp: contents_ok_def c' sender_moves acts_set_sender acts_def map_update fun_upd_def to_read_def)
next
  case (Readying v slot)
  have s: "slot \<in># holds_slots (senders c ! i)" by (simp add: holds_slots_def Readying)
  have c': "c' = go i Waking (c\<lparr>readyq := readyq c @ [slot], sent := sent c @ [v]\<rparr>)"
    using r Readying room_sender(2) [OF o i s] by (simp add: run_sender_def push_ready_def)
  have "filled (slots c) (acts c ! i)" using ok i by (simp add: contents_ok_def list_all_length)
  then have v: "slots c slot = Some v" using Readying i by (simp add: filled_def nth_acts)
  have "list_all (filled (slots c)) ((acts c)[i := Waking])"
    using ok by (intro list_all_update) (simp_all add: contents_ok_def filled_def)
  then show ?thesis
    using ok v by (auto simp: contents_ok_def c' sender_moves acts_set_sender acts_def map_update in_reading_def to_read_def)
next
  case Waking
  have "list_all (filled (slots c)) ((acts c)[i := Resting])"
    using ok by (intro list_all_update) (simp_all add: contents_ok_def filled_def)
  then show ?thesis
    using ok r Waking
    by (auto simp: contents_ok_def run_sender_def sender_moves acts_set_sender acts_def map_update in_reading_def to_read_def)
next
  case Closing
  have "list_all (filled (slots c)) ((acts c)[i := Dead])"
    using ok by (intro list_all_update) (simp_all add: contents_ok_def filled_def)
  then show ?thesis
    using ok r Closing
    by (auto simp: contents_ok_def run_sender_def sender_moves acts_set_sender acts_def map_update in_reading_def to_read_def)
qed (rule contents_moves [OF ok run_sender_moves [OF l i r]], simp add: busy_def)+

lemma wake_receiver_notified:
  "receiver_waker c \<noteq> None \<or> notified c \<Longrightarrow> notified (wake_receiver c)"
  by (auto simp: wake_receiver_def split: option.splits)

lemma wakeups_woken:
  assumes ok: "wakeups_ok c" and i: "i < length (senders c)" and "alive a = alive (acts c ! i)" and
    "acts c' = (acts c)[i := a]" and "num_senders c' = num_senders c" and "receiver c' = receiver c" and
    "notified c' = notified (wake_receiver c)" and "receiver_waker c' = receiver_waker (wake_receiver c)"
  shows "wakeups_ok c'"
proof -
  have "length (List.filter alive (acts c')) = length (List.filter alive (acts c))"
    unfolding assms(4) using i assms(3) by (intro length_filter_update) simp_all
  moreover have "notified c'" if "receiver c \<in> {Trying True, Finding True, Waiting}"
    unfolding assms(7) using ok that by (intro wake_receiver_notified) (auto simp: wakeups_ok_def)
  ultimately show ?thesis using ok assms(5,6) by (auto simp: wakeups_ok_def)
qed

lemma wakeups_run_sender:
  assumes ok: "wakeups_ok c" and o: "owned_once c" and l: "links_ok c as" and i: "i < length (senders c)" and
    r: "run_sender i w c = Some c'"
  shows "wakeups_ok c'"
proof (cases "activity (senders c ! i)")
  case (Filling v slot)
  then have c': "c' = go i (Readying v slot) (c\<lparr>slots := (slots c)(slot := Some v)\<rparr>)"
    using r by (simp add: run_sender_def write_slot_def)
  have a: "acts c' = (acts c)[i := Readying v slot]" by (simp add: c' sender_moves acts_def map_update)
  have "length (List.filter alive (acts c')) = length (List.filter alive (acts c))"
    unfolding a using i Filling by (intro length_filter_update) (simp_all add: alive_def nth_acts)
  moreover have "x \<in> set (acts c')" if "x \<in> set (acts c)" "x \<in> {Waking, Closing}" for x
    unfolding a using that Filling i by (intro set_update_other) (auto simp: nth_acts)
  ultimately show ?thesis
    using ok by (auto simp: wakeups_ok_def c' sender_moves)
next
  case (Readying v slot)
  have s: "slot \<in># holds_slots (senders c ! i)" by (simp add: holds_slots_def Readying)
  have c': "c' = go i Waking (c\<lparr>readyq := readyq c @ [slot], sent := sent c @ [v]\<rparr>)"
    using r Readying room_sender(2) [OF o i s] by (simp add: run_sender_def push_ready_def)
  have a: "acts c' = (acts c)[i := Waking]" by (simp add: c' sender_moves acts_def map_update)
  have "length (List.filter alive (acts c')) = length (List.filter alive (acts c))"
    unfolding a using i Readying by (intro length_filter_update) (simp_all add: alive_def nth_acts)
  moreover have "Closing \<in> set (acts c')" if "Closing \<in> set (acts c)"
    unfolding a using that Readying i by (intro set_update_other) (auto simp: nth_acts)
  moreover have "Waking \<in> set (acts c')" unfolding a using i by (simp add: set_update_memI)
  ultimately show ?thesis using ok by (auto simp: wakeups_ok_def c' sender_moves)
next
  case Waking
  then show ?thesis
    using r i by (intro wakeups_woken [OF ok i, of Resting])
      (auto simp: run_sender_def sender_moves acts_def map_update alive_def set_sender_def)
next
  case Closing
  then show ?thesis
    using r i by (intro wakeups_woken [OF ok i, of Dead])
      (auto simp: run_sender_def sender_moves acts_def map_update alive_def set_sender_def)
qed (rule wakeups_moves [OF ok run_sender_moves [OF l i r] i], simp add: busy_def, simp add: nth_acts i)+

section \<open>What the receiver does\<close>

lemma read_slot_Some: "slots c slot = Some v \<Longrightarrow> read_slot slot c = Some (v, c\<lparr>slots := (slots c)(slot := None)\<rparr>)"
  by (simp add: read_slot_def)

lemma filled_elsewhere:
  assumes ok: "contents_ok c" and o: "owned_once c" and s: "slot \<in># slot_held (receiver c)"
  shows "list_all (filled ((slots c)(slot := None))) (acts c)"
  unfolding list_all_length
proof (intro allI impI)
  fix j assume j: "j < length (acts c)"
  have "filled (slots c) (acts c ! j)" using ok j by (simp add: contents_ok_def list_all_length)
  moreover have "slot \<notin># holds_slots (senders c ! j)" using room_receiver(3) [OF o s] j by simp
  ultimately show "filled ((slots c)(slot := None)) (acts c ! j)"
    using j by (auto simp: filled_def holds_slots_def nth_acts split: activity.splits)
qed

lemma contents_emptied:
  assumes ok: "contents_ok c" and o: "owned_once c" and s: "slot \<in># slot_held (receiver c)" and
    "slots c slot = Some v" and "slots c' = (slots c)(slot := None)" and "readyq c' = readyq c" and
    "acts c' = acts c" and "receiver_dropped c' = receiver_dropped c" and "sent c' = sent c" and
    "receiver c = Reading a slot \<and> receiver c' = Returning a v slot \<and> received c' = received c @ [v] \<or>
     receiver_dropped c \<and> receiver c' = Draining"
  shows "contents_ok c'"
proof -
  have n: "slot \<notin> set (readyq c)" by (rule room_receiver(2) [OF o s])
  then have "map (slots c') (readyq c) = map (slots c) (readyq c)" unfolding assms(5) by (intro map_cong) auto
  then show ?thesis
    using assms(4-10) ok n filled_elsewhere [OF ok o s]
    by (auto simp: contents_ok_def in_reading_def to_read_def)
qed

lemma contents_run_receiver:
  assumes ok: "contents_ok c" and o: "owned_once c" and l: "links_ok c as" and r: "run_receiver c = Some c'"
  shows "contents_ok c'"
proof (cases "receiver c")
  case (Trying a)
  then show ?thesis
    using r ok by (auto simp: run_receiver_def take_ready_def contents_ok_def in_reading_def to_read_def acts_def split: list.splits)
next
  case (Reading a slot)
  then obtain v where v: "slots c slot = Some v" using ok by (auto simp: contents_ok_def to_read_def)
  have "c' = c\<lparr>slots := (slots c)(slot := None), receiver := Returning a v slot, received := received c @ [v]\<rparr>"
    using r by (simp add: run_receiver_def Reading read_slot_Some [OF v])
  then show ?thesis
    using Reading by (intro contents_emptied [OF ok o _ v]) (simp_all add: acts_def)
next
  case (Returning a v slot)
  then obtain c1 where c1: "return_free_slot slot c = Some c1" "c' = received_as (Received v) c1"
    using r by (auto simp: run_receiver_def bind_eq_Some_conv)
  have "acts c1 = acts c" using return_free_slot_effect(12) [OF l c1(1)] by (simp add: acts_def)
  then show ?thesis
    using ok return_free_slot_effect(1,2,4,9,10) [OF l c1(1)] Returning
    by (auto simp: contents_ok_def in_reading_def to_read_def c1(2) received_as_def acts_def)
next
  case (Discarding slot)
  then obtain v where v: "slots c slot = Some v" using ok by (auto simp: contents_ok_def to_read_def)
  have "receiver_dropped c" using l Discarding by (simp add: links_ok_def ending_def)
  moreover have "c' = c\<lparr>slots := (slots c)(slot := None), receiver := Draining\<rparr>"
    using r by (simp add: run_receiver_def Discarding read_slot_Some [OF v])
  ultimately show ?thesis
    using Discarding by (intro contents_emptied [OF ok o _ v]) (simp_all add: acts_def)
next
  case Draining
  moreover have "receiver_dropped c" using l Draining by (simp add: links_ok_def ending_def)
  ultimately show ?thesis
    using r ok by (auto simp: run_receiver_def drain_def contents_ok_def acts_def to_read_def
        split: if_splits) (metis in_set_butlastD)
next
  case Releasing
  moreover have "receiver_dropped c" using l Releasing by (simp add: links_ok_def ending_def)
  ultimately show ?thesis
    using r ok by (auto simp: run_receiver_def release_waiting_def contents_ok_def acts_def to_read_def bind_eq_Some_conv
        split: option.splits prod.splits)
next
  case (Finding a)
  then show ?thesis
    using r ok by (auto simp: run_receiver_def find_closed_def received_as_def contents_ok_def in_reading_def to_read_def acts_def
        split: if_splits)
qed (use r ok in \<open>simp_all add: run_receiver_def\<close>)

lemma wakeups_run_receiver:
  assumes ok: "wakeups_ok c" and l: "links_ok c as" and r: "run_receiver c = Some c'"
  shows "wakeups_ok c'"
proof (cases "receiver c")
  case (Returning a v slot)
  then obtain c1 where c1: "return_free_slot slot c = Some c1" "c' = received_as (Received v) c1"
    using r by (auto simp: run_receiver_def bind_eq_Some_conv)
  have "acts c1 = acts c" using return_free_slot_effect(12) [OF l c1(1)] by (simp add: acts_def)
  then show ?thesis
    using ok return_free_slot_effect(6) [OF l c1(1)] by (simp add: wakeups_ok_def c1(2) received_as_def acts_def)
qed (use r ok in \<open>auto simp: run_receiver_def take_ready_def read_slot_def find_closed_def received_as_def drain_def
      release_waiting_def wakeups_ok_def acts_def bind_eq_Some_conv split: list.splits if_splits option.splits prod.splits\<close>)

section \<open>The invariant of the channel\<close>

definition channel_ok :: "('v, 'w) channel \<Rightarrow> bool" where
  "channel_ok c \<longleftrightarrow> (\<exists>as. links_ok c as) \<and> owned_once c \<and> contents_ok c \<and> wakeups_ok c"

text \<open>Only what the invariants of slots, contents and wake-ups speak of.\<close>

lemma rest_frame:
  assumes "owned_once c" and "contents_ok c" and "wakeups_ok c" and "capacity c' = capacity c" and
    "freeq c' = freeq c" "readyq c' = readyq c" "slots c' = slots c" "senders c' = senders c" and
    "slot_held (receiver c') = slot_held (receiver c)" "in_reading c' = in_reading c" "to_read c' = to_read c" and
    "receiver_dropped c \<longrightarrow> receiver_dropped c'" "sent c' = sent c" "received c' = received c" and
    "num_senders c' = num_senders c" and "wakeups_ok c \<Longrightarrow> wakeups_ok c'"
  shows "owned_once c' \<and> contents_ok c' \<and> wakeups_ok c'"
proof (intro conjI)
  show "owned_once c'" using assms by (intro owned_receiver [OF assms(1)]) simp_all
  show "contents_ok c'" using assms by (auto simp: contents_ok_def acts_def)
  show "wakeups_ok c'" using assms by simp
qed

lemma sender_starts:
  assumes "owned_once c" and "contents_ok c" and "wakeups_ok c" and i: "i < length (senders c)" and
    m: "only_moves i c c'" and "acts c ! i \<notin> {Waking, Closing}" and
    "senders c' = (senders c)[i := senders c' ! i]" and "holds_slots (senders c' ! i) = holds_slots (senders c ! i)" and
    "freeq c' = freeq c" and "capacity c' = capacity c"
  shows "owned_once c' \<and> contents_ok c' \<and> wakeups_ok c'"
proof (intro conjI)
  show "owned_once c'"
    using assms(8-10) m by (intro owned_sender [OF assms(1) i assms(7)]) (simp_all add: only_moves_def)
  show "contents_ok c'" by (rule contents_moves [OF assms(2) m])
  show "wakeups_ok c'" by (rule wakeups_moves [OF assms(3) m i assms(6)])
qed

lemma starts_ok:
  assumes ok: "owned_once c" "contents_ok c" "wakeups_ok c" and i: "i < length (senders c)" and
    "slot_of a = slot_of (activity (senders c ! i))" and "alive a = alive (activity (senders c ! i))" and
    "\<And>v slot. a \<noteq> Readying v slot" and "activity (senders c ! i) \<notin> {Waking, Closing}" and
    "c' = set_sender i f c" and "activity (f (senders c ! i)) = a" and
    "free_slot_ptr (f (senders c ! i)) = free_slot_ptr (senders c ! i)"
  shows "owned_once c' \<and> contents_ok c' \<and> wakeups_ok c'"
proof (rule sender_starts [OF ok i])
  show "only_moves i c c'"
    using assms(6,7,9,10) i by (intro only_moves_go [where a = a]) (auto simp: acts_set_sender)
qed (use assms(5,8-11) i in \<open>auto simp: nth_acts holds_slots_def\<close>)

lemma drop_sender_ok:
  assumes ok: "owned_once c" "contents_ok c" "wakeups_ok c" and i: "i < length (senders c)" and
    r: "activity (senders c ! i) = Resting"
  shows "owned_once (drop_sender i c) \<and> contents_ok (drop_sender i c) \<and> wakeups_ok (drop_sender i c)"
proof (intro conjI)
  let ?a = "if num_senders c - 1 = 0 then Closing else Dead" and ?c = "drop_sender i c"
  have a: "acts ?c = (acts c)[i := ?a]" by (simp add: drop_sender_def sender_moves acts_def map_update)
  show "owned_once ?c"
    using i r by (intro owned_sender [OF ok(1) i]) (auto simp: drop_sender_def sender_moves holds_slots_def)
  have "list_all (filled (slots c)) ((acts c)[i := ?a])"
    using ok(2) by (intro list_all_update) (simp_all add: contents_ok_def filled_def)
  then show "contents_ok ?c"
    using ok(2) unfolding contents_ok_def a
    by (simp add: drop_sender_def sender_moves in_reading_def to_read_def)
  have "Suc (length (List.filter alive (acts ?c))) = length (List.filter alive (acts c))"
    unfolding a using i r by (intro length_filter_removed) (simp_all add: alive_def nth_acts)
  moreover have "Waking \<in> set (acts ?c)" if "Waking \<in> set (acts c)"
    unfolding a using that r i by (intro set_update_other) (simp_all add: nth_acts)
  moreover have "Closing \<in> set (acts ?c)" if "num_senders c - 1 = 0"
    unfolding a using that i by (simp add: set_update_memI)
  ultimately show "wakeups_ok ?c"
    using ok(3) by (auto simp: wakeups_ok_def drop_sender_def sender_moves)
qed

lemma clone_sender_ok:
  assumes ok: "owned_once c" "contents_ok c" "wakeups_ok c"
  shows "owned_once (clone_sender c) \<and> contents_ok (clone_sender c) \<and> wakeups_ok (clone_sender c)"
  using ok by (auto simp: owned_once_def all_slots_def contents_ok_def wakeups_ok_def clone_sender_def acts_def
      new_sender_def holds_slots_def in_reading_def to_read_def filled_def alive_def)

lemma split_ok:
  assumes ok: "owned_once c" "contents_ok c" "wakeups_ok c" and "receiver c = Gone" and "split c = Some c'"
  shows "owned_once c' \<and> contents_ok c' \<and> wakeups_ok c'"
proof -
  have r: "readyq c = []" and c': "c' = c\<lparr>freeq := [0..<capacity c], num_senders := 1, senders := [new_sender],
      receiver := Idle\<rparr>"
    using assms(5) by (auto simp: split_def split: if_splits)
  have "owned_once c'" using r by (simp add: owned_once_def all_slots_def c' new_sender_def holds_slots_def)
  moreover have "contents_ok c'"
    using ok(2) r assms(4) by (auto simp: contents_ok_def c' acts_def new_sender_def filled_def in_reading_def to_read_def)
  moreover have "wakeups_ok c'" using r by (simp add: wakeups_ok_def c' acts_def new_sender_def alive_def)
  ultimately show ?thesis by blast
qed

lemma receiver_starts_ok:
  assumes ok: "owned_once c" "contents_ok c" "wakeups_ok c" and "receiver c = Idle \<or> receiver c = Waiting"
  shows "owned_once (recv_poll w c) \<and> contents_ok (recv_poll w c) \<and> wakeups_ok (recv_poll w c)"
    and "owned_once (c\<lparr>receiver := Trying False\<rparr>) \<and> contents_ok (c\<lparr>receiver := Trying False\<rparr>) \<and>
      wakeups_ok (c\<lparr>receiver := Trying False\<rparr>)"
    and "owned_once (c\<lparr>receiver := Idle\<rparr>) \<and> contents_ok (c\<lparr>receiver := Idle\<rparr>) \<and> wakeups_ok (c\<lparr>receiver := Idle\<rparr>)"
    and "owned_once (drop_receiver c) \<and> contents_ok (drop_receiver c) \<and> wakeups_ok (drop_receiver c)"
  by (rule rest_frame [OF ok]; use assms(4) in \<open>auto simp: recv_poll_def register_def drop_receiver_def
      wakeups_ok_def acts_def in_reading_def to_read_def split: option.splits\<close>)+

lemma channel_step_ok:
  assumes ok: "channel_ok c" and s: "channel_step c c'"
  shows "channel_ok c'"
proof -
  obtain as where l: "links_ok c as" and oks: "owned_once c" "contents_ok c" "wakeups_ok c"
    using ok by (auto simp: channel_ok_def)
  have "(\<exists>as'. links_ok c' as') \<and> owned_once c' \<and> contents_ok c' \<and> wakeups_ok c'"
    using s
  proof cases
    case step_split
    then show ?thesis using links_split [OF l] split_ok [OF oks] by blast
  next
    case (step_try_send i v)
    then have "owned_once c' \<and> contents_ok c' \<and> wakeups_ok c'"
      by (intro starts_ok [OF oks step_try_send(2), where a = "if wait_is_empty (waiting c) then Checking v else Resting"
            and f = "\<lambda>s. if wait_is_empty (waiting c) then s\<lparr>activity := Checking v\<rparr>
              else s\<lparr>activity := Resting, send_result := Some (Full v)\<rparr>"])
        (simp_all add: alive_def try_send_def sender_moves)
    then show ?thesis using links_try_send [OF l step_try_send(2,3)] step_try_send(1) by blast
  next
    case (step_send i v)
    then have "owned_once c' \<and> contents_ok c' \<and> wakeups_ok c'"
      by (intro starts_ok [OF oks step_send(2), where a = "Polling v" and f = "\<lambda>s. s\<lparr>activity := Polling v\<rparr>"])
        (simp_all add: alive_def sender_moves)
    then show ?thesis using links_send [OF l step_send(2,3)] step_send(1) by blast
  next
    case (step_cancel i v)
    then have "owned_once c' \<and> contents_ok c' \<and> wakeups_ok c'"
      by (intro starts_ok [OF oks step_cancel(2), where a = "Exiting v Cancelled" and
            f = "\<lambda>s. s\<lparr>activity := Exiting v Cancelled\<rparr>"])
        (simp_all add: alive_def sender_moves)
    then show ?thesis using links_cancel [OF l step_cancel(2,3)] step_cancel(1) by blast
  next
    case (step_sender i w)
    have "length (freeq c) < capacity c" if "free_slot_ptr (senders c ! i) \<noteq> None"
      using that by (intro room_sender(1) [OF oks(1) step_sender(1), of "the (free_slot_ptr (senders c ! i))"])
        (auto simp: holds_slots_def)
    then show ?thesis
      using links_run_sender [OF l step_sender] owned_run_sender [OF oks(1) l step_sender]
        contents_run_sender [OF oks(2,1) l step_sender] wakeups_run_sender [OF oks(3,1) l step_sender] by blast
  next
    case (step_clone i)
    then show ?thesis using links_clone [OF l step_clone(2)] clone_sender_ok [OF oks] by blast
  next
    case (step_drop_sender i)
    then show ?thesis using links_drop_sender [OF l step_drop_sender(2,3)] drop_sender_ok [OF oks] by blast
  next
    case (step_recv w)
    then have "links_ok c' as"
      by (intro links_frame [OF l]) (auto simp: recv_poll_def register_def ending_def split: option.splits)
    then show ?thesis using receiver_starts_ok(1) [OF oks step_recv(2)] step_recv(1) by blast
  next
    case step_try_recv
    then have "links_ok c' as" by (intro links_frame [OF l]) (simp_all add: ending_def)
    then show ?thesis using receiver_starts_ok(2) [OF oks] step_try_recv by blast
  next
    case step_give_up
    then have "links_ok c' as" by (intro links_frame [OF l]) (simp_all add: ending_def)
    then show ?thesis using receiver_starts_ok(3) [OF oks] step_give_up by blast
  next
    case step_receiver
    then show ?thesis
      using links_run_receiver [OF l] owned_run_receiver [OF oks(1) l] contents_run_receiver [OF oks(2,1) l]
        wakeups_run_receiver [OF oks(3) l] by blast
  next
    case step_drop_receiver
    then have "links_ok c' as" by (intro links_frame [OF l]) (simp_all add: drop_receiver_def)
    then show ?thesis using receiver_starts_ok(4) [OF oks] step_drop_receiver by blast
  qed
  then show ?thesis by (simp add: channel_ok_def)
qed

definition opened :: "nat \<Rightarrow> ('v, 'w) channel" where
  "opened n = (case split (new_channel n) of None \<Rightarrow> new_channel n | Some c \<Rightarrow> c)"

lemma opened_eq:
  "opened n = (new_channel n)\<lparr>freeq := [0..<n], num_senders := 1, senders := [new_sender], receiver := Idle\<rparr>"
  by (simp add: opened_def split_def new_channel_def)

lemma opened_ok: "channel_ok (opened n)"
proof -
  have "links_ok (opened n) []"
    by (simp add: links_ok_def opened_eq new_channel_def queued_def new_wait_queue_def sender_ok_def popped_at_def
        new_sender_def ending_def Let_def)
  moreover have "owned_once (opened n)"
    by (simp add: owned_once_def all_slots_def opened_eq new_channel_def new_sender_def holds_slots_def)
  moreover have "contents_ok (opened n)"
    by (simp add: contents_ok_def opened_eq new_channel_def acts_def new_sender_def filled_def in_reading_def to_read_def)
  moreover have "wakeups_ok (opened n)"
    by (simp add: wakeups_ok_def opened_eq new_channel_def acts_def new_sender_def alive_def)
  ultimately show ?thesis unfolding channel_ok_def by blast
qed

interpretation ch: transitions "opened n" channel_step channel_ok for n
  by unfold_locales (auto intro: opened_ok channel_step_ok)

definition channel_reachable :: "nat \<Rightarrow> ('v, 'w) channel \<Rightarrow> bool" where
  "channel_reachable n c \<longleftrightarrow> channel_step\<^sup>*\<^sup>* (opened n) c"

lemma reachable_channel_ok: "channel_reachable n c \<Longrightarrow> channel_ok c"
  unfolding channel_reachable_def by (rule ch.reachable_inv)

end
