(* ===== verification/Rtic_Channel_Promises.thy ===== *)
theory Rtic_Channel_Promises
  imports Rtic_Channel_Slots
begin

text \<open>
  What the channel of \<open>rtic-sync/src/channel.rs\<close> promises: nothing undefined happens; values arrive in the
  order in which they became ready; no sender waits while a slot is free; a receiver that waits is woken.
  And where it falls short once the receiver is gone.
\<close>

section \<open>What the channel promises\<close>



text \<open>
  C31: A sender waits only while no slot is free; and a waiting sender that has been taken out of the wait
  queue while the receiver is there has been handed a slot, which no other sender can take from it.
\<close>

theorem senders_wait_when_full:
  assumes "channel_reachable n c" and "queued (waiting c) as"
  shows "(if as = [] then True else freeq c = []) \<and>
    (\<forall>i v. i < length (senders c) \<and> activity (senders c ! i) = Polling v \<and>
      popped_at (nodes (waiting c)) i = Some True \<and> \<not> receiver_dropped c \<longrightarrow>
      (\<exists>slot. free_slot_ptr (senders c ! i) = Some slot \<and>
        (\<forall>j. j < length (senders c) \<and> j \<noteq> i \<longrightarrow> slot \<notin># holds_slots (senders c ! j))))"
proof -
  obtain bs where l: "links_ok c bs" and o: "owned_once c"
    using reachable_channel_ok [OF assms(1)] by (auto simp: channel_ok_def)
  have as: "as = bs" using queued_unique [OF assms(2)] l by (simp add: links_ok_def)
  have "\<exists>slot. free_slot_ptr (senders c ! i) = Some slot \<and>
      (\<forall>j. j < length (senders c) \<and> j \<noteq> i \<longrightarrow> slot \<notin># holds_slots (senders c ! j))"
    if i: "i < length (senders c)" and p: "activity (senders c ! i) = Polling v"
      "popped_at (nodes (waiting c)) i = Some True" "\<not> receiver_dropped c" for i v
  proof -
    obtain slot where slot: "free_slot_ptr (senders c ! i) = Some slot"
      using links_sender [OF l i] p by (auto simp: sender_ok_def Let_def)
    then have "slot \<in># holds_slots (senders c ! i)" by (simp add: holds_slots_def)
    from room_sender(5) [OF o i this] slot show ?thesis by blast
  qed
  then show ?thesis using l as by (simp add: links_ok_def)
qed

text \<open>
  C28: No wake-up is lost. A receiver whose \<open>recv\<close> is pending has been woken since it registered its waker;
  or its waker is registered, and then, when a value is ready, a sender is about to wake it, and when no
  sender is left, the last one is about to.
\<close>

theorem receiver_woken:
  assumes "channel_reachable n c" and "receiver c = Waiting"
  shows "if notified c then True else receiver_waker c \<noteq> None \<and>
    (if readyq c = [] then True else Waking \<in> set (acts c)) \<and>
    (if num_senders c = 0 then Closing \<in> set (acts c) else True)"
  using reachable_channel_ok [OF assms(1)] assms(2) by (auto simp: channel_ok_def wakeups_ok_def)

text \<open>
  C40: After the receiver has been dropped the channel can be split again but not used: the mark that the
  receiver is gone stays, and \<open>try_send\<close> and \<open>send\<close> of the new sender fail although there is a receiver.
\<close>

theorem split_again_closed:
  assumes "channel_reachable n c" and "receiver c = Gone" and "receiver_dropped c" and "split c = Some c'"
  shows "receiver c' = Idle \<and> num_senders c' = 1 \<and>
    map_option (\<lambda>d. send_result (senders d ! 0)) (run_sender 0 w (try_send 0 v c')) = Some (Some (NoReceiver v)) \<and>
    run_sender 0 w (go 0 (Polling v) c') = Some (go 0 (Exiting v Refused) (go 0 (Polling v) c'))"
proof -
  obtain as where l: "links_ok c as" using reachable_channel_ok [OF assms(1)] by (auto simp: channel_ok_def)
  have "queued (waiting c) as" "as = []" using l assms(2) by (auto simp: links_ok_def)
  then have e: "wait_is_empty (waiting c)" using wait_is_empty_iff by blast
  have c': "c' = c\<lparr>freeq := [0..<capacity c], num_senders := 1, senders := [new_sender], receiver := Idle\<rparr>"
    using assms(4) by (simp add: split_def split: if_splits)
  show ?thesis
    using e assms(3)
    by (simp add: c' try_send_def run_sender_def try_closed_def send_poll_def sender_moves new_sender_def)
qed

section \<open>Runs\<close>

text \<open>A channel with one slot and one sender, at some point of a run.\<close>

definition snapshot ::
  "nat list \<Rightarrow> nat list \<Rightarrow> (nat \<Rightarrow> nat option) \<Rightarrow> bool \<Rightarrow> nat \<Rightarrow> nat activity \<Rightarrow> nat send_result option \<Rightarrow>
    nat receiving \<Rightarrow> nat list \<Rightarrow> (nat, nat) channel" where
  "snapshot f r m d k a res rcv vs = \<lparr>capacity = 1, freeq = f, readyq = r, slots = m, receiver_waker = None,
     waiting = new_wait_queue Map.empty, receiver_dropped = d, num_senders = k,
     senders = [\<lparr>activity = a, free_slot_ptr = None, send_result = res\<rparr>], receiver = rcv,
     receive_result = None, woken = [], sent = vs, received = [], notified = False\<rparr>"

lemmas run_defs = snapshot_def run_sender_def try_closed_def try_claim_def write_slot_def push_ready_def
  sender_moves set_sender_def try_send_def wait_is_empty_def new_wait_queue_def wake_receiver_def drop_sender_def
  drop_receiver_def run_receiver_def drain_def release_waiting_def wait_pop_def

lemma channel_reach: "channel_reachable n c \<Longrightarrow> channel_step c c' \<Longrightarrow> channel_reachable n c'"
  unfolding channel_reachable_def by (rule rtranclp.rtrancl_into_rtrancl)

lemma sender_reach:
  "channel_reachable n c \<Longrightarrow> i < length (senders c) \<Longrightarrow> run_sender i w c = Some c' \<Longrightarrow> channel_reachable n c'"
  by (blast intro: channel_reach step_sender)

lemma receiver_reach: "channel_reachable n c \<Longrightarrow> run_receiver c = Some c' \<Longrightarrow> channel_reachable n c'"
  by (blast intro: channel_reach step_receiver)

lemma snapshot_start: "channel_reachable 1 (snapshot [0] [] Map.empty False 1 Resting None Idle [])"
proof -
  have "opened 1 = snapshot [0] [] Map.empty False 1 Resting None Idle []"
    by (simp add: opened_eq new_channel_def snapshot_def new_sender_def)
  then show ?thesis unfolding channel_reachable_def by (metis rtranclp.rtrancl_refl)
qed

lemma snapshot_claimed: "channel_reachable 1 (snapshot [] [] Map.empty False 1 (Filling 5 0) None Idle [])"
proof -
  let ?c = "\<lambda>f a. snapshot f [] Map.empty False 1 a None Idle []"
  have "channel_step (?c [0] Resting) (try_send 0 5 (?c [0] Resting))"
    by (rule step_try_send) (simp_all add: snapshot_def)
  with snapshot_start have "channel_reachable 1 (try_send 0 5 (?c [0] Resting))" by (rule channel_reach)
  moreover have "try_send 0 5 (?c [0] Resting) = ?c [0] (Checking 5)" by (simp add: run_defs)
  ultimately have "channel_reachable 1 (?c [0] (Checking 5))" by simp
  then have "channel_reachable 1 (?c [0] (Claiming 5))"
    by (rule sender_reach [where i = 0]) (simp_all add: run_defs)
  then show ?thesis by (rule sender_reach [where i = 0]) (simp_all add: run_defs)
qed

lemma snapshot_abandoned:
  assumes "channel_reachable 1 (snapshot f [] Map.empty False 1 a None Idle [])"
  shows "channel_reachable 1 (snapshot f [] Map.empty True 1 a None Gone [])"
proof -
  let ?c = "\<lambda>r. snapshot f [] Map.empty True 1 a None r []"
  have "channel_step (snapshot f [] Map.empty False 1 a None Idle []) (?c Draining)"
    using step_drop_receiver [of "snapshot f [] Map.empty False 1 a None Idle []"] by (simp add: run_defs)
  with assms have "channel_reachable 1 (?c Draining)" by (rule channel_reach)
  then have "channel_reachable 1 (?c Releasing)" by (rule receiver_reach) (simp add: run_defs)
  then show ?thesis by (rule receiver_reach) (simp add: run_defs)
qed

lemma snapshot_dead:
  assumes "channel_reachable 1 (snapshot f r m True 1 Resting res Gone vs)"
  shows "channel_reachable 1 (snapshot f r m True 0 Dead res Gone vs)"
proof -
  have "channel_step (snapshot f r m True 1 Resting res Gone vs) (snapshot f r m True 0 Closing res Gone vs)"
    using step_drop_sender [of 0 "snapshot f r m True 1 Resting res Gone vs"] by (simp add: run_defs)
  with assms have "channel_reachable 1 (snapshot f r m True 0 Closing res Gone vs)" by (rule channel_reach)
  then show ?thesis by (rule sender_reach [where i = 0]) (simp_all add: run_defs)
qed

text \<open>
  C37: A value can become ready after the receiver has been dropped: \<open>try_send\<close> reads that the channel is open
  and takes a slot in another critical section, and between the two the receiver goes and empties the
  ready queue. Then the value is never dropped, and when all senders are gone too the ready queue is not
  empty, against the assertion of \<open>split\<close>.
\<close>

theorem late_value_stays:
  "\<exists>c :: (nat, nat) channel. channel_reachable 1 c \<and> receiver c = Gone \<and>
    list_all (\<lambda>s. activity s = Dead) (senders c) \<and> map send_result (senders c) = [Some Sent] \<and>
    map (slots c) (readyq c) = [Some 5] \<and> split c = None"
proof -
  let ?m = "[0 \<mapsto> 5]"
  have "channel_reachable 1 (snapshot [] [] Map.empty True 1 (Filling 5 0) None Gone [])"
    by (rule snapshot_abandoned [OF snapshot_claimed])
  then have "channel_reachable 1 (snapshot [] [] ?m True 1 (Readying 5 0) None Gone [])"
    by (rule sender_reach [where i = 0]) (simp_all add: run_defs)
  then have "channel_reachable 1 (snapshot [] [0] ?m True 1 Waking None Gone [5])"
    by (rule sender_reach [where i = 0]) (simp_all add: run_defs)
  then have "channel_reachable 1 (snapshot [] [0] ?m True 1 Resting (Some Sent) Gone [5])"
    by (rule sender_reach [where i = 0]) (simp_all add: run_defs)
  then have "channel_reachable 1 (snapshot [] [0] ?m True 0 Dead (Some Sent) Gone [5])" by (rule snapshot_dead)
  then show ?thesis
    by (intro exI [of _ "snapshot [] [0] ?m True 0 Dead (Some Sent) Gone [5]"]) (simp add: snapshot_def split_def)
qed



lemma split_again_closed_witness:
  "\<exists>c c' :: (nat, nat) channel. channel_reachable 1 c \<and> split c = Some c' \<and> num_senders c' = 1"
proof -
  let ?c = "snapshot [0] [] Map.empty True 0 Dead None Gone []"
  have r: "channel_reachable 1 ?c" by (rule snapshot_dead [OF snapshot_abandoned [OF snapshot_start]])
  obtain c' where c': "split ?c = Some c'" by (simp add: split_def snapshot_def)
  have "num_senders c' = 1"
    using split_again_closed [OF r _ _ c', of 0 0] by (simp add: snapshot_def)
  with r c' show ?thesis by blast
qed

lemma receiver_woken_witness:
  "\<exists>c :: (nat, nat) channel. channel_reachable 1 c \<and> receiver c = Waiting \<and> \<not> notified c \<and> receiver_waker c \<noteq> None"
proof -
  let ?c = "\<lambda>r. (snapshot [0] [] Map.empty False 1 Resting None r [])\<lparr>receiver_waker := Some 3\<rparr>"
  have "channel_step (snapshot [0] [] Map.empty False 1 Resting None Idle []) (?c (Trying True))"
    using step_recv [of "snapshot [0] [] Map.empty False 1 Resting None Idle []" 3]
    by (simp add: snapshot_def recv_poll_def register_def)
  with snapshot_start have "channel_reachable 1 (?c (Trying True))" by (rule channel_reach)
  then have "channel_reachable 1 (?c (Finding True))"
    by (rule receiver_reach) (simp add: run_receiver_def take_ready_def snapshot_def)
  then have r: "channel_reachable 1 (?c Waiting)"
    by (rule receiver_reach) (simp add: run_receiver_def find_closed_def snapshot_def)
  have w: "receiver (?c Waiting) = Waiting" "\<not> notified (?c Waiting)" by (simp_all add: snapshot_def)
  with receiver_woken [OF r w(1)] have "receiver_waker (?c Waiting) \<noteq> None" by simp
  then show ?thesis using r w by (intro exI [of _ "?c Waiting"] conjI)
qed

lemma senders_wait_when_full_witness:
  "\<exists>c :: (nat, nat) channel. channel_reachable 0 c \<and> queued (waiting c) [0] \<and> freeq c = []"
proof -
  let ?o = "opened 0 :: (nat, nat) channel"
  let ?c = "go 0 (Polling 5) ?o"
  have "channel_step ?o ?c" by (rule step_send) (simp_all add: opened_eq new_sender_def)
  moreover have "channel_reachable 0 ?o" by (simp add: channel_reachable_def)
  ultimately have r: "channel_reachable 0 ?c" by (blast intro: channel_reach)
  let ?q = "\<lparr>qhead = Some 0, qtail = Some 0, nodes = [0 \<mapsto> new_wait_link (9, 0)]\<rparr>"
  have "run_sender 0 9 ?c = Some (?c\<lparr>waiting := ?q\<rparr>)"
    by (simp add: run_sender_def send_poll_def opened_eq new_channel_def sender_moves new_sender_def
        set_sender_def new_wait_queue_def wait_is_empty_def wait_push_def)
  then have r': "channel_reachable 0 (?c\<lparr>waiting := ?q\<rparr>)"
    by (rule sender_reach [OF r, rotated]) (simp add: sender_moves opened_eq)
  have q: "queued (waiting (?c\<lparr>waiting := ?q\<rparr>)) [0]" by (simp add: queued_def new_wait_link_def)
  have "freeq (?c\<lparr>waiting := ?q\<rparr>) = []" using senders_wait_when_full [OF r' q] by (simp only: list.distinct if_False)
  then show ?thesis using r' q by (intro exI [of _ "?c\<lparr>waiting := ?q\<rparr>"] conjI)
qed

end
