(* ===== verification/Rtic_Arbiter.thy ===== *)
theory Rtic_Arbiter
  imports Rtic_Wait_Queue
begin

text \<open>
  The arbiter (\<open>rtic-sync/src/arbiter.rs\<close>) on top of the wait queue: a value that one task at a time has
  access to, the others wait in the order in which they came. A step is one critical section, or the end of
  one future; any number of futures take steps in any order.
\<close>

section \<open>State and operations\<close>

text \<open>
  A call of \<open>access\<close> is a number: the address of its link, which lives in its future. Wakers are of any type;
  every poll brings one, and the link keeps that of the first poll. \<open>Entering\<close> is the future between
  \<open>poll_fn\<close> and the end of \<open>drop(dropper)\<close>. Not in the code: \<open>to_poll\<close>, the wakers that have been woken,
  each with the call whose link it came from, until that call is polled.
\<close>

datatype access_stage = Unused | Requested | Entering | Holding | Ended

record 'w arbiter =
  waiters :: "'w wait_queue"
  taken :: bool
  accesses :: "nat \<Rightarrow> access_stage"
  to_poll :: "(nat \<times> 'w) set"

definition new_arbiter :: "'w arbiter" where
  "new_arbiter = \<lparr>waiters = new_wait_queue Map.empty, taken = False, accesses = (\<lambda>_. Unused), to_poll = {}\<rparr>"

definition set_access :: "nat \<Rightarrow> access_stage \<Rightarrow> 'w arbiter \<Rightarrow> 'w arbiter" where
  "set_access i c s = s\<lparr>accesses := (accesses s)(i := c)\<rparr>"

definition call_access :: "nat \<Rightarrow> 'w arbiter \<Rightarrow> 'w arbiter" where
  \<comment> \<open>a new future\<close>
  "call_access i s = set_access i Requested s"

definition try_access :: "nat \<Rightarrow> 'w arbiter \<Rightarrow> 'w arbiter" where
  "try_access i s =
     (if wait_is_empty (waiters s) \<and> \<not> taken s then (set_access i Holding s)\<lparr>taken := True\<rparr>
      else set_access i Ended s)"

definition access_poll :: "nat \<Rightarrow> 'w \<Rightarrow> 'w arbiter \<Rightarrow> 'w arbiter option" where
  \<comment> \<open>\<open>w\<close> is \<open>cx.waker()\<close>\<close>
  "access_poll i w s0 =
     (let s = s0\<lparr>to_poll := Set.filter (\<lambda>(j, v). j \<noteq> i) (to_poll s0)\<rparr>; q = waiters s
      in if wait_is_empty q \<and> \<not> taken s then Some ((set_access i Entering s)\<lparr>taken := True\<rparr>)
         else (case nodes q i of
           Some l \<Rightarrow> Some (if is_popped l then set_access i Entering s else s)
         | None \<Rightarrow> do {
             q' \<leftarrow> wait_push i (q\<lparr>nodes := (nodes q)(i \<mapsto> new_wait_link w)\<rparr>);
             Some (s\<lparr>waiters := q'\<rparr>)
           }))"

definition drop_link :: "nat \<Rightarrow> 'w arbiter \<Rightarrow> 'w arbiter option" where
  \<comment> \<open>\<open>dropper\<close>, and the end of the link\<close>
  "drop_link i s = (case nodes (waiters s) i of
     None \<Rightarrow> Some s
   | Some _ \<Rightarrow> do {
       q \<leftarrow> remove_from_list i (waiters s);
       Some (s\<lparr>waiters := q\<lparr>nodes := (nodes q)(i := None)\<rparr>\<rparr>)
     })"

definition access_enter :: "nat \<Rightarrow> 'w arbiter \<Rightarrow> 'w arbiter option" where
  "access_enter i s = map_option (set_access i Holding) (drop_link i s)"

definition access_cancel :: "nat \<Rightarrow> 'w arbiter \<Rightarrow> 'w arbiter option" where
  \<comment> \<open>the future is dropped before it is ready\<close>
  "access_cancel i s = map_option (set_access i Ended) (drop_link i s)"

definition access_release :: "nat \<Rightarrow> 'w arbiter \<Rightarrow> 'w arbiter option" where
  \<comment> \<open>\<open>ExclusiveAccess\<close> is dropped\<close>
  "access_release i s0 =
     (let s = set_access i Ended s0
      in if wait_is_empty (waiters s) then Some (s\<lparr>taken := False\<rparr>)
         else do {
           (w, q) \<leftarrow> wait_pop (waiters s);
           Some (case w of
             Some next \<Rightarrow> s\<lparr>waiters := q, to_poll := insert (the (qhead (waiters s)), next) (to_poll s)\<rparr>
           | None \<Rightarrow> s\<lparr>waiters := q\<rparr>)
         })"

definition woken :: "'w arbiter \<Rightarrow> nat \<Rightarrow> bool" where
  \<comment> \<open>the waker in the link of the call has been woken, and the call not been polled since\<close>
  "woken s i \<longleftrightarrow> (\<exists>w. content_at (nodes (waiters s)) i = Some w \<and> (i, w) \<in> to_poll s)"

text \<open>
  A future that waits has been \<open>granted\<close> the access when its link has been popped. When \<open>patient\<close>, no
  future is dropped between that and its next poll.
\<close>

definition granted :: "'w arbiter \<Rightarrow> nat \<Rightarrow> bool" where
  "granted s i \<longleftrightarrow> accesses s i = Requested \<and> popped_at (nodes (waiters s)) i = Some True"

inductive arbiter_step :: "bool \<Rightarrow> 'w arbiter \<Rightarrow> 'w arbiter \<Rightarrow> bool" for patient where
  step_call: "arbiter_step patient s (call_access i s)" if "accesses s i = Unused"
| step_try: "arbiter_step patient s (try_access i s)" if "accesses s i = Unused"
| step_poll: "arbiter_step patient s s'" if "accesses s i = Requested" "access_poll i w s = Some s'"
| step_enter: "arbiter_step patient s s'" if "accesses s i = Entering" "access_enter i s = Some s'"
| step_cancel: "arbiter_step patient s s'"
    if "accesses s i = Requested" "if patient then \<not> granted s i else True" "access_cancel i s = Some s'"
| step_release: "arbiter_step patient s s'" if "accesses s i = Holding" "access_release i s = Some s'"

section \<open>Invariant\<close>

definition owns :: "'w arbiter \<Rightarrow> nat \<Rightarrow> bool" where
  "owns s i \<longleftrightarrow> accesses s i \<in> {Entering, Holding} \<or> granted s i"

text \<open>The links are those of the futures: in the queue, or popped.\<close>

definition link_ok :: "access_stage \<Rightarrow> bool \<Rightarrow> bool option \<Rightarrow> bool" where
  "link_ok c inq p = (case c of
     Requested \<Rightarrow> inq \<longleftrightarrow> p = Some False
   | Entering \<Rightarrow> \<not> inq \<and> p \<noteq> Some False
   | _ \<Rightarrow> \<not> inq \<and> p = None)"

lemma link_ok_simps [simp]:
  "link_ok Unused inq p \<longleftrightarrow> \<not> inq \<and> p = None" "link_ok Ended inq p \<longleftrightarrow> \<not> inq \<and> p = None"
  "link_ok Holding inq p \<longleftrightarrow> \<not> inq \<and> p = None" "link_ok Entering inq p \<longleftrightarrow> \<not> inq \<and> p \<noteq> Some False"
  "link_ok Requested inq p \<longleftrightarrow> (inq \<longleftrightarrow> p = Some False)"
  by (simp_all add: link_ok_def)

definition arbiter_ok :: "'w arbiter \<Rightarrow> nat list \<Rightarrow> bool" where
  "arbiter_ok s as \<longleftrightarrow> queued (waiters s) as \<and>
     (\<forall>i. link_ok (accesses s i) (i \<in> set as) (popped_at (nodes (waiters s)) i)) \<and>
     (\<forall>i j. owns s i \<and> owns s j \<longrightarrow> i = j) \<and>
     (taken s \<or> as = [] \<and> (\<forall>i. \<not> owns s i)) \<and>
     (\<forall>i. granted s i \<longrightarrow> woken s i)"

definition owned :: "'w arbiter \<Rightarrow> bool" where
  "owned s \<longleftrightarrow> (\<exists>i. owns s i)"

lemma arbiter_ok_new: "arbiter_ok new_arbiter []"
  by (simp add: arbiter_ok_def new_arbiter_def new_wait_queue_def queued_def owns_def granted_def link_ok_def
      popped_at_def content_at_def)

lemma arbiter_reads [simp]:
  "waiters (set_access i c s) = waiters s" "taken (set_access i c s) = taken s"
  "to_poll (set_access i c s) = to_poll s" "accesses (set_access i c s) = (accesses s)(i := c)"
  by (simp_all add: set_access_def)

lemma popped_at_upd [simp]: "popped_at (m(a := x)) b = (if b = a then map_option is_popped x else popped_at m b)"
  by (simp add: popped_at_def)

lemma content_at_upd [simp]: "content_at (m(a := x)) b = (if b = a then map_option content x else content_at m b)"
  by (simp add: content_at_def)

lemma popped_at_None: "popped_at m a = None \<longleftrightarrow> m a = None"
  by (simp add: popped_at_def)

text \<open>What the end of a link leaves.\<close>

lemma drop_link_ok:
  assumes q: "queued (waiters s) as" and l: "link_ok (accesses s i) (i \<in> set as) (popped_at (nodes (waiters s)) i)"
  obtains q' where "drop_link i s = Some (s\<lparr>waiters := q'\<rparr>)" and "queued q' (remove1 i as)" and
    "popped_at (nodes q') = (popped_at (nodes (waiters s)))(i := None)" and
    "content_at (nodes q') = (content_at (nodes (waiters s)))(i := None)"
proof (cases "i \<in> set as")
  case True
  obtain p where p: "remove_from_list i (waiters s) = Some p" "queued p (remove1 i as)"
    "kept (set as) {i} (nodes (waiters s)) (nodes p)" by (rule remove_queued [OF q True])
  obtain k where "nodes (waiters s) i = Some k" using q True by (auto simp: queued_def dest: seg_mapped)
  moreover have "i \<notin> set (remove1 i as)" using queued_distinct [OF q] by simp
  ultimately show thesis using p
    by (intro that [of "p\<lparr>nodes := (nodes p)(i := None)\<rparr>"])
      (auto simp: drop_link_def queued_def kept_def fun_eq_iff)
next
  case False
  show thesis
  proof (cases "nodes (waiters s) i")
    case None
    with q False show thesis
      by (intro that [of "waiters s"]) (auto simp: drop_link_def remove1_idem fun_eq_iff popped_at_def content_at_def)
  next
    case (Some k)
    then have "is_popped k" using l False by (auto simp: link_ok_def popped_at_def split: access_stage.splits)
    with q False Some show thesis
      by (intro that [of "(waiters s)\<lparr>nodes := (nodes (waiters s))(i := None)\<rparr>"])
        (auto simp: drop_link_def remove_popped queued_def remove1_idem fun_eq_iff)
  qed
qed

text \<open>The parts of the invariant.\<close>

lemma arbiter_okD:
  assumes "arbiter_ok s as"
  shows "queued (waiters s) as" and "link_ok (accesses s i) (i \<in> set as) (popped_at (nodes (waiters s)) i)"
    and "owns s i \<Longrightarrow> owns s j \<Longrightarrow> i = j"
    and "taken s \<or> as = [] \<and> (\<forall>i. \<not> owns s i)" and "granted s i \<Longrightarrow> woken s i"
  using assms by (simp_all add: arbiter_ok_def)

lemma is_empty_iff: "arbiter_ok s as \<Longrightarrow> wait_is_empty (waiters s) \<longleftrightarrow> as = []"
  by (rule wait_is_empty_iff [OF arbiter_okD(1)])

text \<open>Owners come and go one at a time.\<close>

lemma arbiter_okI:
  assumes "queued (waiters s) as"
    and "\<And>i. link_ok (accesses s i) (i \<in> set as) (popped_at (nodes (waiters s)) i)"
    and "\<And>i j. owns s i \<Longrightarrow> owns s j \<Longrightarrow> i = j"
    and "\<not> taken s \<Longrightarrow> as = []" and "\<And>i. owns s i \<Longrightarrow> taken s"
    and "\<And>i. granted s i \<Longrightarrow> woken s i"
  shows "arbiter_ok s as"
  using assms by (auto simp: arbiter_ok_def)

lemma call_ok:
  assumes ok: "arbiter_ok s as" and i: "accesses s i = Unused"
  shows "arbiter_ok (call_access i s) as" and "owns (call_access i s) = owns s"
    and "granted (call_access i s) = granted s"
proof -
  have p: "popped_at (nodes (waiters s)) i = None" "i \<notin> set as"
    using arbiter_okD(2) [OF ok, of i] i by auto
  show g: "granted (call_access i s) = granted s"
    using p i by (auto simp: granted_def call_access_def fun_eq_iff)
  show o': "owns (call_access i s) = owns s"
    unfolding owns_def g using i by (auto simp: call_access_def fun_eq_iff)
  show "arbiter_ok (call_access i s) as"
    using ok p unfolding arbiter_ok_def o' g woken_def by (auto simp: call_access_def)
qed

lemma try_ok:
  assumes ok: "arbiter_ok s as" and i: "accesses s i = Unused"
  shows "arbiter_ok (try_access i s) as" and "granted (try_access i s) = granted s"
    and "taken (try_access i s) \<Longrightarrow> owned s \<or> \<not> taken s \<Longrightarrow> owned (try_access i s)"
    and "owned (try_access i s) \<Longrightarrow> owned s \<or> \<not> taken s"
    and "taken s \<Longrightarrow> taken (try_access i s)"
proof -
  have p: "popped_at (nodes (waiters s)) i = None" "i \<notin> set as"
    using arbiter_okD(2) [OF ok, of i] i by auto
  show g: "granted (try_access i s) = granted s"
    using p i by (auto simp: granted_def try_access_def fun_eq_iff)
  have own: "owns (try_access i s) = (if as = [] \<and> \<not> taken s then (owns s)(i := True) else owns s)"
    unfolding owns_def g using i p is_empty_iff [OF ok] by (auto simp: try_access_def fun_eq_iff granted_def)
  show "arbiter_ok (try_access i s) as"
    using ok p is_empty_iff [OF ok] unfolding arbiter_ok_def own g woken_def by (auto simp: try_access_def)
  show "taken (try_access i s) \<Longrightarrow> owned s \<or> \<not> taken s \<Longrightarrow> owned (try_access i s)"
    and "owned (try_access i s) \<Longrightarrow> owned s \<or> \<not> taken s" and "taken s \<Longrightarrow> taken (try_access i s)"
    unfolding owned_def own using is_empty_iff [OF ok] by (auto simp: try_access_def split: if_splits)
qed

lemma access_poll_ok:
  assumes ok: "arbiter_ok s as" and i: "accesses s i = Requested"
  obtains s' as' where "access_poll i w s = Some s'" and "arbiter_ok s' as'"
    and "owns s' = (if taken s then owns s else (owns s)(i := True))" and "taken s'"
    and "granted s i \<Longrightarrow> accesses s' i = Entering"
proof -
  note q = arbiter_okD(1) [OF ok]
  have l: "i \<in> set as \<longleftrightarrow> popped_at (nodes (waiters s)) i = Some False"
    using arbiter_okD(2) [OF ok, of i] i by simp
  let ?s = "s\<lparr>to_poll := Set.filter (\<lambda>(j, v). j \<noteq> i) (to_poll s)\<rparr>"
  show thesis
  proof (cases "taken s")
    case False
    then have none: "as = []" "\<And>j. \<not> owns s j" using arbiter_okD(4) [OF ok] by auto
    then have n: "popped_at (nodes (waiters s)) i = None" using none(2) [of i] i l
      by (cases "popped_at (nodes (waiters s)) i") (auto simp: owns_def granted_def)
    let ?s' = "(set_access i Entering ?s)\<lparr>taken := True\<rparr>"
    have g: "granted ?s' = (\<lambda>_. False)" using none(2) by (auto simp: granted_def owns_def fun_eq_iff)
    have o': "owns ?s' = (owns s)(i := True)" unfolding owns_def g using none(2) by (auto simp: owns_def fun_eq_iff)
    have "arbiter_ok ?s' as" using ok none n l unfolding arbiter_ok_def o' g woken_def by auto
    moreover have "access_poll i w s = Some ?s'" using False none(1) is_empty_iff [OF ok] by (simp add: access_poll_def)
    ultimately show thesis using False o' none(2) by (intro that [of ?s' as]) (auto simp: owns_def)
  next
    case True
    note t = this
    show thesis
    proof (cases "nodes (waiters s) i")
      case (Some k)
      show thesis
      proof (cases "is_popped k")
        case True
        let ?s' = "set_access i Entering ?s"
        have p: "popped_at (nodes (waiters s)) i = Some True" using Some True by (simp add: popped_at_def)
        then have gi: "granted s i" using i by (simp add: granted_def)
        have g: "granted ?s' = (granted s)(i := False)" by (auto simp: granted_def fun_eq_iff)
        have o': "owns ?s' = owns s" unfolding owns_def g using i gi by (auto simp: fun_eq_iff)
        have "arbiter_ok ?s' as" using ok p l t unfolding arbiter_ok_def o' g woken_def by auto
        with t Some True o' show thesis by (intro that [of ?s' as]) (auto simp: access_poll_def)
      next
        case False
        then have p: "popped_at (nodes (waiters s)) i = Some False" using Some by (simp add: popped_at_def)
        have g: "granted ?s = granted s" by (auto simp: granted_def fun_eq_iff)
        have o': "owns ?s = owns s" unfolding owns_def g by simp
        have "\<not> granted s i" using p by (simp add: granted_def)
        then have "arbiter_ok ?s as" using ok unfolding arbiter_ok_def o' g woken_def by auto
        with t Some False o' \<open>\<not> granted s i\<close> show thesis by (intro that [of ?s as]) (auto simp: access_poll_def)
      qed
    next
      case None
      then have p: "popped_at (nodes (waiters s)) i = None" "i \<notin> set as" using l by (auto simp: popped_at_def)
      let ?q = "(waiters s)\<lparr>nodes := (nodes (waiters s))(i \<mapsto> new_wait_link w)\<rparr>"
      have "queued ?q as" using q p(2) by (simp add: queued_def)
      then obtain q' where q': "wait_push i ?q = Some q'" "queued q' (as @ [i])"
        "kept (insert i (set as)) {} (nodes ?q) (nodes q')"
        by (rule wait_push_queued [where l = "new_wait_link w"]) (use p(2) in \<open>simp_all add: new_wait_link_def\<close>)
      let ?s' = "?s\<lparr>waiters := q'\<rparr>"
      have n: "popped_at (nodes q') = (popped_at (nodes (waiters s)))(i \<mapsto> False)"
        "content_at (nodes q') = (content_at (nodes (waiters s)))(i \<mapsto> w)"
        using q'(3) by (auto simp: kept_def fun_eq_iff new_wait_link_def)
      have g: "granted ?s' = granted s" using p i by (auto simp: granted_def fun_eq_iff n)
      have o': "owns ?s' = owns s" unfolding owns_def g by simp
      have "\<not> granted s i" using p by (simp add: granted_def)
      then have "arbiter_ok ?s' (as @ [i])" using ok t p i q'(2) unfolding arbiter_ok_def o' g woken_def by (auto simp: n)
      with t None q' o' \<open>\<not> granted s i\<close> show thesis by (intro that [of ?s' "as @ [i]"]) (auto simp: access_poll_def)
    qed
  qed
qed

text \<open>The end of a link of a future that becomes \<open>c\<close>.\<close>

lemma dropped_ok:
  assumes ok: "arbiter_ok s as" and i: "accesses s i \<in> {Requested, Entering}"
    and c: "c = Ended \<or> c = Holding \<and> accesses s i = Entering"
  obtains s' where "map_option (set_access i c) (drop_link i s) = Some s'" and "arbiter_ok s' (remove1 i as)"
    and "owns s' = (if c = Ended then (owns s)(i := False) else owns s)" and "taken s' = taken s"
    and "accesses s' = (accesses s)(i := c)"
proof -
  obtain q' where q': "drop_link i s = Some (s\<lparr>waiters := q'\<rparr>)" "queued q' (remove1 i as)"
    "popped_at (nodes q') = (popped_at (nodes (waiters s)))(i := None)"
    "content_at (nodes q') = (content_at (nodes (waiters s)))(i := None)"
    by (rule drop_link_ok [OF arbiter_okD(1,2) [OF ok]])
  let ?s' = "set_access i c (s\<lparr>waiters := q'\<rparr>)"
  have g: "granted ?s' = (granted s)(i := False)" by (auto simp: granted_def fun_eq_iff q'(3))
  have o': "owns ?s' = (if c = Ended then (owns s)(i := False) else owns s)"
    unfolding owns_def g using c by (auto simp: fun_eq_iff)
  have "distinct as" by (rule queued_distinct [OF arbiter_okD(1) [OF ok]])
  then have "arbiter_ok ?s' (remove1 i as)"
    using ok q'(2) c unfolding arbiter_ok_def o' g woken_def by (auto simp: q'(3,4))
  with q'(1) o' show thesis by (intro that [of ?s']) auto
qed

lemma access_release_ok:
  assumes ok: "arbiter_ok s as" and i: "accesses s i = Holding"
  obtains s' where "access_release i s = Some s'" and "arbiter_ok s' (tl as)"
    and "accesses s' = (accesses s)(i := Ended)"
    and "case as of [] \<Rightarrow> \<not> taken s' | h # _ \<Rightarrow> taken s' \<and> granted s' h \<and> woken s' h"
proof -
  have li: "i \<notin> set as" "popped_at (nodes (waiters s)) i = None" using arbiter_okD(2) [OF ok, of i] i by auto
  have "owns s i" using i by (simp add: owns_def)
  then have only: "owns s j \<longleftrightarrow> j = i" for j using arbiter_okD(3) [OF ok] by blast
  have no: "\<not> granted s j" for j using only [of j] i by (auto simp: owns_def granted_def)
  have t: "taken s" using arbiter_okD(4) [OF ok] \<open>owns s i\<close> by blast
  have stages: "accesses s j \<notin> {Entering, Holding}" if "j \<noteq> i" for j using only [of j] that by (simp add: owns_def)
  show thesis
  proof (cases as)
    case Nil
    let ?s' = "(set_access i Ended s)\<lparr>taken := False\<rparr>"
    have g: "granted ?s' = (\<lambda>_. False)" using no by (auto simp: granted_def fun_eq_iff)
    have o': "owns ?s' = (\<lambda>_. False)" unfolding owns_def g using stages by (auto simp: fun_eq_iff)
    have "arbiter_ok ?s' as" using ok li Nil unfolding arbiter_ok_def o' g woken_def by auto
    with Nil is_empty_iff [OF ok] show thesis by (intro that [of ?s']) (auto simp: access_release_def)
  next
    case (Cons h bs)
    obtain q' k where k: "nodes (waiters s) h = Some k" "wait_pop (waiters s) = Some (Some (content k), q')"
      "queued q' bs" "kept (set (h # bs)) {h} (nodes (waiters s)) (nodes q')"
      by (rule wait_pop_Cons [OF arbiter_okD(1) [OF ok, unfolded Cons]])
    have qh: "qhead (waiters s) = Some h" using arbiter_okD(1) [OF ok] Cons by (simp add: queued_def)
    have n: "popped_at (nodes q') = (popped_at (nodes (waiters s)))(h \<mapsto> True)"
      "content_at (nodes q') = content_at (nodes (waiters s))" using k(4) by (auto simp: kept_def fun_eq_iff)
    have h: "h \<noteq> i" "h \<notin> set bs" using li Cons queued_distinct [OF arbiter_okD(1) [OF ok]] by auto
    have "accesses s h = Requested"
      using arbiter_okD(2) [OF ok, of h] Cons stages [OF h(1)] by (cases "accesses s h") auto
    let ?s' = "(set_access i Ended s)\<lparr>waiters := q', to_poll := insert (h, content k) (to_poll s)\<rparr>"
    have g: "granted ?s' = (\<lambda>j. j = h)"
      using no h \<open>accesses s h = Requested\<close> by (auto simp: granted_def fun_eq_iff n)
    have o': "owns ?s' = (\<lambda>j. j = h)" unfolding owns_def g using stages by (auto simp: fun_eq_iff)
    have l: "link_ok (accesses ?s' j) (j \<in> set bs) (popped_at (nodes q') j)" for j
      using arbiter_okD(2) [OF ok, of j] Cons h li \<open>accesses s h = Requested\<close> by (auto simp: n)
    have w: "woken ?s' h" using k(1) n(2) by (simp add: woken_def content_at_def)
    then have "arbiter_ok ?s' bs"
      using ok t k(3) l unfolding arbiter_ok_def o' g woken_def by (simp add: n)
    with Cons k(2) qh g t w is_empty_iff [OF ok] show thesis by (intro that [of ?s']) (auto simp: access_release_def)
  qed
qed

section \<open>Runs\<close>

definition arbiter_inv :: "'w arbiter \<Rightarrow> bool" where
  "arbiter_inv s \<longleftrightarrow> (\<exists>as. arbiter_ok s as)"

definition arbiter_served :: "'w arbiter \<Rightarrow> bool" where
  \<comment> \<open>the value is taken by a future that lives\<close>
  "arbiter_served s \<longleftrightarrow> arbiter_inv s \<and> (taken s \<longleftrightarrow> owned s)"

definition arbiter_abandoned :: "'w arbiter \<Rightarrow> bool" where
  "arbiter_abandoned s \<longleftrightarrow> arbiter_inv s \<and> taken s \<and> \<not> owned s"

lemma owned_taken: "arbiter_ok s as \<Longrightarrow> owned s \<Longrightarrow> taken s"
  using arbiter_okD(4) by (auto simp: owned_def)

text \<open>Every step keeps the invariant, and all but the dropping of what was granted keep whether the value is owned.\<close>

lemma arbiter_step_cases:
  assumes ok: "arbiter_inv s" and step: "arbiter_step p s s'"
  shows "arbiter_inv s'" and "p \<Longrightarrow> taken s \<longleftrightarrow> owned s \<Longrightarrow> taken s' \<longleftrightarrow> owned s'"
    and "taken s \<Longrightarrow> \<not> owned s \<Longrightarrow> taken s' \<and> \<not> owned s'"
proof -
  obtain as where as: "arbiter_ok s as" using ok by (auto simp: arbiter_inv_def)
  have "arbiter_inv s' \<and> (p \<longrightarrow> (taken s \<longleftrightarrow> owned s) \<longrightarrow> (taken s' \<longleftrightarrow> owned s')) \<and>
      (taken s \<longrightarrow> \<not> owned s \<longrightarrow> taken s' \<and> \<not> owned s')"
    using step
  proof cases
    case (step_call i)
    with call_ok [OF as step_call(2)] show ?thesis by (auto simp: arbiter_inv_def owned_def call_access_def)
  next
    case (step_try i)
    with try_ok [OF as step_try(2)] show ?thesis by (auto simp: arbiter_inv_def dest: owned_taken)
  next
    case (step_poll i w)
    obtain u bs where u: "access_poll i w s = Some u" "arbiter_ok u bs"
      "owns u = (if taken s then owns s else (owns s)(i := True))" "taken u"
      by (rule access_poll_ok [OF as step_poll(1)])
    then show ?thesis using step_poll(2) by (auto simp: arbiter_inv_def owned_def)
  next
    case (step_enter i)
    obtain u where u: "map_option (set_access i Holding) (drop_link i s) = Some u" "arbiter_ok u (remove1 i as)"
      "owns u = owns s" "taken u = taken s"
      by (rule dropped_ok [OF as, of i Holding]) (use step_enter in auto)
    then show ?thesis using step_enter(2) by (auto simp: arbiter_inv_def owned_def access_enter_def)
  next
    case (step_cancel i)
    obtain u where u: "map_option (set_access i Ended) (drop_link i s) = Some u" "arbiter_ok u (remove1 i as)"
      "owns u = (owns s)(i := False)" "taken u = taken s"
      by (rule dropped_ok [OF as, of i Ended]) (use step_cancel in auto)
    moreover have "p \<Longrightarrow> \<not> owns s i" using step_cancel by (simp add: owns_def)
    ultimately show ?thesis using step_cancel(3)
      by (auto simp: arbiter_inv_def owned_def access_cancel_def fun_upd_idem)
  next
    case (step_release i)
    then have o': "owned s" by (auto simp: owned_def owns_def)
    obtain u where u: "access_release i s = Some u" "arbiter_ok u (tl as)"
      "accesses u = (accesses s)(i := Ended)"
      "case as of [] \<Rightarrow> \<not> taken u | h # _ \<Rightarrow> taken u \<and> granted u h \<and> woken u h"
      by (rule access_release_ok [OF as step_release(1)])
    have "taken u \<longleftrightarrow> owned u"
      using u(4) owned_taken [OF u(2)] by (auto simp: owned_def owns_def split: list.splits)
    then show ?thesis using u(1,2) o' step_release(2) by (auto simp: arbiter_inv_def)
  qed
  then show "arbiter_inv s'" and "p \<Longrightarrow> taken s \<longleftrightarrow> owned s \<Longrightarrow> taken s' \<longleftrightarrow> owned s'"
    and "taken s \<Longrightarrow> \<not> owned s \<Longrightarrow> taken s' \<and> \<not> owned s'" by simp_all
qed

interpretation arbitration: transitions new_arbiter "arbiter_step patient" arbiter_inv for patient
  by unfold_locales (auto simp: arbiter_inv_def intro: arbiter_ok_new arbiter_step_cases(1) [unfolded arbiter_inv_def])

lemma arbiter_served_new: "arbiter_served new_arbiter"
  using arbiter_ok_new by (auto simp: arbiter_served_def arbiter_inv_def owned_def owns_def granted_def new_arbiter_def)

interpretation serving: transitions new_arbiter "arbiter_step True" arbiter_served
proof unfold_locales
  show "arbiter_served new_arbiter" by (rule arbiter_served_new)
  fix s s' assume "arbiter_served s" "arbiter_step True s s'"
  then show "arbiter_served s'" using arbiter_step_cases(1,2) [of s True s'] unfolding arbiter_served_def by blast
qed

text \<open>A run: the second future is dropped after the first has handed the access to it.\<close>

definition waits_second :: "nat arbiter option" where
  "waits_second = do {
     s \<leftarrow> access_poll 0 0 (call_access 0 new_arbiter);
     s \<leftarrow> access_enter 0 s;
     access_poll 1 1 (call_access 1 s)
   }"

definition handed_over :: "nat arbiter option" where
  "handed_over = do { s \<leftarrow> waits_second; access_release 0 s }"

definition left_taken :: "nat arbiter option" where
  "left_taken = do { s \<leftarrow> handed_over; access_cancel 1 s }"

lemmas arbiter_ops = access_poll_def access_enter_def access_release_def access_cancel_def drop_link_def
  call_access_def set_access_def new_arbiter_def wait_is_empty_def new_wait_queue_def wait_push_def wait_pop_def
  remove_from_list_def store_def new_wait_link_def

lemma waits_second_reached:
  obtains s where "waits_second = Some s" and "(arbiter_step p)\<^sup>*\<^sup>* new_arbiter s" and "queued (waiters s) [1]"
    and "accesses s = (\<lambda>_. Unused)(0 := Holding, 1 := Requested)"
proof -
  let ?s0 = "call_access 0 (new_arbiter :: nat arbiter)"
  obtain s1 where s1: "access_poll 0 0 ?s0 = Some s1" "accesses s1 = (\<lambda>_. Unused)(0 := Entering)"
    by (simp add: arbiter_ops)
  obtain s2 where s2: "access_enter 0 s1 = Some s2" "accesses s2 = (\<lambda>_. Unused)(0 := Holding)"
    "taken s2" "waiters s2 = new_wait_queue Map.empty"
    using s1 by (auto simp: arbiter_ops)
  let ?s3 = "call_access 1 s2"
  obtain s4 where s4: "access_poll 1 1 ?s3 = Some s4" "accesses s4 = (\<lambda>_. Unused)(0 := Holding, 1 := Requested)"
    "queued (waiters s4) [1]"
    using s2(2-) by (auto simp: arbiter_ops queued_def)
  have "arbiter_step p new_arbiter ?s0" by (rule step_call) (simp add: new_arbiter_def)
  moreover have "arbiter_step p ?s0 s1" by (rule step_poll [OF _ s1(1)]) (simp add: call_access_def)
  moreover have "arbiter_step p s1 s2" by (rule step_enter [OF _ s2(1)]) (simp add: s1)
  moreover have "arbiter_step p s2 ?s3" by (rule step_call) (simp add: s2)
  moreover have "arbiter_step p ?s3 s4" by (rule step_poll [OF _ s4(1)]) (simp add: call_access_def)
  ultimately have "(arbiter_step p)\<^sup>*\<^sup>* new_arbiter s4"
    by (meson converse_rtranclp_into_rtranclp rtranclp.rtrancl_refl)
  then show thesis using s1 s2 s4 by (intro that [of s4]) (simp_all add: waits_second_def)
qed

lemma arbiter_ok_queue: "arbiter_inv s \<Longrightarrow> queued (waiters s) as \<Longrightarrow> arbiter_ok s as"
  unfolding arbiter_inv_def using arbiter_okD(1) queued_unique by metis

lemma left_taken_reached:
  obtains s where "left_taken = Some s" and "(arbiter_step False)\<^sup>*\<^sup>* new_arbiter s" and "arbiter_abandoned s"
    and "accesses s = (\<lambda>_. Unused)(0 := Ended, 1 := Ended)"
proof -
  obtain s where s: "waits_second = Some s" "(arbiter_step False)\<^sup>*\<^sup>* new_arbiter s" "queued (waiters s) [1]"
    "accesses s = (\<lambda>_. Unused)(0 := Holding, 1 := Requested)" by (rule waits_second_reached)
  have ok: "arbiter_ok s [1]" by (rule arbiter_ok_queue [OF arbitration.reachable_inv [OF s(2)] s(3)])
  have h: "accesses s 0 = Holding" by (simp add: s(4))
  obtain t where t: "access_release 0 s = Some t" "arbiter_ok t (tl [1])" "accesses t = (accesses s)(0 := Ended)"
    "case [1] of [] \<Rightarrow> \<not> taken t | h # _ \<Rightarrow> taken t \<and> granted t h \<and> woken t h"
    by (rule access_release_ok [OF ok h])
  have w: "accesses t 1 = Requested" by (simp add: t(3) s(4))
  obtain u where u: "map_option (set_access 1 Ended) (drop_link 1 t) = Some u" "arbiter_ok u (remove1 1 (tl [1]))"
    "owns u = (if Ended = Ended then (owns t)(1 := False) else owns t)" "taken u = taken t"
    "accesses u = (accesses t)(1 := Ended)"
    by (rule dropped_ok [OF t(2), of 1 Ended]) (use w in simp_all)
  have "owns t 1" using t(4) by (simp add: owns_def)
  then have "owns t i \<longleftrightarrow> i = 1" for i using arbiter_okD(3) [OF t(2)] by blast
  then have "\<not> owned u" using u(3) by (auto simp: owned_def)
  then have a: "arbiter_abandoned u" using u(2,4) t(4) by (auto simp: arbiter_abandoned_def arbiter_inv_def)
  have "arbiter_step False s t" by (rule step_release [OF h t(1)])
  moreover have c: "access_cancel 1 t = Some u" using u(1) by (simp add: access_cancel_def)
  then have "arbiter_step False t u" by (intro step_cancel [OF w]) simp_all
  ultimately have "(arbiter_step False)\<^sup>*\<^sup>* new_arbiter u" using s(2) by (meson rtranclp.rtrancl_into_rtrancl)
  moreover have "left_taken = Some u" unfolding left_taken_def handed_over_def s(1) using t(1) c by simp
  moreover have "accesses u = (\<lambda>_. Unused)(0 := Ended, 1 := Ended)" by (simp add: u(5) t(3) s(4) fun_eq_iff)
  ultimately show thesis using a by (intro that)
qed

lemma abandoned_forever:
  assumes "(arbiter_step p)\<^sup>*\<^sup>* s t" and "arbiter_abandoned s"
  shows "arbiter_abandoned t"
  using assms
proof (induction rule: rtranclp_induct)
  case (step y z)
  then show ?case using arbiter_step_cases(1,3) [of y p z] unfolding arbiter_abandoned_def by blast
qed

section \<open>Promises\<close>

text \<open>
  C7: At most one task at a time has access to the value, in any interleaving, also when futures are dropped
  while they wait; and no operation follows a link that is gone.
\<close>

theorem arbiter_exclusive:
  assumes "(arbiter_step patient)\<^sup>*\<^sup>* new_arbiter s"
  shows "(\<exists>j. {i. accesses s i \<in> {Entering, Holding}} \<subseteq> {j}) \<and>
    (case accesses s i of
       Requested \<Rightarrow> access_poll i w s \<noteq> None \<and> access_cancel i s \<noteq> None
     | Entering \<Rightarrow> access_enter i s \<noteq> None
     | Holding \<Rightarrow> access_release i s \<noteq> None
     | _ \<Rightarrow> True)"
proof -
  obtain as where ok: "arbiter_ok s as" using arbitration.reachable_inv [OF assms] by (auto simp: arbiter_inv_def)
  have "\<exists>j. {i. accesses s i \<in> {Entering, Holding}} \<subseteq> {j}"
  proof (cases "\<exists>j. accesses s j \<in> {Entering, Holding}")
    case True
    then obtain j where "owns s j" by (auto simp: owns_def)
    then show ?thesis using arbiter_okD(3) [OF ok, of _ j] by (auto simp: owns_def intro!: exI [of _ j])
  qed auto
  moreover have "access_poll i w s \<noteq> None" if "accesses s i = Requested" by (rule access_poll_ok [OF ok that, where w = w]) simp
  moreover have "access_cancel i s \<noteq> None" if "accesses s i = Requested"
    unfolding access_cancel_def by (rule dropped_ok [OF ok, of i Ended]) (use that in auto)
  moreover have "access_enter i s \<noteq> None" if "accesses s i = Entering"
    unfolding access_enter_def by (rule dropped_ok [OF ok, of i Holding]) (use that in auto)
  moreover have "access_release i s \<noteq> None" if "accesses s i = Holding" by (rule access_release_ok [OF ok that]) simp
  ultimately show ?thesis by (simp split: access_stage.split)
qed

theorem arbiter_exclusive_witness:
  "\<exists>s j. waits_second = Some s \<and> accesses s 0 = Holding \<and> {i. accesses s i \<in> {Entering, Holding}} \<subseteq> {j} \<and>
    access_release 0 s \<noteq> None"
proof -
  obtain s where s: "waits_second = Some s" "(arbiter_step True)\<^sup>*\<^sup>* new_arbiter s"
    "accesses s = (\<lambda>_. Unused)(0 := Holding, 1 := Requested)" by (rule waits_second_reached)
  from arbiter_exclusive [OF s(2), of 0] show ?thesis using s(1,3) by auto
qed

text \<open>
  C10: When no future is dropped between being granted the access and its next poll, every future in the queue
  is behind one that has the access or will find, at its next poll, that it has, and of which the waker that
  its link keeps, that of its first poll, has been woken; and whoever gives the access back hands it to the
  one that has waited longest and wakes that waker, or frees the access when nobody waits.
\<close>

theorem arbiter_serves:
  assumes "(arbiter_step True)\<^sup>*\<^sup>* new_arbiter s" and "queued (waiters s) as"
  shows "(if as = [] then True else \<exists>i. accesses s i \<in> {Entering, Holding} \<or>
      woken s i \<and> (\<forall>w. map_option (\<lambda>t. accesses t i) (access_poll i w s) = Some Entering)) \<and>
    (case accesses s i of
       Holding \<Rightarrow> (\<exists>t. access_release i s = Some t \<and> queued (waiters t) (tl as) \<and>
         (case as of
            [] \<Rightarrow> \<not> taken t
          | h # _ \<Rightarrow> woken t h \<and> (\<forall>w. map_option (\<lambda>u. accesses u h) (access_poll h w t) = Some Entering)))
     | _ \<Rightarrow> True)"
proof -
  have inv: "arbiter_served s" by (rule serving.reachable_inv [OF assms(1)])
  then have ok: "arbiter_ok s as" by (intro arbiter_ok_queue [OF _ assms(2)]) (simp add: arbiter_served_def)
  have enters: "map_option (\<lambda>u. accesses u h) (access_poll h w t) = Some Entering"
    if "arbiter_ok t bs" "granted t h" for t :: "'w arbiter" and bs h w
  proof -
    have "accesses t h = Requested" using that(2) by (simp add: granted_def)
    with that show ?thesis by (elim access_poll_ok [OF that(1), where w = w]) simp
  qed
  have "\<exists>i. accesses s i \<in> {Entering, Holding} \<or>
      woken s i \<and> (\<forall>w. map_option (\<lambda>t. accesses t i) (access_poll i w s) = Some Entering)" if "as \<noteq> []"
  proof -
    have "taken s" using arbiter_okD(4) [OF ok] that by blast
    then obtain i where "owns s i" using inv by (auto simp: arbiter_served_def owned_def)
    then show ?thesis using enters [OF ok, of i] arbiter_okD(5) [OF ok, of i] by (auto simp: owns_def)
  qed
  moreover have "\<exists>t. access_release i s = Some t \<and> queued (waiters t) (tl as) \<and> (case as of [] \<Rightarrow> \<not> taken t
        | h # _ \<Rightarrow> woken t h \<and> (\<forall>w. map_option (\<lambda>u. accesses u h) (access_poll h w t) = Some Entering))"
    if h: "accesses s i = Holding"
  proof -
    obtain t where t: "access_release i s = Some t" "arbiter_ok t (tl as)"
      "case as of [] \<Rightarrow> \<not> taken t | h # _ \<Rightarrow> taken t \<and> granted t h \<and> woken t h"
      by (rule access_release_ok [OF ok h])
    then show ?thesis using arbiter_okD(1) [OF t(2)] enters [OF t(2)] by (auto split: list.splits)
  qed
  ultimately show ?thesis by (simp split: access_stage.split)
qed

theorem arbiter_serves_witness:
  "\<exists>s t. waits_second = Some s \<and> access_release 0 s = Some t \<and> woken t 1 \<and>
    map_option (\<lambda>u. accesses u 1) (access_poll 1 7 t) = Some Entering"
proof -
  obtain s where s: "waits_second = Some s" "(arbiter_step True)\<^sup>*\<^sup>* new_arbiter s" "queued (waiters s) [1]"
    "accesses s = (\<lambda>_. Unused)(0 := Holding, 1 := Requested)" by (rule waits_second_reached)
  from arbiter_serves [OF s(2,3), of 0] show ?thesis using s(1,4) by auto
qed

text \<open>
  C18: A future that is dropped after the access has been granted to it, and before its next poll, does not
  give it back: all futures of the run have ended, and no future ever gets the access again.
\<close>

theorem arbiter_left_taken:
  "\<exists>s. left_taken = Some s \<and> (arbiter_step False)\<^sup>*\<^sup>* new_arbiter s \<and> (\<forall>i. accesses s i = Unused \<or> accesses s i = Ended) \<and>
    {t. (arbiter_step False)\<^sup>*\<^sup>* s t \<and> (\<exists>i. accesses t i \<in> {Entering, Holding})} = {}"
proof -
  obtain s where s: "left_taken = Some s" "(arbiter_step False)\<^sup>*\<^sup>* new_arbiter s" "arbiter_abandoned s"
    "accesses s = (\<lambda>_. Unused)(0 := Ended, 1 := Ended)" by (rule left_taken_reached)
  have "accesses t i \<notin> {Entering, Holding}" if "(arbiter_step False)\<^sup>*\<^sup>* s t" for t i
    using abandoned_forever [OF that s(3)] by (auto simp: arbiter_abandoned_def owned_def owns_def)
  moreover have "accesses s i = Unused \<or> accesses s i = Ended" for i by (simp add: s(4))
  ultimately show ?thesis using s(1,2) by (intro exI [of _ s] conjI) auto
qed

end
