(* ===== verification/Rtic_Signal.thy ===== *)
theory Rtic_Signal
  imports Prelude
begin

text \<open>
  The signal (\<open>rtic-sync/src/signal.rs\<close>): a place for the latest value, with any number of writers and one
  reader that waits for it. A step is one critical section or one store to a flag. The waker registration
  (\<open>rtic-common/src/waker_registration.rs\<close>) is part of the record; wakers are equal when they wake the same
  task. \<open>Unset\<close> is \<open>None\<close>; \<open>latest\<close> is not in the code.
\<close>

section \<open>State and operations\<close>

datatype write_stage = Outside | Replaced | Unseen

datatype 'w read_stage = Resting | Registered 'w | Waiting 'w

record ('v, 'w) signal =
  stored :: "'v option"
  seen :: bool
  already_split :: bool
  registered :: "'w option"
  writers :: "nat \<Rightarrow> write_stage"
  reader :: "'w read_stage"
  to_poll :: "'w set"  \<comment> \<open>the tasks that have been woken and not polled since\<close>
  latest :: "'v option"  \<comment> \<open>what was written last\<close>

definition new_signal :: "('v, 'w) signal" where
  "new_signal = \<lparr>stored = None, seen = False, already_split = False, registered = None, writers = (\<lambda>_. Outside), reader = Resting,
     to_poll = {}, latest = None\<rparr>"

definition split_signal :: "('v, 'w) signal \<Rightarrow> ('v, 'w) signal option" where
  \<comment> \<open>\<open>None\<close> is the panic of a second call\<close>
  "split_signal s = (if already_split s then None else Some (s\<lparr>already_split := True\<rparr>))"

definition register_reader :: "'w \<Rightarrow> ('v, 'w) signal \<Rightarrow> ('v, 'w) signal" where
  "register_reader w s = (case registered s of
     None \<Rightarrow> s\<lparr>registered := Some w\<rparr>
   | Some old \<Rightarrow> if old = w then s else s\<lparr>registered := Some w, to_poll := insert old (to_poll s)\<rparr>)"

definition wake_reader :: "('v, 'w) signal \<Rightarrow> ('v, 'w) signal" where
  "wake_reader s = (case registered s of
     None \<Rightarrow> s
   | Some w \<Rightarrow> s\<lparr>registered := None, to_poll := insert w (to_poll s)\<rparr>)"

definition write_value :: "nat \<Rightarrow> 'v option \<Rightarrow> ('v, 'w) signal \<Rightarrow> ('v, 'w) signal" where
  \<comment> \<open>\<open>write\<close>, or \<open>clear\<close> when there is no value: up to the end of the critical section\<close>
  "write_value i v s = s\<lparr>stored := v, latest := v, writers := (writers s)(i := Replaced)\<rparr>"

definition run_writer :: "nat \<Rightarrow> ('v, 'w) signal \<Rightarrow> ('v, 'w) signal" where
  "run_writer i s = (case writers s i of
     Outside \<Rightarrow> s
   | Replaced \<Rightarrow> s\<lparr>seen := False, writers := (writers s)(i := Unseen)\<rparr>
   | Unseen \<Rightarrow> (wake_reader s)\<lparr>writers := (writers s)(i := Outside)\<rparr>)"

definition take_value :: "('v, 'w) signal \<Rightarrow> 'v option \<times> ('v, 'w) signal" where
  "take_value s = (stored s, s\<lparr>stored := None\<rparr>)"

definition wait_register :: "'w \<Rightarrow> ('v, 'w) signal \<Rightarrow> ('v, 'w) signal" where
  \<comment> \<open>the task \<open>w\<close> polls the future of \<open>wait\<close>: the first critical section\<close>
  "wait_register w s = (register_reader w (s\<lparr>to_poll := to_poll s - {w}\<rparr>))\<lparr>reader := Registered w\<rparr>"

definition wait_take :: "'w \<Rightarrow> ('v, 'w) signal \<Rightarrow> 'v option \<times> ('v, 'w) signal" where
  \<comment> \<open>the second one: \<open>Ready\<close> with a value, or \<open>Pending\<close>\<close>
  "wait_take w s = (let (v, s') = take_value s
     in (v, s'\<lparr>reader := (case v of Some _ \<Rightarrow> Resting | None \<Rightarrow> Waiting w)\<rparr>))"

text \<open>\<open>wait_fresh\<close> is \<open>try_read\<close>, whose result it ignores, and then \<open>wait\<close>.\<close>

inductive signal_step :: "('v, 'w) signal \<Rightarrow> ('v, 'w) signal \<Rightarrow> bool" where
  step_split: "signal_step s s'" if "split_signal s = Some s'"
| step_write: "signal_step s (write_value i v s)" if "writers s i = Outside"
| step_writer: "signal_step s (run_writer i s)"
| step_register: "signal_step s (wait_register w s)" if "case reader s of Registered _ \<Rightarrow> False | _ \<Rightarrow> True"
| step_take: "signal_step s (snd (wait_take w s))" if "reader s = Registered w"
| step_read: "signal_step s (snd (take_value s))" if "reader s = Resting"
| step_drop: "signal_step s (s\<lparr>reader := Resting\<rparr>)" if "reader s = Waiting w"

section \<open>Invariant\<close>

definition listening :: "('v, 'w) signal \<Rightarrow> 'w \<Rightarrow> bool" where
  "listening s w \<longleftrightarrow> registered s = Some w \<or> w \<in> to_poll s"

definition signal_ok :: "('v, 'w) signal \<Rightarrow> bool" where
  "signal_ok s \<longleftrightarrow>
     (stored s = None \<or> stored s = latest s) \<and>
     (case reader s of
        Resting \<Rightarrow> True
      | Registered w \<Rightarrow> listening s w
      | Waiting w \<Rightarrow> listening s w \<and>
          (stored s = None \<or> w \<in> to_poll s \<or> (\<exists>i. writers s i \<noteq> Outside)))"

lemma signal_ok_new: "signal_ok new_signal"
  by (simp add: signal_ok_def new_signal_def)

lemma wake_reader_reads [simp]:
  "stored (wake_reader s) = stored s" "latest (wake_reader s) = latest s" "reader (wake_reader s) = reader s"
  "writers (wake_reader s) = writers s"
  by (simp_all add: wake_reader_def split: option.splits)

lemma wake_reader_woken: "listening s w \<Longrightarrow> w \<in> to_poll (wake_reader s)"
  by (auto simp: listening_def wake_reader_def split: option.splits)

lemma register_reader_reads [simp]:
  "stored (register_reader w s) = stored s" "latest (register_reader w s) = latest s"
  "reader (register_reader w s) = reader s" "registered (register_reader w s) = Some w"
  by (auto simp: register_reader_def split: option.splits)

lemma run_writer_ok:
  assumes "signal_ok s"
  shows "signal_ok (run_writer i s)"
proof (cases "writers s i")
  case Replaced
  then show ?thesis using assms
    by (auto simp: signal_ok_def run_writer_def listening_def split: read_stage.splits)
next
  case Unseen
  then show ?thesis using assms wake_reader_woken [of s]
    by (auto simp: signal_ok_def run_writer_def listening_def split: read_stage.splits)
qed (use assms in \<open>simp add: run_writer_def\<close>)

lemma signal_ok_step:
  assumes ok: "signal_ok s" and "signal_step s s'"
  shows "signal_ok s'"
  using assms(2)
proof cases
  case step_split
  then show ?thesis using ok
    by (auto simp: signal_ok_def split_signal_def listening_def split: if_splits read_stage.splits)
next
  case (step_write i v)
  then show ?thesis using ok by (auto simp: signal_ok_def write_value_def listening_def split: read_stage.splits)
next
  case (step_writer i)
  then show ?thesis using run_writer_ok [OF ok] by simp
next
  case (step_register w)
  then show ?thesis using ok by (simp add: signal_ok_def wait_register_def listening_def)
next
  case (step_take w)
  then show ?thesis using ok
    by (auto simp: signal_ok_def wait_take_def take_value_def listening_def split: option.splits)
next
  case step_read
  then show ?thesis using ok by (simp add: signal_ok_def take_value_def)
next
  case (step_drop w)
  then show ?thesis using ok by (auto simp: signal_ok_def)
qed

interpretation signalling: transitions new_signal signal_step signal_ok
  by unfold_locales (auto intro: signal_ok_new signal_ok_step)

section \<open>Promises\<close>

text \<open>
  C20: A reader that waits while a value is stored has been woken, or a writer is about to wake it: after at
  most two more steps of that writer it has been; and its next poll takes the value that was written last,
  which no other read gives again.
\<close>

theorem signal_received:
  assumes "signal_step\<^sup>*\<^sup>* new_signal s" and "reader s = Waiting w" and "stored s = Some v"
  shows "(w \<in> to_poll s \<or> (\<exists>i. w \<in> to_poll (run_writer i (run_writer i s)))) \<and>
    (case wait_take w (wait_register w s) of (r, t) \<Rightarrow>
      r = latest s \<and> r = Some v \<and> reader t = Resting \<and> fst (take_value t) = None)"
proof -
  have ok: "signal_ok s" by (rule signalling.reachable_inv [OF assms(1)])
  then have l: "listening s w" "w \<in> to_poll s \<or> (\<exists>i. writers s i \<noteq> Outside)" "latest s = Some v"
    using assms(2,3) by (auto simp: signal_ok_def)
  have "w \<in> to_poll (run_writer i (run_writer i s))" if "writers s i \<noteq> Outside" for i
    using that l(1) by (cases "writers s i")
      (auto simp: run_writer_def wake_reader_def listening_def split: option.splits)
  then show ?thesis using l(2,3) assms(3) by (auto simp: wait_take_def take_value_def wait_register_def)
qed

lemma example_wait:
  "signal_step\<^sup>*\<^sup>* new_signal (write_value 0 (Some v) (snd (wait_take w (wait_register w new_signal))))"
proof -
  let ?s = "wait_register w new_signal :: ('a, 'b) signal"
  let ?t = "snd (wait_take w ?s)"
  have "signal_step new_signal ?s" by (rule step_register) (simp add: new_signal_def)
  moreover have "signal_step ?s ?t" by (rule step_take) (simp add: wait_register_def)
  moreover have "signal_step ?t (write_value 0 (Some v) ?t)"
    by (rule step_write) (simp add: wait_take_def take_value_def wait_register_def register_reader_def new_signal_def)
  ultimately show ?thesis by simp
qed

theorem signal_received_witness:
  "\<exists>(s :: (nat, nat) signal) i. reader s = Waiting 7 \<and> stored s = Some 5 \<and>
    7 \<in> to_poll (run_writer i (run_writer i s)) \<and> fst (wait_take 7 (wait_register 7 s)) = Some 5"
proof -
  let ?s = "write_value 0 (Some 5) (snd (wait_take 7 (wait_register 7 new_signal))) :: (nat, nat) signal"
  have s: "reader ?s = Waiting 7" "stored ?s = Some 5" "7 \<notin> to_poll ?s"
    by (simp_all add: write_value_def wait_take_def take_value_def wait_register_def register_reader_def new_signal_def)
  from signal_received [OF example_wait s(1,2)] s show ?thesis
    by (intro exI [of _ ?s]) (auto split: prod.splits)
qed

end
