(* ===== verification/Rtic_App.thy ===== *)
theory Rtic_App
  imports Prelude
begin

text \<open>
  An application as the macro sees it after parsing (\<open>rtic-macros/src/syntax/ast.rs\<close>), what its contexts
  access (\<open>accessors.rs\<close>) and the first check (\<open>check.rs\<close>). An ordered map keyed by identifier is the list
  of its entries in the order of insertion, with distinct keys; a Rust type is its text. Spans, attributes
  and the bodies of the functions play no part and are left out.
\<close>

section \<open>Syntax\<close>

datatype access = Exclusive | Shared

datatype task_local = External | Declared string

type_synonym shared_list = "(string \<times> access) list"
type_synonym local_list = "(string \<times> task_local) list"

record shared_resource =
  resource_type :: string
  lock_free :: bool

record init_task =
  init_name :: string
  init_locals :: local_list

record idle_task =
  idle_name :: string
  idle_shared :: shared_list
  idle_locals :: local_list

record software_task =
  sw_priority :: nat
  sw_shared :: shared_list
  sw_locals :: local_list
  local_task :: bool
  input_types :: "string list"

record hardware_task =
  binds :: string
  hw_priority :: nat
  hw_shared :: shared_list
  hw_locals :: local_list

record app =
  init :: init_task
  idle :: "idle_task option"
  shared_resources :: "(string \<times> shared_resource) list"
  local_resources :: "(string \<times> string) list"  \<comment> \<open>with their types\<close>
  hardware_tasks :: "(string \<times> hardware_task) list"
  software_tasks :: "(string \<times> software_task) list"
  dispatchers :: "string list"

text \<open>
  The end of \<open>task_args\<close>: what the arguments of a task make of it. The priority has been parsed as a
  \<open>u8\<close>.
\<close>

definition task_args ::
  "string option \<Rightarrow> nat option \<Rightarrow> shared_list option \<Rightarrow> local_list option \<Rightarrow> bool option \<Rightarrow> string list \<Rightarrow>
   (hardware_task + software_task) option" where
  \<comment> \<open>\<open>None\<close>: hardware tasks are not allowed to be at priority 0\<close>
  "task_args bound prio shared locals local inputs =
     (let rs = (case shared of None \<Rightarrow> [] | Some rs \<Rightarrow> rs);
          ls = (case locals of None \<Rightarrow> [] | Some ls \<Rightarrow> ls);
          lt = (case local of None \<Rightarrow> False | Some b \<Rightarrow> b)
      in case bound of
        Some b \<Rightarrow>
          (let p = (case prio of None \<Rightarrow> 1 | Some p \<Rightarrow> p)
           in if p = 0 then None
              else Some (Inl \<lparr>binds = b, hw_priority = p, hw_shared = rs, hw_locals = ls\<rparr>))
      | None \<Rightarrow>
          (let p = (case prio of None \<Rightarrow> 0 | Some p \<Rightarrow> p)
           in Some (Inr \<lparr>sw_priority = p, sw_shared = rs, sw_locals = ls, local_task = lt,
                input_types = inputs\<rparr>)))"

text \<open>
  What the parser guarantees: no name is used twice, no interrupt is bound or listed twice, no task is
  given twice the same resource, \<open>init\<close> takes only locals it declares, hardware tasks have a priority.
\<close>

definition distinct_keys :: "('k \<times> 'v) list \<Rightarrow> bool" where
  "distinct_keys xs \<longleftrightarrow> distinct (map fst xs)"

definition task_names :: "app \<Rightarrow> string list" where
  "task_names a = init_name (init a) # (case idle a of None \<Rightarrow> [] | Some i \<Rightarrow> [idle_name i])
     @ map fst (software_tasks a) @ map fst (hardware_tasks a)"

definition parsed :: "app \<Rightarrow> bool" where
  "parsed a \<longleftrightarrow> distinct (task_names a) \<and>
     distinct_keys (shared_resources a) \<and> distinct_keys (local_resources a) \<and> distinct (dispatchers a) \<and>
     distinct (map (\<lambda>(_, t). binds t) (hardware_tasks a)) \<and>
     distinct_keys (init_locals (init a)) \<and> list_all (\<lambda>(_, l). l \<noteq> External) (init_locals (init a)) \<and>
     (case idle a of None \<Rightarrow> True | Some i \<Rightarrow> distinct_keys (idle_shared i) \<and> distinct_keys (idle_locals i)) \<and>
     list_all (\<lambda>(_, t). distinct_keys (sw_shared t) \<and> distinct_keys (sw_locals t)) (software_tasks a) \<and>
     list_all (\<lambda>(_, t). distinct_keys (hw_shared t) \<and> distinct_keys (hw_locals t) \<and> 0 < hw_priority t)
       (hardware_tasks a)"

section \<open>Accesses\<close>

definition shared_resource_accesses :: "app \<Rightarrow> (nat option \<times> string \<times> access) list" where
  "shared_resource_accesses a =
     (case idle a of None \<Rightarrow> [] | Some i \<Rightarrow> map (\<lambda>(r, acc). (Some 0, r, acc)) (idle_shared i))
     @ concat (map (\<lambda>(_, t). map (\<lambda>(r, acc). (Some (hw_priority t), r, acc)) (hw_shared t)) (hardware_tasks a))
     @ concat (map (\<lambda>(_, t). map (\<lambda>(r, acc). (Some (sw_priority t), r, acc)) (sw_shared t)) (software_tasks a))"

definition external_locals :: "local_list \<Rightarrow> string list" where
  "external_locals ls = map fst (filter (\<lambda>(_, l). l = External) ls)"

definition local_resource_accesses :: "app \<Rightarrow> string list" where
  "local_resource_accesses a = external_locals (init_locals (init a))
     @ (case idle a of None \<Rightarrow> [] | Some i \<Rightarrow> external_locals (idle_locals i))
     @ concat (map (\<lambda>(_, t). external_locals (hw_locals t)) (hardware_tasks a))
     @ concat (map (\<lambda>(_, t). external_locals (sw_locals t)) (software_tasks a))"

section \<open>The check\<close>

datatype check_error =
    SharedNotDeclared string
  | LocalNotDeclared string
  | MixedAccess string
  | DispatcherBound string

definition check_app :: "app \<Rightarrow> check_error option" where
  "check_app a =
     (let accesses = shared_resource_accesses a;
          exclusive = map (\<lambda>(_, r, _). r) (filter (\<lambda>(p, _, acc). p \<noteq> None \<and> acc = Exclusive) accesses)
      in case List.find (\<lambda>(_, r, _). map_of (shared_resources a) r = None) accesses of
        Some (_, r, _) \<Rightarrow> Some (SharedNotDeclared r)
      | None \<Rightarrow>
      (case List.find (\<lambda>l. map_of (local_resources a) l = None) (local_resource_accesses a) of
        Some l \<Rightarrow> Some (LocalNotDeclared l)
      | None \<Rightarrow>
      (case List.find (\<lambda>(_, r, acc). acc = Shared \<and> r \<in> set exclusive) accesses of
        Some (_, r, _) \<Rightarrow> Some (MixedAccess r)
      | None \<Rightarrow>
      (case List.find (\<lambda>(_, t). binds t \<in> set (dispatchers a)) (hardware_tasks a) of
        Some (_, t) \<Rightarrow> Some (DispatcherBound (binds t))
      | None \<Rightarrow> None))))"

lemma accesses_prioritized: "(p, r, acc) \<in> set (shared_resource_accesses a) \<Longrightarrow> \<exists>q. p = Some q"
  by (auto simp: shared_resource_accesses_def split: option.splits)

lemma case_error_None:
  "(\<And>v. g v \<noteq> None) \<Longrightarrow> (case x of None \<Rightarrow> y | Some v \<Rightarrow> g v) = None \<longleftrightarrow> x = None \<and> y = None"
  by (cases x) auto

lemma check_app_None: "check_app a = None \<longleftrightarrow>
    List.find (\<lambda>(_, r, _). map_of (shared_resources a) r = None) (shared_resource_accesses a) = None \<and>
    List.find (\<lambda>l. map_of (local_resources a) l = None) (local_resource_accesses a) = None \<and>
    List.find (\<lambda>(_, r, acc). acc = Shared \<and>
      r \<in> set (map (\<lambda>(_, r, _). r) (filter (\<lambda>(p, _, acc). p \<noteq> None \<and> acc = Exclusive) (shared_resource_accesses a))))
      (shared_resource_accesses a) = None \<and>
    List.find (\<lambda>(_, t). binds t \<in> set (dispatchers a)) (hardware_tasks a) = None"
  unfolding check_app_def Let_def by (simp add: case_error_None split: prod.split)

text \<open>What the check accepts.\<close>

definition declared :: "app \<Rightarrow> bool" where
  "declared a \<longleftrightarrow> list_all (\<lambda>(_, r, _). map_of (shared_resources a) r \<noteq> None) (shared_resource_accesses a) \<and>
     list_all (\<lambda>l. map_of (local_resources a) l \<noteq> None) (local_resource_accesses a)"

definition unmixed :: "app \<Rightarrow> bool" where
  \<comment> \<open>no resource is accessed both ways\<close>
  "unmixed a \<longleftrightarrow> list_all (\<lambda>(_, r, acc). list_all (\<lambda>(_, r', acc'). r = r' \<longrightarrow> acc = acc')
     (shared_resource_accesses a)) (shared_resource_accesses a)"

definition unbound :: "app \<Rightarrow> bool" where
  \<comment> \<open>no dispatcher is bound to a hardware task\<close>
  "unbound a \<longleftrightarrow> list_all (\<lambda>(_, t). binds t \<notin> set (dispatchers a)) (hardware_tasks a)"

lemma exclusive_names:
  "r \<in> set (map (\<lambda>(_, r, _). r) (filter (\<lambda>(p, _, acc). p \<noteq> None \<and> acc = Exclusive) (shared_resource_accesses a)))
    \<longleftrightarrow> (\<exists>p. (p, r, Exclusive) \<in> set (shared_resource_accesses a))"
  (is "?l \<longleftrightarrow> ?r")
proof
  assume ?l
  then show ?r by auto
next
  assume ?r
  then obtain p where e: "(p, r, Exclusive) \<in> set (shared_resource_accesses a)" by blast
  then show ?l using accesses_prioritized [OF e] by force
qed

lemma unmixed_iff: "unmixed a \<longleftrightarrow> (\<forall>p q r. (p, r, Shared) \<in> set (shared_resource_accesses a) \<longrightarrow>
    (q, r, Exclusive) \<notin> set (shared_resource_accesses a))" (is "?l \<longleftrightarrow> ?r")
proof
  assume ?l
  then show ?r unfolding unmixed_def list_all_iff by fastforce
next
  assume r: ?r
  have "acc = acc'" if "(p, x, acc) \<in> set (shared_resource_accesses a)" "(q, x, acc') \<in> set (shared_resource_accesses a)"
    for p q x acc acc'
    using r that by (cases acc; cases acc') auto
  then show ?l unfolding unmixed_def list_all_iff by fast
qed

lemma unmixedD:
  assumes "unmixed a" and "(p, r, acc) \<in> set (shared_resource_accesses a)"
    and "(q, r, acc') \<in> set (shared_resource_accesses a)"
  shows "acc = acc'"
  using assms unfolding unmixed_def list_all_iff by fast

lemma declaredD:
  "declared a \<Longrightarrow> (p, r, acc) \<in> set (shared_resource_accesses a) \<Longrightarrow> map_of (shared_resources a) r \<noteq> None"
  unfolding declared_def list_all_iff by fast

lemma check_app_iff: "check_app a = None \<longleftrightarrow> declared a \<and> unmixed a \<and> unbound a"
proof -
  have "List.find (\<lambda>(_, r, acc). acc = Shared \<and>
      r \<in> set (map (\<lambda>(_, r, _). r) (filter (\<lambda>(p, _, acc). p \<noteq> None \<and> acc = Exclusive) (shared_resource_accesses a))))
      (shared_resource_accesses a) = None \<longleftrightarrow> unmixed a"
    unfolding exclusive_names find_None_set unmixed_iff by fast
  moreover have "List.find (\<lambda>(_, t). binds t \<in> set (dispatchers a)) (hardware_tasks a) = None \<longleftrightarrow> unbound a"
    unfolding find_None_set unbound_def list_all_iff by fast
  moreover have "List.find (\<lambda>(_, r, _). map_of (shared_resources a) r = None) (shared_resource_accesses a) = None \<and>
      List.find (\<lambda>l. map_of (local_resources a) l = None) (local_resource_accesses a) = None \<longleftrightarrow> declared a"
    unfolding find_None_set declared_def list_all_iff by fast
  ultimately show ?thesis unfolding check_app_None by blast
qed

end
