(* ===== verification/Rtic_Analysis.thy ===== *)
theory Rtic_Analysis
  imports Rtic_App "HOL-Library.Monad_Syntax"
begin

text \<open>
  The analysis of an application: \<open>rtic-macros/src/syntax/analyze.rs\<close> (lock free and local resources,
  ceilings, the types that must be \<open>Send\<close> and \<open>Sync\<close>, channels), \<open>rtic-macros/src/analyze.rs\<close> (interrupts),
  the check for Cortex-M (\<open>codegen/bindings/cortex.rs\<close>) and their order in \<open>lib.rs\<close>. \<open>None\<close> is a panic
  of the macro.
\<close>

text \<open>Adding to an ordered set: a member keeps its place.\<close>

definition index_insert :: "'a \<Rightarrow> 'a list \<Rightarrow> 'a list" where
  "index_insert x xs = (if x \<in> set xs then xs else xs @ [x])"

definition index_set :: "'a list \<Rightarrow> 'a list" where
  "index_set xs = fold index_insert xs []"

lemma set_index_insert [simp]: "set (index_insert x xs) = insert x (set xs)"
  by (auto simp: index_insert_def)

lemma set_index_set [simp]: "set (index_set xs) = set xs"
proof -
  have "set (fold index_insert xs ys) = set xs \<union> set ys" for ys
    by (induction xs arbitrary: ys) auto
  then show ?thesis by (simp add: index_set_def)
qed

section \<open>Tasks and their resources\<close>

type_synonym task_entry = "string \<times> string list \<times> local_list \<times> nat"

definition task_resources_list :: "app \<Rightarrow> task_entry list" where
  "task_resources_list a =
     (init_name (init a), [], init_locals (init a), 0)
     # (case idle a of None \<Rightarrow> [] | Some i \<Rightarrow> [(idle_name i, map fst (idle_shared i), idle_locals i, 0)])
     @ map (\<lambda>(n, t). (n, map fst (sw_shared t), sw_locals t, sw_priority t)) (software_tasks a)
     @ map (\<lambda>(n, t). (n, map fst (hw_shared t), hw_locals t, hw_priority t)) (hardware_tasks a)"

datatype analysis_error =
    LockFreeAsync string       \<comment> \<open>used by an async task\<close>
  | LockFreePriorities string  \<comment> \<open>used at different priorities: at its declaration\<close>
  | LockFreeUse string         \<comment> \<open>the same, at a use\<close>
  | LocalCollision string
  | ZeroPriority string

section \<open>Lock free resources\<close>

text \<open>\<open>last_use\<close> is \<open>lf_hash\<close>: the task that used a resource last, and its priority.\<close>

record lock_free_check =
  found :: "analysis_error list"
  conflicts :: "string list"
  last_use :: "string \<Rightarrow> (string \<times> nat) option"

definition lock_free_names :: "app \<Rightarrow> string list" where
  "lock_free_names a = map fst (filter (\<lambda>(_, r). lock_free r) (shared_resources a))"

definition lock_free_use :: "app \<Rightarrow> string \<Rightarrow> string \<Rightarrow> nat \<Rightarrow> lock_free_check \<Rightarrow> lock_free_check" where
  "lock_free_use a r task p s =
     (let es = (if map_of (software_tasks a) task \<noteq> None then found s @ [LockFreeAsync r] else found s);
          h = (last_use s)(r \<mapsto> (task, p))
      in case last_use s r of
        None \<Rightarrow> s\<lparr>found := es, last_use := h\<rparr>
      | Some (_, q) \<Rightarrow>
          (let bad = (if p \<noteq> q then conflicts s @ [r, r] else conflicts s);
               bad' = (if r \<in> set bad then bad @ [r, r] else bad)
           in s\<lparr>found := es, conflicts := bad', last_use := h\<rparr>))"

definition lock_free_task :: "app \<Rightarrow> string \<Rightarrow> task_entry \<Rightarrow> lock_free_check \<Rightarrow> lock_free_check" where
  "lock_free_task a x = (\<lambda>(task, tr, _, p). fold (\<lambda>r s. if x = r then lock_free_use a r task p s else s) tr)"

definition check_lock_free :: "app \<Rightarrow> lock_free_check" where
  "check_lock_free a = fold (\<lambda>x. fold (lock_free_task a x) (task_resources_list a)) (lock_free_names a)
     \<lparr>found = [], conflicts = [], last_use = Map.empty\<rparr>"

section \<open>Local resources\<close>

record local_check =
  collisions :: "string list"
  user_of :: "string \<Rightarrow> string option"

definition local_use :: "string \<Rightarrow> string \<Rightarrow> task_local \<Rightarrow> local_check \<Rightarrow> local_check" where
  "local_use name task l s =
     (case l of
        External \<Rightarrow>
          (let s' = s\<lparr>user_of := (user_of s)(name \<mapsto> task)\<rparr>
           in case user_of s name of
             None \<Rightarrow> s'
           | Some _ \<Rightarrow> s'\<lparr>collisions := collisions s @ [name, name]\<rparr>)
      | Declared _ \<Rightarrow> s\<lparr>collisions := collisions s @ [name, name]\<rparr>)"

definition local_uses :: "string \<Rightarrow> task_entry \<Rightarrow> local_check \<Rightarrow> local_check" where
  "local_uses x = (\<lambda>(task, _, ls, _). fold (\<lambda>(name, l) s. if x = name then local_use name task l s else s) ls)"

definition check_locals :: "app \<Rightarrow> local_check" where
  "check_locals a = fold (\<lambda>x. fold (local_uses x) (task_resources_list a)) (map fst (local_resources a))
     \<lparr>collisions = [], user_of = Map.empty\<rparr>"

definition zero_priority_tasks :: "app \<Rightarrow> string list" where
  "zero_priority_tasks a =
     (if idle a \<noteq> None then map fst (filter (\<lambda>(_, t). sw_priority t = 0) (software_tasks a)) else [])"

definition analysis_errors :: "app \<Rightarrow> analysis_error list" where
  "analysis_errors a =
     (let lf = check_lock_free a
      in found lf
         @ map LockFreePriorities (filter (\<lambda>r. r \<in> set (conflicts lf)) (lock_free_names a))
         @ map LockFreeUse (conflicts lf)
         @ map LocalCollision (collisions (check_locals a))
         @ map ZeroPriority (zero_priority_tasks a))"

section \<open>Ownership\<close>

datatype ownership = Owned nat | CoOwned nat | Contended nat

primrec ceiling :: "ownership \<Rightarrow> nat" where
  "ceiling (Owned p) = p"
| "ceiling (CoOwned p) = p"
| "ceiling (Contended c) = c"

record placement =
  used_shared :: "string list"
  ownerships :: "string \<Rightarrow> ownership option"
  sync_types :: "string list"

definition own :: "string \<Rightarrow> access \<Rightarrow> string \<Rightarrow> nat \<Rightarrow> placement \<Rightarrow> placement" where
  "own name acc ty p s =
     (case ownerships s name of
        None \<Rightarrow> s\<lparr>ownerships := (ownerships s)(name \<mapsto> Owned p)\<rparr>
      | Some ow \<Rightarrow>
          if p \<noteq> ceiling ow then
            s\<lparr>ownerships := (ownerships s)(name \<mapsto> Contended (max (ceiling ow) p)),
              sync_types := (if acc = Shared then index_insert ty (sync_types s) else sync_types s)\<rparr>
          else (case ow of
            Owned _ \<Rightarrow> s\<lparr>ownerships := (ownerships s)(name \<mapsto> CoOwned p)\<rparr>
          | _ \<Rightarrow> s))"

primrec place :: "app \<Rightarrow> (nat option \<times> string \<times> access) list \<Rightarrow> placement \<Rightarrow> placement option" where
  "place a [] s = Some s"
| "place a (x # xs) s = (case x of (prio, name, acc) \<Rightarrow> do {
     res \<leftarrow> map_of (shared_resources a) name;
     let s' = s\<lparr>used_shared := index_insert name (used_shared s)\<rparr>;
     place a xs (case prio of None \<Rightarrow> s' | Some p \<Rightarrow> own name acc (resource_type res) p s')
   })"

section \<open>The result\<close>

record analysis = placement +
  used_local :: "string list"
  send_types :: "string list"
  channels :: "nat \<Rightarrow> string set option"

definition must_send :: "(string \<Rightarrow> ownership option) \<Rightarrow> string \<Rightarrow> bool" where
  "must_send ow name = (case ow name of None \<Rightarrow> False | Some w \<Rightarrow> ceiling w \<noteq> 0)"

definition needed_send :: "app \<Rightarrow> (string \<Rightarrow> ownership option) \<Rightarrow> string list" where
  "needed_send a ow =
     map (\<lambda>(_, r). resource_type r) (filter (\<lambda>(n, _). must_send ow n) (shared_resources a))
     @ map snd (filter (\<lambda>(n, _). must_send ow n) (local_resources a))
     @ concat (map (\<lambda>(_, t). if local_task t then [] else input_types t) (software_tasks a))"

definition task_channels :: "app \<Rightarrow> nat \<Rightarrow> string set option" where
  "task_channels a = fold (\<lambda>(n, t) m.
      m(sw_priority t \<mapsto> insert n (case m (sw_priority t) of None \<Rightarrow> {} | Some ns \<Rightarrow> ns)))
    (software_tasks a) Map.empty"

definition analyze_app :: "app \<Rightarrow> (analysis_error list + analysis) option" where
  "analyze_app a =
     (case analysis_errors a of
        e # es \<Rightarrow> Some (Inl (e # e # es))
      | [] \<Rightarrow> do {
          s \<leftarrow> place a (shared_resource_accesses a)
            \<lparr>used_shared = [], ownerships = Map.empty, sync_types = []\<rparr>;
          Some (Inr \<lparr>used_shared = used_shared s, ownerships = ownerships s, sync_types = sync_types s,
            used_local = index_set (concat (map (\<lambda>(_, _, ls, _). map fst ls) (task_resources_list a))),
            send_types = index_set (needed_send a (ownerships s)),
            channels = task_channels a\<rparr>)
        })"

section \<open>Interrupts\<close>

definition dispatch_priorities :: "app \<Rightarrow> nat list" where
  "dispatch_priorities a =
     filter (\<lambda>p. 0 < p) (sort (remdups (map (\<lambda>(_, t). sw_priority t) (software_tasks a))))"

definition assign_interrupts :: "app \<Rightarrow> (nat \<Rightarrow> string option) option" where
  "assign_interrupts a =
     (if length (dispatchers a) < length (dispatch_priorities a) then None
      else Some (map_of (zip (rev (dispatch_priorities a)) (rev (dispatchers a)))))"

definition max_async_prio :: "app \<Rightarrow> nat option" where
  \<comment> \<open>hardware tasks are not allowed to be at priority 0, so that the subtraction does not overflow\<close>
  "max_async_prio a = (case map (\<lambda>(_, t). hw_priority t) (hardware_tasks a) of
     [] \<Rightarrow> None
   | p # ps \<Rightarrow> Some (fold min ps p - 1))"

section \<open>The check for Cortex-M and the macro\<close>

datatype target_error = ExceptionDispatcher string | NotEnough nat nat | FixedPriority string

definition exceptions :: "string list" where
  "exceptions = [''NonMaskableInt'', ''HardFault'', ''MemoryManagement'', ''BusFault'', ''UsageFault'',
     ''SecureFault'', ''SVCall'', ''DebugMonitor'', ''PendSV'', ''SysTick'']"

definition check_target :: "app \<Rightarrow> target_error option" where
  "check_target a =
     (let need = length (remdups (filter (\<lambda>p. 0 < p) (map (\<lambda>(_, t). sw_priority t) (software_tasks a))));
          given = length (dispatchers a)
      in case List.find (\<lambda>d. d \<in> set exceptions) (dispatchers a) of
        Some d \<Rightarrow> Some (ExceptionDispatcher d)
      | None \<Rightarrow>
          if given < need then Some (NotEnough need given)
          else (case List.find (\<lambda>(_, t). binds t \<in> {''NonMaskableInt'', ''HardFault''}) (hardware_tasks a) of
            Some (n, _) \<Rightarrow> Some (FixedPriority n)
          | None \<Rightarrow> None))"

datatype rejection = Unresolved check_error | Unsound "analysis_error list" | Untargeted target_error

definition compile_app :: "app \<Rightarrow> (rejection + analysis \<times> (nat \<Rightarrow> string option)) option" where
  "compile_app a =
     (case check_app a of
        Some e \<Rightarrow> Some (Inl (Unresolved e))
      | None \<Rightarrow> do {
          r \<leftarrow> analyze_app a;
          case r of
            Inl es \<Rightarrow> Some (Inl (Unsound es))
          | Inr an \<Rightarrow> (case check_target a of
              Some e \<Rightarrow> Some (Inl (Untargeted e))
            | None \<Rightarrow> do {
                ints \<leftarrow> assign_interrupts a;
                Some (Inr (an, ints))
              })
        })"

section \<open>Lock free and local resources\<close>

text \<open>The contexts that list a resource, with their priorities.\<close>

definition shared_users :: "app \<Rightarrow> string \<Rightarrow> (string \<times> nat) list" where
  "shared_users a x = map (\<lambda>(t, _, _, p). (t, p)) (filter (\<lambda>(_, tr, _, _). x \<in> set tr) (task_resources_list a))"

definition local_users :: "app \<Rightarrow> string \<Rightarrow> (string \<times> task_local) list" where
  "local_users a x = concat (map (\<lambda>(t, _, ls, _). case map_of ls x of None \<Rightarrow> [] | Some l \<Rightarrow> [(t, l)])
     (task_resources_list a))"

definition clean :: "lock_free_check \<Rightarrow> bool" where
  "clean s \<longleftrightarrow> found s = [] \<and> conflicts s = []"

lemma lock_free_use_clean:
  "clean (lock_free_use a r t p s) \<longleftrightarrow> clean s \<and> map_of (software_tasks a) t = None \<and>
     (case last_use s r of None \<Rightarrow> True | Some (_, q) \<Rightarrow> p = q)"
  by (auto simp: clean_def lock_free_use_def Let_def split: option.splits prod.splits)

lemma lock_free_use_last: "last_use (lock_free_use a r t p s) = (last_use s)(r \<mapsto> (t, p))"
  by (auto simp: lock_free_use_def Let_def split: option.splits)

lemma lock_free_uses_clean:
  "clean (fold (\<lambda>(t, p). lock_free_use a x t p) us s) \<longleftrightarrow> clean s \<and>
     (\<forall>(t, p) \<in> set us. map_of (software_tasks a) t = None \<and>
        p = (case last_use s x of None \<Rightarrow> snd (hd us) | Some (_, q) \<Rightarrow> q))"
proof (induction us arbitrary: s)
  case (Cons u us)
  obtain t p where u: "u = (t, p)" by (cases u)
  show ?case unfolding u
    by (auto simp: Cons.IH lock_free_use_clean lock_free_use_last split: option.splits)
qed simp

lemma lock_free_uses_last:
  "y \<noteq> x \<Longrightarrow> last_use (fold (\<lambda>(t, p). lock_free_use a x t p) us s) y = last_use s y"
  by (induction us arbitrary: s) (auto simp: lock_free_use_last split: prod.splits)

lemma lock_free_task_eq:
  assumes "distinct tr"
  shows "lock_free_task a x (t, tr, ls, p) s = (if x \<in> set tr then lock_free_use a x t p s else s)"
proof -
  have none: "fold (\<lambda>r s. if x = r then lock_free_use a r t p s else s) tr s = s" if "x \<notin> set tr" for tr s
    using that by (induction tr arbitrary: s) auto
  show ?thesis
  proof (cases "x \<in> set tr")
    case True
    then obtain as bs where tr: "tr = as @ x # bs" by (meson split_list)
    then show ?thesis using assms by (auto simp: lock_free_task_def none)
  qed (simp add: lock_free_task_def none)
qed

lemma parsed_lists:
  assumes "parsed a" and "(t, tr, ls, p) \<in> set (task_resources_list a)"
  shows "distinct tr" and "distinct (map fst ls)"
  using assms
  by (fastforce simp: parsed_def task_resources_list_def distinct_keys_def list_all_iff split: option.splits)+

lemma lock_free_resource_eq:
  assumes "\<forall>(t, tr, ls, p) \<in> set ts. distinct tr"
  shows "fold (lock_free_task a x) ts s =
    fold (\<lambda>(t, p). lock_free_use a x t p) (map (\<lambda>(t, _, _, p). (t, p)) (filter (\<lambda>(_, tr, _, _). x \<in> set tr) ts)) s"
  using assms by (induction ts arbitrary: s) (auto simp: lock_free_task_eq)

definition lock_free_sound :: "app \<Rightarrow> bool" where
  \<comment> \<open>no async task uses a lock free resource, and all its users have the same priority\<close>
  "lock_free_sound a \<longleftrightarrow> (\<forall>x \<in> set (lock_free_names a). \<forall>(t, p) \<in> set (shared_users a x).
     map_of (software_tasks a) t = None \<and> (\<forall>(u, q) \<in> set (shared_users a x). p = q))"

lemma all_equal_hd: "(\<forall>x \<in> set xs. f x = f (hd xs)) \<longleftrightarrow> (\<forall>x \<in> set xs. \<forall>y \<in> set xs. f x = f y)"
  by (cases xs) auto

lemma check_lock_free_clean:
  assumes "parsed a"
  shows "clean (check_lock_free a) \<longleftrightarrow> lock_free_sound a"
proof -
  have ts: "\<forall>(t, tr, ls, p) \<in> set (task_resources_list a). distinct tr" using parsed_lists [OF assms] by fastforce
  have ok: "clean (fold (\<lambda>x. fold (lock_free_task a x) (task_resources_list a)) xs s) \<longleftrightarrow> clean s \<and>
      (\<forall>x \<in> set xs. \<forall>(t, p) \<in> set (shared_users a x). map_of (software_tasks a) t = None \<and>
        p = snd (hd (shared_users a x)))"
    if "distinct xs" "\<forall>x \<in> set xs. last_use s x = None" for xs s
    using that
  proof (induction xs arbitrary: s)
    case (Cons x xs)
    have e: "fold (lock_free_task a x) (task_resources_list a) s =
        fold (\<lambda>(t, p). lock_free_use a x t p) (shared_users a x) s" (is "_ = ?s")
      unfolding shared_users_def by (rule lock_free_resource_eq [OF ts])
    have "last_use ?s y = None" if "y \<in> set xs" for y
    proof -
      have "y \<noteq> x" using that Cons.prems by auto
      then show ?thesis using that Cons.prems by (simp add: lock_free_uses_last)
    qed
    then have "\<forall>y \<in> set xs. last_use ?s y = None" by blast
    then show ?case using Cons.IH [of ?s] Cons.prems by (simp add: e lock_free_uses_clean)
  qed simp
  have "distinct (lock_free_names a)"
    using assms by (simp add: parsed_def distinct_keys_def lock_free_names_def distinct_map_filter)
  from ok [OF this, of "\<lparr>found = [], conflicts = [], last_use = Map.empty\<rparr>"]
  have "clean (check_lock_free a) \<longleftrightarrow> (\<forall>x \<in> set (lock_free_names a). \<forall>(t, p) \<in> set (shared_users a x).
      map_of (software_tasks a) t = None \<and> p = snd (hd (shared_users a x)))"
    by (simp add: check_lock_free_def clean_def)
  moreover have "(\<forall>u \<in> set us. case u of (t, p) \<Rightarrow> P t \<and> p = snd (hd us)) \<longleftrightarrow>
      (\<forall>u \<in> set us. case u of (t, p) \<Rightarrow> P t \<and> (\<forall>(v, q) \<in> set us. p = q))" for P and us :: "(string \<times> nat) list"
    using all_equal_hd [of us snd] by (auto simp: case_prod_unfold)
  ultimately show ?thesis unfolding lock_free_sound_def by simp
qed

lemma local_use_clean:
  "collisions (local_use x t l s) = [] \<longleftrightarrow> collisions s = [] \<and> l = External \<and> user_of s x = None"
  by (auto simp: local_use_def Let_def split: task_local.splits option.splits)

lemma local_use_user: "l = External \<Longrightarrow> user_of (local_use x t l s) = (user_of s)(x \<mapsto> t)"
  by (auto simp: local_use_def Let_def split: option.splits)

lemma local_use_other: "y \<noteq> x \<Longrightarrow> user_of (local_use x t l s) y = user_of s y"
  by (auto simp: local_use_def Let_def split: option.splits task_local.splits)

lemma local_use_list_other:
  "y \<noteq> x \<Longrightarrow> user_of (fold (\<lambda>(t, l). local_use x t l) us s) y = user_of s y"
  by (induction us arbitrary: s) (auto simp: local_use_other split: prod.splits)

lemma local_use_list_dirty:
  "collisions s \<noteq> [] \<Longrightarrow> collisions (fold (\<lambda>(t, l). local_use x t l) us s) \<noteq> []"
  by (induction us arbitrary: s) (auto simp: local_use_clean split: prod.splits)

lemma local_use_list_taken:
  "user_of s x \<noteq> None \<Longrightarrow> us \<noteq> [] \<Longrightarrow> collisions (fold (\<lambda>(t, l). local_use x t l) us s) \<noteq> []"
  by (cases us) (auto simp: local_use_clean intro!: local_use_list_dirty split: prod.splits)

lemma local_use_list_clean:
  assumes "user_of s x = None"
  shows "collisions (fold (\<lambda>(t, l). local_use x t l) us s) = [] \<longleftrightarrow>
    collisions s = [] \<and> (us = [] \<or> (\<exists>t. us = [(t, External)]))"
proof (cases us)
  case (Cons u vs)
  obtain t l where u: "u = (t, l)" by (cases u)
  show ?thesis
  proof (cases "collisions s = [] \<and> l = External")
    case True
    then have "user_of (local_use x t l s) x = Some t" by (simp add: local_use_user)
    then show ?thesis using True assms local_use_list_taken [of "local_use x t l s" x vs]
      by (cases "vs = []") (auto simp: Cons u local_use_clean)
  next
    case False
    then show ?thesis using local_use_list_dirty [of "local_use x t l s" x vs]
      by (auto simp: Cons u local_use_clean)
  qed
qed simp

lemma local_uses_eq:
  assumes "distinct (map fst ls)"
  shows "local_uses x (t, tr, ls, p) s =
    fold (\<lambda>(t, l). local_use x t l) (case map_of ls x of None \<Rightarrow> [] | Some l \<Rightarrow> [(t, l)]) s"
proof -
  have none: "fold (\<lambda>(name, l) s. if x = name then local_use name t l s else s) ls s = s" if "x \<notin> fst ` set ls" for ls s
    using that by (induction ls arbitrary: s) auto
  show ?thesis
  proof (cases "map_of ls x")
    case None
    then have "x \<notin> fst ` set ls" by (simp add: map_of_eq_None_iff)
    with None show ?thesis by (simp add: local_uses_def none)
  next
    case (Some l)
    then obtain as bs where ls: "ls = as @ (x, l) # bs" by (meson map_of_SomeD split_list)
    then show ?thesis using assms Some by (auto simp: local_uses_def none)
  qed
qed

lemma local_resource_eq:
  assumes "\<forall>(t, tr, ls, p) \<in> set ts. distinct (map fst ls)"
  shows "fold (local_uses x) ts s = fold (\<lambda>(t, l). local_use x t l)
    (concat (map (\<lambda>(t, _, ls, _). case map_of ls x of None \<Rightarrow> [] | Some l \<Rightarrow> [(t, l)]) ts)) s"
  using assms by (induction ts arbitrary: s) (auto simp: local_uses_eq)

definition locals_unshared :: "app \<Rightarrow> bool" where
  \<comment> \<open>at most one context takes a local resource, and none declares another of its name\<close>
  "locals_unshared a \<longleftrightarrow> (\<forall>x \<in> set (map fst (local_resources a)).
     local_users a x = [] \<or> (\<exists>t. local_users a x = [(t, External)]))"

lemma check_locals_clean:
  assumes "parsed a"
  shows "collisions (check_locals a) = [] \<longleftrightarrow> locals_unshared a"
proof -
  have ts: "\<forall>(t, tr, ls, p) \<in> set (task_resources_list a). distinct (map fst ls)"
    using parsed_lists [OF assms] by fastforce
  have ok: "collisions (fold (\<lambda>x. fold (local_uses x) (task_resources_list a)) xs s) = [] \<longleftrightarrow> collisions s = [] \<and>
      (\<forall>x \<in> set xs. local_users a x = [] \<or> (\<exists>t. local_users a x = [(t, External)]))"
    if "distinct xs" "\<forall>x \<in> set xs. user_of s x = None" for xs s
    using that
  proof (induction xs arbitrary: s)
    case (Cons x xs)
    have e: "fold (local_uses x) (task_resources_list a) s =
        fold (\<lambda>(t, l). local_use x t l) (local_users a x) s" (is "_ = ?s")
      unfolding local_users_def by (rule local_resource_eq [OF ts])
    have "user_of ?s y = None" if "y \<in> set xs" for y
    proof -
      have "y \<noteq> x" using that Cons.prems by auto
      then show ?thesis using that Cons.prems by (simp add: local_use_list_other)
    qed
    then have "\<forall>y \<in> set xs. user_of ?s y = None" by blast
    then show ?case using Cons.IH [of ?s] Cons.prems by (simp add: e local_use_list_clean)
  qed simp
  have "distinct (map fst (local_resources a))" using assms by (simp add: parsed_def distinct_keys_def)
  from ok [OF this, of "\<lparr>collisions = [], user_of = Map.empty\<rparr>"]
  show ?thesis by (simp add: check_locals_def locals_unshared_def)
qed

lemma analysis_errors_Nil:
  assumes "parsed a"
  shows "analysis_errors a = [] \<longleftrightarrow> lock_free_sound a \<and> locals_unshared a \<and> zero_priority_tasks a = []"
  using check_lock_free_clean [OF assms] check_locals_clean [OF assms]
  by (auto simp: analysis_errors_def Let_def clean_def)

section \<open>Ceilings\<close>

text \<open>The priorities of the accesses of a resource, and the ownership that they make.\<close>

definition priorities_of :: "(nat option \<times> string \<times> access) list \<Rightarrow> string \<Rightarrow> nat list" where
  "priorities_of xs x = List.map_filter (\<lambda>(p, r, _). if r = x then p else None) xs"

definition ownership_of :: "nat list \<Rightarrow> ownership option" where
  "ownership_of ps =
     (if ps = [] then None
      else if length ps = 1 then Some (Owned (hd ps))
      else if list_all (\<lambda>p. p = hd ps) ps then Some (CoOwned (hd ps))
      else Some (Contended (Max (set ps))))"

definition next_owner :: "ownership option \<Rightarrow> nat \<Rightarrow> ownership option" where
  "next_owner w p = (case w of
     None \<Rightarrow> Some (Owned p)
   | Some ow \<Rightarrow>
       if p \<noteq> ceiling ow then Some (Contended (max (ceiling ow) p))
       else (case ow of Owned _ \<Rightarrow> Some (CoOwned p) | _ \<Rightarrow> Some ow))"

lemma Max_all_equal: "ps \<noteq> [] \<Longrightarrow> list_all (\<lambda>p. p = q) ps \<Longrightarrow> Max (set ps) = q"
proof -
  assume "ps \<noteq> []" "list_all (\<lambda>p. p = q) ps"
  then have "set ps = {q}" by (cases ps) (auto simp: list_all_iff)
  then show "Max (set ps) = q" by simp
qed

lemma ceiling_ownership_of: "ownership_of ps = Some ow \<Longrightarrow> ceiling ow = Max (set ps)"
  by (auto simp: ownership_of_def length_Suc_conv Max_all_equal split: if_splits)

lemma ownership_of_snoc: "ownership_of (ps @ [p]) = next_owner (ownership_of ps) p"
proof (cases ps rule: remdups_adj.cases)
  case (3 q q' qs)
  let ?m = "Max (set ps)"
  have ne: "set ps \<noteq> {}" using 3 by simp
  have "Max (insert p (set ps)) = max p ?m" by (rule Max_insert [OF _ ne]) simp
  then have m: "Max (set (ps @ [p])) = max ?m p" by (simp add: max.commute)
  have le: "r \<le> ?m" if "r \<in> set ps" for r using that by simp
  show ?thesis
  proof (cases "list_all (\<lambda>r. r = q) ps")
    case True
    then have "?m = q" using 3 by (intro Max_all_equal) auto
    then show ?thesis using True 3 m by (auto simp: ownership_of_def next_owner_def)
  next
    case False
    then have "?m \<noteq> p \<or> ?m = max ?m p" by simp
    then show ?thesis using False 3 m by (auto simp: ownership_of_def next_owner_def)
  qed
qed (auto simp: ownership_of_def next_owner_def max.commute)

lemma ownership_of_foldl: "foldl next_owner None ps = ownership_of ps"
  by (induction ps rule: rev_induct) (simp_all add: ownership_of_snoc, simp add: ownership_of_def)

lemma own_ownerships:
  "ownerships (own name acc ty p s) x = (if x = name then next_owner (ownerships s name) p else ownerships s x)"
  by (auto simp: own_def next_owner_def split: option.splits ownership.splits)

lemma place_ownerships:
  assumes "place a xs s = Some s'"
  shows "ownerships s' x = foldl next_owner (ownerships s x) (priorities_of xs x)"
  using assms
proof (induction xs arbitrary: s)
  case (Cons y ys)
  obtain prio name acc where y: "y = (prio, name, acc)" by (cases y)
  show ?case using Cons.prems
    by (auto simp: y priorities_of_def map_filter_simps own_ownerships Cons.IH split: Option.bind_splits option.splits
        dest!: Cons.IH)
qed (simp add: priorities_of_def map_filter_simps)

section \<open>The macro does not panic\<close>

lemma place_total: "\<forall>(p, r, acc) \<in> set xs. map_of (shared_resources a) r \<noteq> None \<Longrightarrow> \<exists>s'. place a xs s = Some s'"
  by (induction xs arbitrary: s) (auto simp: Let_def)

lemma distinct_dispatch_priorities: "distinct (dispatch_priorities a)"
  by (simp add: dispatch_priorities_def)

lemma set_dispatch_priorities:
  "set (dispatch_priorities a) = {p. 0 < p \<and> (\<exists>(_, t) \<in> set (software_tasks a). sw_priority t = p)}"
  by (force simp: dispatch_priorities_def)

lemma needed_dispatchers:
  "length (remdups (filter (\<lambda>p. 0 < p) (map (\<lambda>(_, t). sw_priority t) (software_tasks a)))) =
    length (dispatch_priorities a)"
proof -
  have "set (filter (\<lambda>p. 0 < p) (map (\<lambda>(_, t). sw_priority t) (software_tasks a))) = set (dispatch_priorities a)"
    by (auto simp: dispatch_priorities_def)
  then show ?thesis by (simp add: length_remdups_card_conv distinct_card [OF distinct_dispatch_priorities])
qed

lemma check_target_iff: "check_target a = None \<longleftrightarrow>
    list_all (\<lambda>d. d \<notin> set exceptions) (dispatchers a) \<and> length (dispatch_priorities a) \<le> length (dispatchers a) \<and>
    list_all (\<lambda>(_, t). binds t \<notin> {''NonMaskableInt'', ''HardFault''}) (hardware_tasks a)"
proof -
  have "List.find (\<lambda>(_, t). binds t \<in> {''NonMaskableInt'', ''HardFault''}) (hardware_tasks a) = None \<longleftrightarrow>
      list_all (\<lambda>(_, t). binds t \<notin> {''NonMaskableInt'', ''HardFault''}) (hardware_tasks a)"
    unfolding find_None_set list_all_iff by fast
  moreover have "List.find (\<lambda>d. d \<in> set exceptions) (dispatchers a) = None \<longleftrightarrow>
      list_all (\<lambda>d. d \<notin> set exceptions) (dispatchers a)"
    unfolding find_None_set list_all_iff by fast
  ultimately show ?thesis unfolding check_target_def needed_dispatchers Let_def
    by (simp add: case_error_None not_less split: prod.split)
qed

lemma assign_total: "check_target a = None \<Longrightarrow> \<exists>ints. assign_interrupts a = Some ints"
  unfolding check_target_iff by (simp add: assign_interrupts_def)

lemma analyze_app_accepts:
  assumes "declared a"
  shows "if analysis_errors a = [] then \<exists>an. analyze_app a = Some (Inr an) else \<exists>es. analyze_app a = Some (Inl es)"
proof -
  have "\<forall>(p, r, acc) \<in> set (shared_resource_accesses a). map_of (shared_resources a) r \<noteq> None"
    using assms by (simp add: declared_def list_all_iff)
  from place_total [OF this, of "\<lparr>used_shared = [], ownerships = Map.empty, sync_types = []\<rparr>"]
  show ?thesis by (auto simp: analyze_app_def split: list.splits)
qed

lemma accepted_parts:
  assumes "compile_app a = Some (Inr (an, ints))"
  shows "check_app a = None" and "analysis_errors a = []" and "check_target a = None"
    and "assign_interrupts a = Some ints" and "analyze_app a = Some (Inr an)"
  using assms
  by (auto simp: compile_app_def analyze_app_def split: option.splits sum.splits Option.bind_splits list.splits)

lemma compile_outcome: "compile_app a \<noteq> None \<and>
    ((\<exists>r. compile_app a = Some (Inr r)) \<longleftrightarrow> check_app a = None \<and> analysis_errors a = [] \<and> check_target a = None)"
proof (cases "check_app a")
  case None
  then have d: "declared a" by (simp add: check_app_iff)
  show ?thesis
  proof (cases "analysis_errors a = []")
    case True
    then obtain an where an: "analyze_app a = Some (Inr an)" using analyze_app_accepts [OF d] by auto
    show ?thesis
    proof (cases "check_target a")
      case n: None
      then obtain ints where "assign_interrupts a = Some ints" using assign_total by blast
      then show ?thesis using None True an n by (simp add: compile_app_def)
    next
      case (Some e)
      then show ?thesis using None True an by (simp add: compile_app_def)
    qed
  next
    case False
    then obtain es where "analyze_app a = Some (Inl es)" using analyze_app_accepts [OF d] by auto
    then show ?thesis using None False by (simp add: compile_app_def)
  qed
next
  case (Some e)
  then show ?thesis by (simp add: compile_app_def)
qed

lemma placed:
  assumes "analyze_app a = Some (Inr an)"
  obtains s where "place a (shared_resource_accesses a)
      \<lparr>used_shared = [], ownerships = Map.empty, sync_types = []\<rparr> = Some s"
    and "ownerships an = ownerships s" and "sync_types an = sync_types s"
    and "send_types an = index_set (needed_send a (ownerships s))"
  using assms by (auto simp: analyze_app_def split: option.splits Option.bind_splits list.splits)

section \<open>Types\<close>

lemma own_sync:
  "set (sync_types s) \<subseteq> set (sync_types (own name acc ty p s))"
  by (auto simp: own_def split: option.splits ownership.splits)

lemma own_contended:
  assumes "ownerships (own name Shared ty p s) name = Some (Contended c)"
    and "\<And>c. ownerships s name = Some (Contended c) \<Longrightarrow> ty \<in> set (sync_types s)"
  shows "ty \<in> set (sync_types (own name Shared ty p s))"
  using assms by (auto simp: own_def split: option.splits ownership.splits if_splits)

lemma place_sync:
  assumes "place a xs s = Some s'"
    and "\<forall>(p, r, acc) \<in> set xs. r = x \<longrightarrow> acc = Shared" and "map_of (shared_resources a) x = Some res"
    and "\<And>c. ownerships s x = Some (Contended c) \<Longrightarrow> resource_type res \<in> set (sync_types s)"
    and "ownerships s' x = Some (Contended c)"
  shows "resource_type res \<in> set (sync_types s')"
  using assms
proof (induction xs arbitrary: s)
  case (Cons y ys)
  obtain prio name acc where y: "y = (prio, name, acc)" by (cases y)
  obtain r where r: "map_of (shared_resources a) name = Some r" using Cons.prems(1)
    by (auto simp: y split: Option.bind_splits)
  define t where "t = s\<lparr>used_shared := index_insert name (used_shared s)\<rparr>"
  define u where "u = (case prio of None \<Rightarrow> t | Some p \<Rightarrow> own name acc (resource_type r) p t)"
  have p: "place a ys u = Some s'" using Cons.prems(1) unfolding u_def t_def by (simp add: y r Let_def)
  have "resource_type res \<in> set (sync_types u)" if "ownerships u x = Some (Contended d)" for d
  proof (cases "prio = None \<or> name \<noteq> x")
    case True
    then have "ownerships s x = Some (Contended d)"
      using that by (auto simp: u_def t_def own_ownerships split: option.splits)
    then have "resource_type res \<in> set (sync_types s)" by (rule Cons.prems(4))
    then show ?thesis using own_sync [of t name acc "resource_type r"]
      by (auto simp: u_def t_def split: option.splits)
  next
    case False
    then obtain q where q: "prio = Some q" "name = x" by auto
    have "acc = Shared" "r = res" using Cons.prems(2,3) q r by (auto simp: y)
    then show ?thesis using that Cons.prems(4) q own_contended [of x "resource_type res" q t d]
      by (auto simp: u_def t_def)
  qed
  then show ?case using Cons.IH [OF p] Cons.prems by simp
qed simp

lemma accepted_ownerships:
  assumes "compile_app a = Some (Inr (an, ints))"
  shows "ownerships an x = ownership_of (priorities_of (shared_resource_accesses a) x)"
proof -
  obtain s where s: "place a (shared_resource_accesses a)
      \<lparr>used_shared = [], ownerships = Map.empty, sync_types = []\<rparr> = Some s" "ownerships an = ownerships s"
    using placed [OF accepted_parts(5) [OF assms]] by blast
  from place_ownerships [OF s(1)] show ?thesis by (simp add: s(2) ownership_of_foldl)
qed

lemma priority_member:
  "p \<in> set (priorities_of xs x) \<longleftrightarrow> (\<exists>acc. (Some p, x, acc) \<in> set xs)"
  by (induction xs) (auto simp: priorities_of_def map_filter_simps split: option.splits if_splits)

lemma ownership_of_None: "ownership_of ps = None \<longleftrightarrow> ps = []"
  by (simp add: ownership_of_def)

lemma ownership_of_differ:
  assumes "p \<in> set ps" and "q \<in> set ps" and "p \<noteq> q"
  shows "ownership_of ps = Some (Contended (Max (set ps)))"
proof -
  have "length ps \<noteq> 1" using assms by (auto simp: length_Suc_conv)
  moreover have "p \<noteq> hd ps \<or> q \<noteq> hd ps" using assms(3) by auto
  then have "\<not> list_all (\<lambda>p. p = hd ps) ps" using assms(1,2) by (auto simp: list_all_iff)
  ultimately show ?thesis using assms by (auto simp: ownership_of_def)
qed

lemma accepted_ceiling:
  assumes "compile_app a = Some (Inr (an, ints))" and "(Some p, x, acc) \<in> set (shared_resource_accesses a)"
  shows "\<exists>w. ownerships an x = Some w \<and> p \<le> ceiling w"
proof -
  have p: "p \<in> set (priorities_of (shared_resource_accesses a) x)" using assms(2) by (auto simp: priority_member)
  then obtain w where w: "ownership_of (priorities_of (shared_resource_accesses a) x) = Some w"
    by (cases "ownership_of (priorities_of (shared_resource_accesses a) x)") (auto simp: ownership_of_None)
  show ?thesis using accepted_ownerships [OF assms(1), of x] ceiling_ownership_of [OF w] p w by simp
qed

lemma map_the_zip:
  "distinct ks \<Longrightarrow> length ks \<le> length vs \<Longrightarrow> map (\<lambda>k. the (map_of (zip ks vs) k)) ks = take (length ks) vs"
proof (induction ks arbitrary: vs)
  case (Cons k ks)
  then obtain v ws where vs: "vs = v # ws" by (cases vs) auto
  have eq: "map (\<lambda>i. the (map_of (zip (k # ks) vs) i)) ks = map (\<lambda>i. the (map_of (zip ks ws) i)) ks"
    using Cons.prems by (intro map_cong) (auto simp: vs)
  have "map (\<lambda>i. the (map_of (zip ks ws) i)) ks = take (length ks) ws" using Cons by (simp add: vs)
  then show ?case unfolding list.map eq by (simp add: vs)
qed simp

section \<open>Promises\<close>

definition example_app :: app where
  "example_app =
     \<lparr>init = \<lparr>init_name = ''init'', init_locals = [(''q'', Declared ''Queue'')]\<rparr>,
      idle = Some \<lparr>idle_name = ''idle'', idle_shared = [(''key'', Shared), (''count'', Exclusive)], idle_locals = [(''led'', External)]\<rparr>,
      shared_resources = [(''key'', \<lparr>resource_type = ''Key'', lock_free = False\<rparr>),
        (''count'', \<lparr>resource_type = ''u32'', lock_free = False\<rparr>),
        (''buf'', \<lparr>resource_type = ''Buf'', lock_free = True\<rparr>)],
      local_resources = [(''led'', ''Led'')],
      hardware_tasks = [(''tick'', \<lparr>binds = ''TIM2'', hw_priority = 2,
          hw_shared = [(''count'', Exclusive), (''buf'', Exclusive)], hw_locals = []\<rparr>),
        (''rx'', \<lparr>binds = ''USART1'', hw_priority = 2, hw_shared = [(''buf'', Exclusive)], hw_locals = []\<rparr>)],
      software_tasks = [(''log'', \<lparr>sw_priority = 1, sw_shared = [(''key'', Shared)], sw_locals = [],
          local_task = False, input_types = [''Event'']\<rparr>),
        (''alarm'', \<lparr>sw_priority = 3, sw_shared = [(''count'', Exclusive)], sw_locals = [], local_task = False,
          input_types = []\<rparr>)],
      dispatchers = [''SPI1'', ''SPI2'', ''SPI3'']\<rparr>"

lemma example_parsed: "parsed example_app" by code_simp

text \<open>
  C5: For an application that has been parsed, on Cortex-M: the stages of the macro from the first check up to
  the generation of code do not panic, and they accept it exactly when all resources are declared and
  accessed in one way, no dispatcher is bound to a task, lock free resources are used only by tasks of
  one priority that are not async, a local resource has one user and no namesake, no async task of
  priority 0 competes with \<open>idle\<close>, there are enough dispatchers and no vector is one the hardware reserves.
\<close>

theorem application_accepted:
  assumes "parsed a"
  shows "compile_app a \<noteq> None \<and>
    ((\<exists>r. compile_app a = Some (Inr r)) \<longleftrightarrow>
      declared a \<and> unmixed a \<and> unbound a \<and> lock_free_sound a \<and> locals_unshared a \<and> zero_priority_tasks a = [] \<and>
      list_all (\<lambda>d. d \<notin> set exceptions) (dispatchers a) \<and> length (dispatch_priorities a) \<le> length (dispatchers a) \<and>
      list_all (\<lambda>(_, t). binds t \<notin> {''NonMaskableInt'', ''HardFault''}) (hardware_tasks a))"
  using compile_outcome [of a]
  unfolding check_app_iff analysis_errors_Nil [OF assms] check_target_iff by blast

theorem application_accepted_witness:
  "compile_app example_app \<noteq> None \<and> (\<exists>r. compile_app example_app = Some (Inr r))"
proof -
  have "declared example_app" "unmixed example_app" "unbound example_app" "lock_free_sound example_app"
    "zero_priority_tasks example_app = []"
    "list_all (\<lambda>d. d \<notin> set exceptions) (dispatchers example_app)"
    "length (dispatch_priorities example_app) \<le> length (dispatchers example_app)"
    "list_all (\<lambda>(_, t). binds t \<notin> {''NonMaskableInt'', ''HardFault''}) (hardware_tasks example_app)"
    by code_simp+
  moreover have "locals_unshared example_app" by (simp add: locals_unshared_def local_users_def example_app_def task_resources_list_def)
  ultimately show ?thesis using application_accepted [OF example_parsed] by blast
qed

text \<open>
  C8: The ownership of a shared resource is what its accesses make it: owned when one task accesses it,
  co-owned when all its tasks have the same priority, else contended; and its ceiling is the highest
  priority of these tasks.
\<close>

theorem ceilings_computed:
  assumes "compile_app a = Some (Inr (an, ints))"
  shows "(let ps = priorities_of (shared_resource_accesses a) x
    in ownerships an x = ownership_of ps \<and>
      (case ownerships an x of None \<Rightarrow> ps = [] | Some w \<Rightarrow> ceiling w = Max (set ps)))"
  using accepted_ownerships [OF assms, of x]
  by (auto simp: Let_def ownership_of_None ceiling_ownership_of split: option.splits)

lemma example_accepted: "\<exists>an ints. compile_app example_app = Some (Inr (an, ints))"
proof -
  have "analysis_errors example_app = []" by code_simp
  moreover have "check_app example_app = None" "check_target example_app = None" by code_simp+
  ultimately show ?thesis using compile_outcome [of example_app] by auto
qed

theorem ceilings_computed_witness:
  "\<exists>an ints. compile_app example_app = Some (Inr (an, ints)) \<and> ownerships an ''count'' = Some (Contended 3)"
proof -
  obtain an ints where a: "compile_app example_app = Some (Inr (an, ints))" using example_accepted by blast
  have "ownership_of (priorities_of (shared_resource_accesses example_app) ''count'') = Some (Contended 3)" by code_simp
  then show ?thesis using ceilings_computed [OF a, of "''count''"] a by (auto simp: Let_def)
qed





text \<open>
  C32: Every priority of async tasks above 0, and no other, has a dispatcher, and the vectors of all
  dispatchers and hardware tasks are different.
\<close>

theorem interrupts_assigned:
  assumes "parsed a" and "compile_app a = Some (Inr (an, ints))"
  shows "dom ints = {p. 0 < p \<and> (\<exists>(_, t) \<in> set (software_tasks a). sw_priority t = p)} \<and>
    ran ints \<subseteq> set (dispatchers a) \<and>
    distinct (map (\<lambda>(_, t). binds t) (hardware_tasks a) @ map (\<lambda>p. the (ints p)) (dispatch_priorities a))"
proof -
  let ?ks = "rev (dispatch_priorities a)" and ?vs = "rev (dispatchers a)"
  have ints: "ints = map_of (zip ?ks ?vs)" and le: "length ?ks \<le> length ?vs"
    using accepted_parts(4) [OF assms(2)] by (auto simp: assign_interrupts_def split: if_splits)
  have d: "distinct ?ks" "distinct ?vs" using assms(1) distinct_dispatch_priorities by (simp_all add: parsed_def)
  have the: "map (\<lambda>k. the (ints k)) ?ks = take (length ?ks) ?vs" unfolding ints by (rule map_the_zip [OF d(1) le])
  then have vals: "set (map (\<lambda>p. the (ints p)) (dispatch_priorities a)) \<subseteq> set (dispatchers a)"
    using set_take_subset [of "length ?ks" ?vs] by (metis rev_map set_rev)
  have "distinct (map (\<lambda>k. the (ints k)) ?ks)" unfolding the using d(2) by (rule distinct_take)
  then have "distinct (map (\<lambda>p. the (ints p)) (dispatch_priorities a))" by (simp add: rev_map [symmetric])
  moreover have "set (map (\<lambda>(_, t). binds t) (hardware_tasks a)) \<inter>
      set (map (\<lambda>p. the (ints p)) (dispatch_priorities a)) = {}"
  proof -
    have "list_all (\<lambda>(_, t). binds t \<notin> set (dispatchers a)) (hardware_tasks a)"
      using accepted_parts(1) [OF assms(2)] by (simp add: check_app_iff unbound_def)
    then have "set (map (\<lambda>(_, t). binds t) (hardware_tasks a)) \<inter> set (dispatchers a) = {}"
      by (auto simp: list_all_iff)
    with vals show ?thesis by blast
  qed
  moreover have "distinct (map (\<lambda>(_, t). binds t) (hardware_tasks a))" using assms(1) by (simp add: parsed_def)
  moreover have "dom ints = set (dispatch_priorities a)"
    using le by (simp add: ints dom_map_of_conv_image_fst set_zip_leftD map_fst_zip_take flip: set_map)
  moreover have "ran ints \<subseteq> set (dispatchers a)"
    unfolding ints by (auto simp: ran_def dest!: map_of_SomeD set_zip_rightD)
  ultimately show ?thesis by (simp only: distinct_append set_dispatch_priorities)
qed

theorem interrupts_assigned_witness:
  "\<exists>an ints. compile_app example_app = Some (Inr (an, ints)) \<and> dom ints = {1, 3}"
proof -
  obtain an ints where a: "compile_app example_app = Some (Inr (an, ints))" using example_accepted by blast
  have "{p. 0 < p \<and> (\<exists>(_, t) \<in> set (software_tasks example_app). sw_priority t = p)} = {1, 3}"
    by (auto simp: example_app_def)
  with interrupts_assigned [OF example_parsed a] a show ?thesis by auto
qed

end
