(* ===== verification/Rtic_Ceiling.thy ===== *)
theory Rtic_Ceiling
  imports Rtic_Analysis
begin

text \<open>
  The processor that runs an application: contexts preempt each other and lock shared resources. A lock
  is a call of \<open>Mutex::lock\<close> (\<open>codegen/shared_resources.rs\<close>, \<open>codegen/bindings/cortex.rs\<close>) with a closure; its
  beginning and its end are two steps, between which anything may happen. How a back end masks interrupts
  is the interface \<open>system_ceiling\<close>; what follows from it is proved here once for all of them.
\<close>

section \<open>Contexts\<close>

text \<open>
  The code in \<open>main\<close> after \<open>init\<close> (\<open>codegen/main.rs\<close>) is \<open>idle\<close>, or the loop that polls the async tasks of
  priority 0; a hardware task has its interrupt; a dispatcher polls the async tasks of its priority one
  after the other (\<open>codegen/async_dispatchers.rs\<close>).
\<close>

datatype context_of = Main | Task string | Dispatcher nat

definition polled_shared :: "app \<Rightarrow> nat \<Rightarrow> shared_list" where
  "polled_shared a p = concat (map (\<lambda>(_, t). if sw_priority t = p then sw_shared t else []) (software_tasks a))"

primrec context_shared :: "app \<Rightarrow> context_of \<Rightarrow> shared_list" where
  "context_shared a Main = (case idle a of Some i \<Rightarrow> idle_shared i | None \<Rightarrow> polled_shared a 0)"
| "context_shared a (Task n) = (case map_of (hardware_tasks a) n of Some t \<Rightarrow> hw_shared t | None \<Rightarrow> [])"
| "context_shared a (Dispatcher p) = polled_shared a p"

primrec context_priority :: "app \<Rightarrow> context_of \<Rightarrow> nat" where
  "context_priority a Main = 0"
| "context_priority a (Task n) = (case map_of (hardware_tasks a) n of Some t \<Rightarrow> hw_priority t | None \<Rightarrow> 0)"
| "context_priority a (Dispatcher p) = p"

primrec is_interrupt :: "app \<Rightarrow> context_of \<Rightarrow> bool" where
  "is_interrupt a Main = False"
| "is_interrupt a (Task n) = (map_of (hardware_tasks a) n \<noteq> None)"
| "is_interrupt a (Dispatcher p) = (p \<in> set (dispatch_priorities a))"

definition is_lock_free :: "app \<Rightarrow> string \<Rightarrow> bool" where
  "is_lock_free a x = (case map_of (shared_resources a) x of Some r \<Rightarrow> lock_free r | None \<Rightarrow> False)"

definition resource_ceiling :: "analysis \<Rightarrow> string \<Rightarrow> nat" where
  "resource_ceiling an x = (case ownerships an x of Some w \<Rightarrow> ceiling w | None \<Rightarrow> 0)"

section \<open>The processor\<close>

text \<open>
  What the code of a back end does with the mask registers: the beginning of a lock, its end (with what
  was read at the beginning), and the end of \<open>run\<close> (with the priority and what was read at its beginning);
  and what the hardware does with them: whether it lets an interrupt through.
\<close>

record 'r backend =
  enter_lock :: "nat \<Rightarrow> 'r \<Rightarrow> 'r"
  exit_lock :: "nat \<Rightarrow> 'r \<Rightarrow> 'r \<Rightarrow> 'r"
  exit_run :: "nat \<Rightarrow> 'r \<Rightarrow> 'r \<Rightarrow> 'r"
  lets_through :: "'r \<Rightarrow> context_of \<Rightarrow> bool"

text \<open>A context that has begun and not ended, with its locks, the last first.\<close>

record 'r activation =
  running :: context_of
  locks :: "(string \<times> 'r) list"
  entered_with :: 'r

record 'r processor =
  registers :: 'r
  activations :: "'r activation list"  \<comment> \<open>the running one first\<close>

definition start_main :: "'r \<Rightarrow> 'r processor" where
  "start_main r = \<lparr>registers = r, activations = [\<lparr>running = Main, locks = [], entered_with = r\<rparr>]\<rparr>"

definition begin_lock :: "'r backend \<Rightarrow> (string \<Rightarrow> nat) \<Rightarrow> string \<Rightarrow> 'r processor \<Rightarrow> 'r processor" where
  "begin_lock b ceil x s = (case activations s of
     [] \<Rightarrow> s
   | t # ts \<Rightarrow> \<lparr>registers = enter_lock b (ceil x) (registers s),
       activations = t\<lparr>locks := (x, registers s) # locks t\<rparr> # ts\<rparr>)"

definition end_lock :: "'r backend \<Rightarrow> (string \<Rightarrow> nat) \<Rightarrow> 'r processor \<Rightarrow> 'r processor" where
  "end_lock b ceil s = (case activations s of
     [] \<Rightarrow> s
   | t # ts \<Rightarrow> (case locks t of
       [] \<Rightarrow> s
     | (x, r) # ls \<Rightarrow> \<lparr>registers = exit_lock b (ceil x) r (registers s), activations = t\<lparr>locks := ls\<rparr> # ts\<rparr>))"

definition take_interrupt :: "context_of \<Rightarrow> 'r processor \<Rightarrow> 'r processor" where
  "take_interrupt c s =
     s\<lparr>activations := \<lparr>running = c, locks = [], entered_with = registers s\<rparr> # activations s\<rparr>"

definition end_interrupt :: "'r backend \<Rightarrow> app \<Rightarrow> 'r processor \<Rightarrow> 'r processor" where
  "end_interrupt b a s = (case activations s of
     [] \<Rightarrow> s
   | t # ts \<Rightarrow> \<lparr>registers = exit_run b (context_priority a (running t)) (entered_with t) (registers s),
       activations = ts\<rparr>)"

text \<open>
  The hardware takes an interrupt of a higher priority than the running context when the back end lets it
  through. A context locks what it lists as exclusive and has not locked already, since \<open>lock\<close> borrows
  the proxy; locks end in the reverse order of their beginnings, since closures nest.
\<close>

inductive processor_step :: "'r backend \<Rightarrow> app \<Rightarrow> (string \<Rightarrow> nat) \<Rightarrow> 'r processor \<Rightarrow> 'r processor \<Rightarrow> bool"
  for b a ceil where
  step_interrupt: "processor_step b a ceil s (take_interrupt c s)"
    if "is_interrupt a c" "activations s = t # ts" "context_priority a (running t) < context_priority a c"
      "lets_through b (registers s) c"
| step_lock: "processor_step b a ceil s (begin_lock b ceil x s)"
    if "activations s = t # ts" "(x, Exclusive) \<in> set (context_shared a (running t))" "\<not> is_lock_free a x"
      "x \<notin> fst ` set (locks t)"
| step_unlock: "processor_step b a ceil s (end_lock b ceil s)"
    if "activations s = t # ts" "locks t \<noteq> []"
| step_return: "processor_step b a ceil s (end_interrupt b a s)"
    if "activations s = t # u # ts" "locks t = []"

text \<open>
  What an activation can read or write: what it has locked, and what it has got by reference, which is
  what is lock free or shared (\<open>codegen/shared_resources_struct.rs\<close>).
\<close>

definition touches :: "app \<Rightarrow> 'r activation \<Rightarrow> string \<Rightarrow> access \<Rightarrow> bool" where
  "touches a t x acc \<longleftrightarrow> acc = Exclusive \<and> x \<in> fst ` set (locks t) \<or>
     (x, acc) \<in> set (context_shared a (running t)) \<and> (is_lock_free a x \<or> acc = Shared)"

definition no_conflict :: "app \<Rightarrow> 'r processor \<Rightarrow> bool" where
  \<comment> \<open>what two activations touch, both only read\<close>
  "no_conflict a s \<longleftrightarrow> (\<forall>i j x acc acc'. i < j \<and> j < length (activations s) \<and>
     touches a (activations s ! i) x acc \<and> touches a (activations s ! j) x acc' \<longrightarrow> acc = Shared \<and> acc' = Shared)"

section \<open>Nesting\<close>

text \<open>The registers that the locks of an activation, and those of all activations, make.\<close>

primrec locks_level :: "'r backend \<Rightarrow> (string \<Rightarrow> nat) \<Rightarrow> (string \<times> 'r) list \<Rightarrow> 'r \<Rightarrow> 'r" where
  "locks_level b ceil [] r = r"
| "locks_level b ceil (l # ls) r = enter_lock b (ceil (fst l)) (locks_level b ceil ls r)"

primrec level :: "'r backend \<Rightarrow> (string \<Rightarrow> nat) \<Rightarrow> 'r \<Rightarrow> 'r activation list \<Rightarrow> 'r" where
  "level b ceil r0 [] = r0"
| "level b ceil r0 (t # ts) = locks_level b ceil (locks t) (level b ceil r0 ts)"

primrec locks_saved :: "'r backend \<Rightarrow> (string \<Rightarrow> nat) \<Rightarrow> (string \<times> 'r) list \<Rightarrow> 'r \<Rightarrow> bool" where
  "locks_saved b ceil [] r = True"
| "locks_saved b ceil (l # ls) r \<longleftrightarrow> snd l = locks_level b ceil ls r \<and> locks_saved b ceil ls r"

primrec nested :: "'r backend \<Rightarrow> app \<Rightarrow> (string \<Rightarrow> nat) \<Rightarrow> 'r \<Rightarrow> 'r activation list \<Rightarrow> bool" where
  "nested b a ceil r0 [] = True"
| "nested b a ceil r0 (t # ts) \<longleftrightarrow> nested b a ceil r0 ts \<and>
     locks_saved b ceil (locks t) (level b ceil r0 ts) \<and>
     (\<forall>x \<in> fst ` set (locks t). (x, Exclusive) \<in> set (context_shared a (running t)) \<and> \<not> is_lock_free a x) \<and>
     (if ts = [] then running t = Main
      else is_interrupt a (running t) \<and> entered_with t = level b ceil r0 ts \<and>
        lets_through b (level b ceil r0 ts) (running t) \<and>
        (\<forall>u \<in> set ts. context_priority a (running u) < context_priority a (running t)))"

definition processor_ok :: "'r backend \<Rightarrow> app \<Rightarrow> (string \<Rightarrow> nat) \<Rightarrow> 'r \<Rightarrow> 'r processor \<Rightarrow> bool" where
  "processor_ok b a ceil r0 s \<longleftrightarrow>
     activations s \<noteq> [] \<and> nested b a ceil r0 (activations s) \<and> registers s = level b ceil r0 (activations s)"

section \<open>The interface of the back ends\<close>

text \<open>
  \<open>good\<close> are the states of the registers that the code makes, up to \<open>limit\<close> the ceilings it is used with,
  and \<open>maskable\<close> the interrupts a lock can keep out. A lock keeps out what it kept out before and what has
  at most its ceiling as priority; its end, and the end of \<open>run\<close>, give back what was there.
\<close>

locale system_ceiling =
  fixes b :: "'r backend"
    and prio :: "context_of \<Rightarrow> nat"
    and maskable :: "context_of \<Rightarrow> bool"
    and limit :: nat
    and good :: "'r \<Rightarrow> bool"
  assumes good_enter: "good r \<Longrightarrow> c \<le> limit \<Longrightarrow> good (enter_lock b c r)"
    and enter_keeps: "good r \<Longrightarrow> c \<le> limit \<Longrightarrow> lets_through b (enter_lock b c r) i \<Longrightarrow> lets_through b r i"
    and enter_masks: "good r \<Longrightarrow> c \<le> limit \<Longrightarrow> lets_through b (enter_lock b c r) i \<Longrightarrow> maskable i \<Longrightarrow> c < prio i"
    and exit_enter: "good r \<Longrightarrow> c \<le> limit \<Longrightarrow> exit_lock b c r (enter_lock b c r) = r"
    and exit_run_same: "good r \<Longrightarrow> lets_through b r i \<Longrightarrow> 0 < prio i \<Longrightarrow> exit_run b (prio i) r r = r"
begin

lemma good_locks:
  assumes "good r" and "\<forall>x. ceil x \<le> limit"
  shows "good (locks_level b ceil ls r)"
  using assms by (induction ls) (auto intro: good_enter)

lemma good_level:
  assumes "good r0" and "\<forall>x. ceil x \<le> limit"
  shows "good (level b ceil r0 ts)"
  using assms by (induction ts) (auto intro: good_locks)

lemma lets_locks:
  assumes "good r" and "\<forall>x. ceil x \<le> limit" and "lets_through b (locks_level b ceil ls r) i"
  shows "lets_through b r i \<and> (maskable i \<longrightarrow> (\<forall>x \<in> fst ` set ls. ceil x < prio i))"
  using assms
proof (induction ls)
  case (Cons l ls)
  have g: "good (locks_level b ceil ls r)" using Cons.prems by (intro good_locks) auto
  have c: "ceil (fst l) \<le> limit" and l: "lets_through b (enter_lock b (ceil (fst l)) (locks_level b ceil ls r)) i"
    using Cons.prems by simp_all
  have "lets_through b (locks_level b ceil ls r) i" by (rule enter_keeps [OF g c l])
  then have "lets_through b r i \<and> (maskable i \<longrightarrow> (\<forall>x \<in> fst ` set ls. ceil x < prio i))"
    using Cons.IH Cons.prems by blast
  then show ?case using enter_masks [OF g c l] by simp
qed simp

text \<open>What gets through uses nothing that is locked.\<close>

lemma lets_level:
  assumes "good r0" and "\<forall>x. ceil x \<le> limit" and "lets_through b (level b ceil r0 ts) i" and "maskable i"
  shows "\<forall>u \<in> set ts. \<forall>x \<in> fst ` set (locks u). ceil x < prio i"
  using assms
proof (induction ts)
  case (Cons t ts)
  have g: "good (level b ceil r0 ts)" using Cons.prems by (intro good_level) auto
  have "lets_through b (level b ceil r0 ts) i \<and> (\<forall>x \<in> fst ` set (locks t). ceil x < prio i)"
    using lets_locks [OF g, of ceil "locks t" i] Cons.prems by simp
  then show ?case using Cons by simp
qed simp

lemma step_keeps:
  assumes ok: "processor_ok b a ceil r0 s" and step: "processor_step b a ceil s s'"
    and g: "good r0" and lim: "\<forall>x. ceil x \<le> limit" and p: "\<And>c. is_interrupt a c \<Longrightarrow> prio c = context_priority a c"
  shows "processor_ok b a ceil r0 s'"
  using step
proof cases
  case (step_interrupt c t ts)
  have "context_priority a (running u) < context_priority a c" if "u \<in> set (t # ts)" for u
  proof (cases "u = t")
    case False
    with that have "u \<in> set ts" "ts \<noteq> []" by auto
    then have "context_priority a (running u) < context_priority a (running t)"
      using ok step_interrupt by (auto simp: processor_ok_def)
    then show ?thesis using step_interrupt by simp
  qed (use step_interrupt in simp)
  then show ?thesis using ok step_interrupt by (simp add: processor_ok_def take_interrupt_def)
next
  case (step_lock t ts x)
  then show ?thesis using ok by (auto simp: processor_ok_def begin_lock_def)
next
  case (step_unlock t ts)
  then obtain x r ls where l: "locks t = (x, r) # ls" by (cases "locks t") auto
  have "good (locks_level b ceil ls (level b ceil r0 ts))" using g lim by (intro good_locks good_level)
  then show ?thesis using ok step_unlock exit_enter lim by (auto simp: processor_ok_def end_lock_def l)
next
  case (step_return t u ts)
  let ?r = "level b ceil r0 (u # ts)"
  have t: "is_interrupt a (running t)" "lets_through b ?r (running t)" "entered_with t = ?r" "registers s = ?r"
    "context_priority a (running u) < context_priority a (running t)"
    using ok step_return by (auto simp: processor_ok_def)
  have "exit_run b (prio (running t)) ?r ?r = ?r"
    by (rule exit_run_same [OF good_level [OF g lim] t(2)]) (use p [OF t(1)] t(5) in simp)
  then show ?thesis using ok step_return p [OF t(1)] t(3,4) by (auto simp: processor_ok_def end_interrupt_def)
qed

lemma reaches_ok:
  assumes "(processor_step b a ceil)\<^sup>*\<^sup>* (start_main r0) s"
    and g: "good r0" and lim: "\<forall>x. ceil x \<le> limit" and p: "\<And>c. is_interrupt a c \<Longrightarrow> prio c = context_priority a c"
  shows "processor_ok b a ceil r0 s"
  using assms(1)
proof (induction rule: rtranclp_induct)
  case base
  show ?case by (simp add: processor_ok_def start_main_def)
next
  case (step y z)
  from step_keeps [OF step(3,2) g lim] p show ?case by blast
qed

lemma nested_above:
  assumes "nested b a ceil r0 ts" and "i < j" and "j < length ts"
  shows "is_interrupt a (running (ts ! i)) \<and>
    context_priority a (running (ts ! j)) < context_priority a (running (ts ! i)) \<and>
    (\<exists>us. lets_through b (level b ceil r0 us) (running (ts ! i)) \<and> ts ! j \<in> set us)"
  using assms
proof (induction ts arbitrary: i j)
  case (Cons t ts)
  show ?case
  proof (cases i)
    case 0
    then obtain k where k: "j = Suc k" "ts ! k \<in> set ts" using Cons.prems by (cases j) auto
    then have "ts \<noteq> []" by auto
    then have "is_interrupt a (running t)" "lets_through b (level b ceil r0 ts) (running t)"
      "\<forall>u \<in> set ts. context_priority a (running u) < context_priority a (running t)"
      using Cons.prems(1) by simp_all
    then show ?thesis using 0 k by auto
  next
    case (Suc k)
    then show ?thesis using Cons.IH [of k "j - 1"] Cons.prems by (cases j) auto
  qed
qed simp

lemma nested_last: "nested b a ceil r0 ts \<Longrightarrow> ts \<noteq> [] \<Longrightarrow> running (last ts) = Main"
  by (induction ts) (auto split: if_splits)

lemma nested_locks:
  "nested b a ceil r0 ts \<Longrightarrow> t \<in> set ts \<Longrightarrow> x \<in> fst ` set (locks t) \<Longrightarrow>
    (x, Exclusive) \<in> set (context_shared a (running t)) \<and> \<not> is_lock_free a x"
  by (induction ts) auto

text \<open>
  The protocol: when every context that uses a resource has at most its ceiling as priority and can be
  masked, lock free resources are used at one priority, and no resource is accessed in two ways, then no
  two activations touch a resource at the same time, unless both only read it.
\<close>

lemma exclusive:
  assumes reach: "(processor_step b a ceil)\<^sup>*\<^sup>* (start_main r0) s"
    and g: "good r0" and lim: "\<forall>x. ceil x \<le> limit" and p: "\<And>c. is_interrupt a c \<Longrightarrow> prio c = context_priority a c"
    and users: "\<And>c x acc. is_interrupt a c \<Longrightarrow> (x, acc) \<in> set (context_shared a c) \<Longrightarrow>
      context_priority a c \<le> ceil x \<and> maskable c"
    and free: "\<And>c d x acc acc'. (x, acc) \<in> set (context_shared a c) \<Longrightarrow> (x, acc') \<in> set (context_shared a d) \<Longrightarrow>
      is_lock_free a x \<Longrightarrow> c = Main \<or> is_interrupt a c \<Longrightarrow> d = Main \<or> is_interrupt a d \<Longrightarrow>
      context_priority a c = context_priority a d"
    and one_way: "\<And>c d x acc acc'. (x, acc) \<in> set (context_shared a c) \<Longrightarrow> (x, acc') \<in> set (context_shared a d) \<Longrightarrow>
      c = Main \<or> is_interrupt a c \<Longrightarrow> d = Main \<or> is_interrupt a d \<Longrightarrow> acc = acc'"
  shows "no_conflict a s"
  unfolding no_conflict_def
proof (intro allI impI, elim conjE)
  fix i j x acc acc'
  let ?t = "activations s ! i" and ?u = "activations s ! j"
  assume ij: "i < j" "j < length (activations s)" and t: "touches a ?t x acc" and u: "touches a ?u x acc'"
  have ok: "processor_ok b a ceil r0 s" using reaches_ok [OF reach g lim] p by blast
  then have n: "nested b a ceil r0 (activations s)" by (simp add: processor_ok_def)
  have mem: "?t \<in> set (activations s)" "?u \<in> set (activations s)" using ij by simp_all
  have above: "is_interrupt a (running ?t)"
    "context_priority a (running ?u) < context_priority a (running ?t)"
    using nested_above [OF n ij] by simp_all
  obtain us where us: "lets_through b (level b ceil r0 us) (running ?t)" "?u \<in> set us"
    using nested_above [OF n ij] by blast
  have below: "running ?u = Main \<or> is_interrupt a (running ?u)"
  proof (cases "Suc j < length (activations s)")
    case True
    then show ?thesis using nested_above [OF n, of j "Suc j"] by simp
  next
    case False
    then have "?u = last (activations s)" using ij by (subst last_conv_nth) (auto intro: arg_cong2 [of _ _ _ _ nth])
    moreover have "running (last (activations s)) = Main" by (rule nested_last [OF n]) (use ij in auto)
    ultimately show ?thesis by simp
  qed
  have listed: "(x, acc) \<in> set (context_shared a (running ?t))" "(x, acc') \<in> set (context_shared a (running ?u))"
    using t u nested_locks [OF n mem(1)] nested_locks [OF n mem(2)] by (auto simp: touches_def)
  have same: "acc = acc'" using one_way [OF listed] above below by blast
  have "\<not> is_lock_free a x" using free [OF listed] above below by force
  moreover have "x \<notin> fst ` set (locks ?u)"
  proof
    assume "x \<in> fst ` set (locks ?u)"
    then have "ceil x < prio (running ?t)"
      using lets_level [OF g lim us(1)] us(2) users [OF above(1) listed(1)] by blast
    then show False using users [OF above(1) listed(1)] p [OF above(1)] by simp
  qed
  ultimately have "acc' = Shared" using u by (auto simp: touches_def)
  with same show "acc = Shared \<and> acc' = Shared" by simp
qed

end

section \<open>What the analysis gives\<close>

lemma polled_accesses:
  "(x, acc) \<in> set (polled_shared a p) \<Longrightarrow> (Some p, x, acc) \<in> set (shared_resource_accesses a)"
  by (force simp: polled_shared_def shared_resource_accesses_def split: if_splits)

lemma context_accesses:
  assumes "(x, acc) \<in> set (context_shared a c)" and "c = Main \<or> is_interrupt a c"
  shows "(Some (context_priority a c), x, acc) \<in> set (shared_resource_accesses a)"
proof (cases c)
  case Main
  show ?thesis
  proof (cases "idle a")
    case None
    then show ?thesis using assms(1) Main by (simp add: polled_accesses)
  next
    case (Some i)
    then show ?thesis using assms(1) Main by (force simp: shared_resource_accesses_def)
  qed
next
  case (Task n)
  then obtain t where t: "map_of (hardware_tasks a) n = Some t" using assms(2) by auto
  then have "(n, t) \<in> set (hardware_tasks a)" by (rule map_of_SomeD)
  then show ?thesis using assms(1) Task t by (force simp: shared_resource_accesses_def)
next
  case (Dispatcher p)
  then show ?thesis using assms(1) by (simp add: polled_accesses)
qed

lemma users_below_ceiling:
  assumes "compile_app a = Some (Inr (an, ints))"
    and "(x, acc) \<in> set (context_shared a c)" and "c = Main \<or> is_interrupt a c"
  shows "context_priority a c \<le> resource_ceiling an x"
  using accepted_ceiling [OF assms(1) context_accesses [OF assms(2,3)]] by (auto simp: resource_ceiling_def)

lemma users_one_way:
  assumes "compile_app a = Some (Inr (an, ints))"
    and "(x, acc) \<in> set (context_shared a c)" and "(x, acc') \<in> set (context_shared a d)"
    and "c = Main \<or> is_interrupt a c" and "d = Main \<or> is_interrupt a d"
  shows "acc = acc'"
proof -
  have "unmixed a" using accepted_parts(1) [OF assms(1)] by (simp add: check_app_iff)
  then show ?thesis using unmixedD context_accesses assms(2-5) by blast
qed

lemma polled_user:
  assumes "(x, acc) \<in> set (polled_shared a p)"
  shows "\<exists>n. (n, p) \<in> set (shared_users a x) \<and> map_of (software_tasks a) n \<noteq> None"
proof -
  obtain n t where t: "(n, t) \<in> set (software_tasks a)" "sw_priority t = p" "(x, acc) \<in> set (sw_shared t)"
    using assms by (auto simp: polled_shared_def split: if_splits)
  have "(n, map fst (sw_shared t), sw_locals t, p) \<in> set (task_resources_list a)"
    using t(1,2) by (force simp: task_resources_list_def)
  moreover have "x \<in> set (map fst (sw_shared t))" using t(3) by force
  ultimately have "(n, p) \<in> set (shared_users a x)" unfolding shared_users_def by force
  moreover have "map_of (software_tasks a) n \<noteq> None" using weak_map_of_SomeI [OF t(1)] by auto
  ultimately show ?thesis by blast
qed

lemma context_user:
  assumes "(x, acc) \<in> set (context_shared a c)" and "c = Main \<or> is_interrupt a c"
  shows "\<exists>n. (n, context_priority a c) \<in> set (shared_users a x)"
proof (cases c)
  case Main
  show ?thesis
  proof (cases "idle a")
    case None
    then show ?thesis using assms(1) Main polled_user by (fastforce split: option.splits)
  next
    case (Some i)
    then have "(idle_name i, map fst (idle_shared i), idle_locals i, 0) \<in> set (task_resources_list a)"
      by (simp add: task_resources_list_def)
    moreover have "x \<in> set (map fst (idle_shared i))" using assms(1) Main Some by force
    ultimately show ?thesis using Main unfolding shared_users_def by force
  qed
next
  case (Task n)
  then obtain t where t: "map_of (hardware_tasks a) n = Some t" using assms(2) by auto
  then have "(n, map fst (hw_shared t), hw_locals t, hw_priority t) \<in> set (task_resources_list a)"
    using map_of_SomeD [OF t] by (force simp: task_resources_list_def)
  moreover have "x \<in> set (map fst (hw_shared t))" using assms(1) Task t by force
  ultimately show ?thesis using Task t unfolding shared_users_def by force
next
  case (Dispatcher p)
  then show ?thesis using assms(1) polled_user by fastforce
qed

lemma lock_free_one_priority:
  assumes "parsed a" and "compile_app a = Some (Inr (an, ints))"
    and "(x, acc) \<in> set (context_shared a c)" and "(x, acc') \<in> set (context_shared a d)" and "is_lock_free a x"
    and "c = Main \<or> is_interrupt a c" and "d = Main \<or> is_interrupt a d"
  shows "context_priority a c = context_priority a d"
proof -
  have "lock_free_sound a" using accepted_parts(2) [OF assms(2)] by (simp add: analysis_errors_Nil [OF assms(1)])
  moreover have "x \<in> set (lock_free_names a)" using assms(5)
    by (force simp: is_lock_free_def lock_free_names_def split: option.splits dest: map_of_SomeD)
  moreover obtain n m where "(n, context_priority a c) \<in> set (shared_users a x)"
    "(m, context_priority a d) \<in> set (shared_users a x)"
    using context_user [OF assms(3,6)] context_user [OF assms(4,7)] by blast
  ultimately show ?thesis unfolding lock_free_sound_def by fast
qed

definition fits :: "app \<Rightarrow> nat \<Rightarrow> bool" where
  \<comment> \<open>the assertions of \<open>pre_init\<close> for all vectors\<close>
  "fits a n \<longleftrightarrow> list_all (\<lambda>(_, t). hw_priority t \<le> n) (hardware_tasks a) \<and>
     list_all (\<lambda>(_, t). sw_priority t \<le> n) (software_tasks a)"

lemma access_fits:
  "fits a n \<Longrightarrow> (Some p, x, acc) \<in> set (shared_resource_accesses a) \<Longrightarrow> p \<le> n"
  by (fastforce simp: fits_def list_all_iff shared_resource_accesses_def split: option.splits)

lemma interrupt_fits: "fits a n \<Longrightarrow> is_interrupt a c \<Longrightarrow> context_priority a c \<le> n"
  by (cases c) (fastforce simp: fits_def list_all_iff set_dispatch_priorities dest: map_of_SomeD)+

lemma interrupt_priority: "parsed a \<Longrightarrow> is_interrupt a c \<Longrightarrow> 0 < context_priority a c"
  by (cases c) (fastforce simp: parsed_def list_all_iff set_dispatch_priorities dest: map_of_SomeD)+

lemma ceiling_fits:
  assumes "compile_app a = Some (Inr (an, ints))" and "fits a n"
  shows "resource_ceiling an x \<le> n"
proof (cases "ownerships an x")
  case (Some w)
  let ?ps = "priorities_of (shared_resource_accesses a) x"
  have w: "ownership_of ?ps = Some w" using accepted_ownerships [OF assms(1)] Some by simp
  then have "?ps \<noteq> []" by (auto simp: ownership_of_def)
  then have "Max (set ?ps) \<in> set ?ps" by simp
  then have "Max (set ?ps) \<le> n" using access_fits [OF assms(2)] by (auto simp: priority_member)
  then show ?thesis using Some ceiling_ownership_of [OF w] by (simp add: resource_ceiling_def)
qed (simp add: resource_ceiling_def)

context system_ceiling
begin

text \<open>An application that the macro accepts keeps to the protocol.\<close>

lemma accepted_exclusive:
  assumes "parsed a" and ok: "compile_app a = Some (Inr (an, ints))" and "fits a limit" and "good r0"
    and p: "\<And>c. is_interrupt a c \<Longrightarrow> prio c = context_priority a c"
    and m: "\<And>c. is_interrupt a c \<Longrightarrow> context_shared a c \<noteq> [] \<Longrightarrow> maskable c"
    and "(processor_step b a (resource_ceiling an))\<^sup>*\<^sup>* (start_main r0) s"
  shows "no_conflict a s"
proof (rule exclusive [OF assms(7,4)])
  show "\<forall>x. resource_ceiling an x \<le> limit" using ceiling_fits [OF ok assms(3)] by blast
  fix c x acc assume "is_interrupt a c" "(x, acc) \<in> set (context_shared a c)"
  then show "context_priority a c \<le> resource_ceiling an x \<and> maskable c"
    using users_below_ceiling [OF ok] m by (metis empty_iff empty_set)
qed (use p lock_free_one_priority [OF assms(1) ok] users_one_way [OF ok] in blast)+

text \<open>What a context may lock is free: it never waits, so that no deadlock is possible.\<close>

lemma accepted_free:
  assumes "parsed a" and ok: "compile_app a = Some (Inr (an, ints))" and "fits a limit" and g: "good r0"
    and p: "\<And>c. is_interrupt a c \<Longrightarrow> prio c = context_priority a c"
    and m: "\<And>c. is_interrupt a c \<Longrightarrow> context_shared a c \<noteq> [] \<Longrightarrow> maskable c"
    and reach: "(processor_step b a (resource_ceiling an))\<^sup>*\<^sup>* (start_main r0) s"
    and s: "activations s = t # ts" and x: "(x, Exclusive) \<in> set (context_shared a (running t))" and u: "u \<in> set ts"
  shows "x \<notin> fst ` set (locks u)"
proof
  assume l: "x \<in> fst ` set (locks u)"
  have lim: "\<forall>x. resource_ceiling an x \<le> limit" using ceiling_fits [OF ok assms(3)] by blast
  have "processor_ok b a (resource_ceiling an) r0 s" using reaches_ok [OF reach g lim] p by blast
  moreover have "ts \<noteq> []" using u by auto
  ultimately have t: "is_interrupt a (running t)" "lets_through b (level b (resource_ceiling an) r0 ts) (running t)"
    using s by (simp_all add: processor_ok_def)
  have "maskable (running t)" using m [OF t(1)] x by force
  then have "resource_ceiling an x < prio (running t)" using lets_level [OF g lim t(2)] u l by blast
  moreover have "context_priority a (running t) \<le> resource_ceiling an x"
    using users_below_ceiling [OF ok x] t(1) by blast
  ultimately show False using p [OF t(1)] by simp
qed

end

end
