(* ===== verification/Rtic_Lock.thy ===== *)
theory Rtic_Lock
  imports Rtic_Ceiling "HOL-Library.Word"
begin

text \<open>
  Locks with the register BASEPRI: \<open>rtic/src/export/cortex_common.rs\<close> and \<open>cortex_basepri.rs\<close>. The
  registers behave as the architecture says: BASEPRI lets interrupts of a smaller number through, 0 masks
  none, a write to \<open>BASEPRI_MAX\<close> only lowers the number, and a critical section masks all interrupts and
  gives back at its end what was there.
\<close>

unbundle bit_operations_syntax

section \<open>Priorities in hardware\<close>

definition cortex_logical2hw :: "8 word \<Rightarrow> nat \<Rightarrow> 8 word" where
  "cortex_logical2hw logical bits = push_bit (8 - bits) (push_bit bits 1 - logical)"

lemma push_bit_of_nat: "push_bit n (word_of_nat k :: 'a::len word) = word_of_nat (k * 2 ^ n)"
  by (simp add: push_bit_eq_mult)

lemma byte_of_nat: "unat (word_of_nat n :: 8 word) = n mod 256"
  by (simp add: unsigned_of_nat take_bit_eq_mod)

lemma hw_of_nat:
  assumes "bits \<le> 7" and "p \<le> 2 ^ bits"
  shows "unat (cortex_logical2hw (word_of_nat p) bits) = ((2 ^ bits - p) * 2 ^ (8 - bits)) mod 256"
proof -
  have e: "push_bit bits 1 - word_of_nat p = (word_of_nat (2 ^ bits - p) :: 8 word)"
    using assms(2) by (simp add: push_bit_eq_mult of_nat_diff)
  show ?thesis unfolding cortex_logical2hw_def e push_bit_of_nat byte_of_nat ..
qed

lemma hw_order:
  assumes "bits \<le> 7" and "p \<le> 2 ^ bits" and "0 < p" and "q \<le> 2 ^ bits" and "0 < q"
  shows "cortex_logical2hw (word_of_nat p) bits < cortex_logical2hw (word_of_nat q) bits \<longleftrightarrow> q < p"
proof -
  let ?w = "2 ^ (8 - bits) :: nat"
  have w: "(2::nat) ^ bits * ?w = 256" using assms(1) by (simp flip: power_add)
  have in_range: "(2 ^ bits - r) * ?w < 256" if "0 < r" "r \<le> 2 ^ bits" for r
  proof -
    have "(2 ^ bits - r) * ?w < 2 ^ bits * ?w" using that by (intro mult_strict_right_mono) auto
    then show ?thesis by (simp only: w)
  qed
  have "unat (cortex_logical2hw (word_of_nat p) bits) = (2 ^ bits - p) * ?w"
    "unat (cortex_logical2hw (word_of_nat q) bits) = (2 ^ bits - q) * ?w"
    using assms in_range by (simp_all add: hw_of_nat)
  then have "cortex_logical2hw (word_of_nat p) bits < cortex_logical2hw (word_of_nat q) bits \<longleftrightarrow>
      2 ^ bits - p < 2 ^ bits - q" by (simp add: word_less_nat_alt)
  also have "\<dots> \<longleftrightarrow> q < p" using assms by linarith
  finally show ?thesis .
qed

lemma hw_none: "bits \<le> 7 \<Longrightarrow> cortex_logical2hw (word_of_nat 0) bits = 0"
proof -
  assume b: "bits \<le> 7"
  have "unat (cortex_logical2hw (word_of_nat 0) bits) = 0"
    using hw_of_nat [OF b, of 0] b by (simp flip: power_add)
  then show ?thesis by (metis unat_eq_0)
qed

section \<open>The registers\<close>

record basepri_registers =
  basepri :: "8 word"
  primask :: bool

definition basepri_max_write :: "8 word \<Rightarrow> basepri_registers \<Rightarrow> basepri_registers" where
  "basepri_max_write v r =
     (if v \<noteq> 0 \<and> (basepri r = 0 \<or> v < basepri r) then r\<lparr>basepri := v\<rparr> else r)"

definition basepri_enter :: "nat \<Rightarrow> nat \<Rightarrow> basepri_registers \<Rightarrow> basepri_registers" where
  \<comment> \<open>\<open>lock\<close>, up to the closure\<close>
  "basepri_enter bits c r =
     (if word_of_nat c = (push_bit bits 1 :: 8 word) then r\<lparr>primask := True\<rparr>
      else basepri_max_write (cortex_logical2hw (word_of_nat c) bits) r)"

definition basepri_exit :: "nat \<Rightarrow> nat \<Rightarrow> basepri_registers \<Rightarrow> basepri_registers \<Rightarrow> basepri_registers" where
  \<comment> \<open>\<open>lock\<close>, after the closure; \<open>old\<close> is what was read at its beginning\<close>
  "basepri_exit bits c old r =
     (if word_of_nat c = (push_bit bits 1 :: 8 word) then r\<lparr>primask := primask old\<rparr>
      else r\<lparr>basepri := basepri old\<rparr>)"

definition basepri_run :: "nat \<Rightarrow> basepri_registers \<Rightarrow> basepri_registers \<Rightarrow> basepri_registers" where
  "basepri_run p old r = (if p = 1 then r\<lparr>basepri := 0\<rparr> else r\<lparr>basepri := basepri old\<rparr>)"

definition basepri_lets :: "nat \<Rightarrow> app \<Rightarrow> basepri_registers \<Rightarrow> context_of \<Rightarrow> bool" where
  "basepri_lets bits a r c \<longleftrightarrow> \<not> primask r \<and>
     (basepri r = 0 \<or> cortex_logical2hw (word_of_nat (context_priority a c)) bits < basepri r)"

definition basepri_backend :: "nat \<Rightarrow> app \<Rightarrow> basepri_registers backend" where
  "basepri_backend bits a = \<lparr>enter_lock = basepri_enter bits, exit_lock = basepri_exit bits,
     exit_run = basepri_run, lets_through = basepri_lets bits a\<rparr>"

definition basepri_reset :: basepri_registers where
  "basepri_reset = \<lparr>basepri = 0, primask = False\<rparr>"

section \<open>The interface\<close>

definition basepri_good :: "nat \<Rightarrow> basepri_registers \<Rightarrow> bool" where
  "basepri_good bits r \<longleftrightarrow> 1 \<le> bits \<and> bits \<le> 7 \<and>
     (\<exists>p \<le> 2 ^ bits. basepri r = cortex_logical2hw (word_of_nat p) bits)"

lemma whole_mask_iff:
  assumes "bits \<le> 7" and "c \<le> 2 ^ bits"
  shows "word_of_nat c = (push_bit bits 1 :: 8 word) \<longleftrightarrow> c = 2 ^ bits"
proof -
  have "(2::nat) ^ bits \<le> 2 ^ 7" using assms(1) by (intro power_increasing) auto
  then have "(2::nat) ^ bits < 256" "c < 256" using assms(2) by auto
  then have "unat (word_of_nat c :: 8 word) = c" "unat (word_of_nat (2 ^ bits) :: 8 word) = 2 ^ bits"
    unfolding byte_of_nat by simp_all
  then have "word_of_nat c = (word_of_nat (2 ^ bits) :: 8 word) \<longleftrightarrow> c = 2 ^ bits" by metis
  then show ?thesis by (simp add: push_bit_eq_mult)
qed

lemma hw_limits:
  assumes "bits \<le> 7" and "p \<le> 2 ^ bits"
  shows "cortex_logical2hw (word_of_nat p) bits = 0 \<longleftrightarrow> p = 0 \<or> p = 2 ^ bits"
proof -
  have "(2::nat) ^ bits * 2 ^ (8 - bits) = 256" using assms(1) by (simp flip: power_add)
  moreover have "(2 ^ bits - p) * 2 ^ (8 - bits) < 256" if "0 < p"
  proof -
    have "(2 ^ bits - p) * 2 ^ (8 - bits) < (2::nat) ^ bits * 2 ^ (8 - bits)"
      using that assms(2) by (intro mult_strict_right_mono) auto
    then show ?thesis using assms(1) by (simp flip: power_add)
  qed
  ultimately have "((2 ^ bits - p) * 2 ^ (8 - bits)) mod 256 = 0 \<longleftrightarrow> p = 0 \<or> p = 2 ^ bits"
    using assms(2) by (cases "p = 0") auto
  then show ?thesis using hw_of_nat [OF assms] by (metis unat_eq_0)
qed

lemma basepri_good_enter:
  assumes "basepri_good bits r" and "c \<le> 2 ^ bits"
  shows "basepri_good bits (basepri_enter bits c r)"
  using assms by (auto simp: basepri_good_def basepri_enter_def basepri_max_write_def)

lemma basepri_enter_lets:
  assumes "basepri_good bits r" and "c \<le> 2 ^ bits" and "basepri_lets bits a (basepri_enter bits c r) i"
  shows "basepri_lets bits a r i"
    and "0 < context_priority a i \<Longrightarrow> context_priority a i \<le> 2 ^ bits \<Longrightarrow> c < context_priority a i"
proof -
  have b: "bits \<le> 7" using assms(1) by (simp add: basepri_good_def)
  have c: "c \<noteq> 2 ^ bits" using assms(3) whole_mask_iff [OF b assms(2)] by (auto simp: basepri_enter_def basepri_lets_def)
  then have e: "basepri_enter bits c r = basepri_max_write (cortex_logical2hw (word_of_nat c) bits) r"
    using whole_mask_iff [OF b assms(2)] by (simp add: basepri_enter_def)
  show "basepri_lets bits a r i" using assms(3) unfolding e basepri_lets_def basepri_max_write_def
    by (auto split: if_splits)
  assume p: "0 < context_priority a i" "context_priority a i \<le> 2 ^ bits"
  show "c < context_priority a i"
  proof (cases "c = 0")
    case False
    then have "cortex_logical2hw (word_of_nat c) bits \<noteq> 0" using hw_limits [OF b assms(2)] c by simp
    then have "cortex_logical2hw (word_of_nat (context_priority a i)) bits < cortex_logical2hw (word_of_nat c) bits"
      using assms(3) unfolding e basepri_lets_def basepri_max_write_def by (auto split: if_splits)
    then show ?thesis using hw_order [OF b p(2,1) assms(2)] False by simp
  qed (use p in simp)
qed

lemma basepri_exit_enter: "basepri_exit bits c r (basepri_enter bits c r) = r"
  by (simp add: basepri_exit_def basepri_enter_def basepri_max_write_def)

text \<open>At the priority 1 BASEPRI can only be 0.\<close>

lemma basepri_run_same:
  assumes "basepri_good bits r" and "basepri_lets bits a r i"
  shows "basepri_run (context_priority a i) r r = r"
proof (cases "context_priority a i = 1")
  case True
  obtain p where b: "1 \<le> bits" "bits \<le> 7" and p: "p \<le> 2 ^ bits" "basepri r = cortex_logical2hw (word_of_nat p) bits"
    using assms(1) by (auto simp: basepri_good_def)
  have "basepri r = 0"
  proof (rule ccontr)
    assume "basepri r \<noteq> 0"
    then have "0 < p" "cortex_logical2hw (word_of_nat 1) bits < cortex_logical2hw (word_of_nat p) bits"
      using assms(2) True p hw_limits [OF b(2) p(1)] by (auto simp: basepri_lets_def)
    then show False using hw_order [OF b(2), of 1 p] p(1) by simp
  qed
  then show ?thesis by (simp add: basepri_run_def)
qed (simp add: basepri_run_def)

interpretation basepri: system_ceiling "basepri_backend bits a" "context_priority a"
  "\<lambda>c. 0 < context_priority a c \<and> context_priority a c \<le> 2 ^ bits" "2 ^ bits" "basepri_good bits" for bits a
  by unfold_locales
    (auto simp: basepri_backend_def basepri_exit_enter basepri_run_same
      intro: basepri_good_enter basepri_enter_lets)

section \<open>Promises\<close>

text \<open>
  C1: On a Cortex-M with BASEPRI no application that the macro accepts has a data race: whatever interrupts
  come and however locks nest, two contexts that have begun and not ended never touch a shared resource at
  the same time, unless both only read it; and a context that wants a lock never has to wait for it.
\<close>

theorem shared_resources_exclusive:
  assumes "parsed a" and "compile_app a = Some (Inr (an, ints))" and "1 \<le> bits" and "bits \<le> 7"
    and "fits a (2 ^ bits)"
    and "(processor_step (basepri_backend bits a) a (resource_ceiling an))\<^sup>*\<^sup>* (start_main basepri_reset) s"
  shows "no_conflict a s \<and>
    (\<forall>t ts x. activations s = t # ts \<and> (x, Exclusive) \<in> set (context_shared a (running t)) \<longrightarrow>
      list_all (\<lambda>u. x \<notin> fst ` set (locks u)) ts)"
proof -
  have good: "basepri_good bits basepri_reset"
    using assms(3,4) hw_none [OF assms(4)] by (auto simp: basepri_good_def basepri_reset_def intro!: exI [of _ 0])
  have m: "0 < context_priority a c \<and> context_priority a c \<le> 2 ^ bits" if "is_interrupt a c" for c
    using interrupt_priority [OF assms(1) that] interrupt_fits [OF assms(5) that] by simp
  have "no_conflict a s"
    by (rule basepri.accepted_exclusive [OF assms(1,2,5) good _ _ assms(6)]) (use m in auto)
  moreover have "x \<notin> fst ` set (locks u)"
    if "activations s = t # ts" "(x, Exclusive) \<in> set (context_shared a (running t))" "u \<in> set ts" for t ts x u
    by (rule basepri.accepted_free [OF assms(1,2,5) good _ _ assms(6) that]) (use m in auto)
  ultimately show ?thesis by (auto simp: list_all_iff)
qed

theorem shared_resources_exclusive_witness:
  "\<exists>an ints (s :: basepri_registers processor). compile_app example_app = Some (Inr (an, ints)) \<and> length (activations s) = 2 \<and>
    map fst (locks (hd (activations s))) = [''count''] \<and> no_conflict example_app s"
proof -
  obtain an ints where a: "compile_app example_app = Some (Inr (an, ints))" using example_accepted by blast
  let ?step = "processor_step (basepri_backend 2 example_app) example_app (resource_ceiling an)"
  let ?s0 = "start_main basepri_reset"
  let ?s1 = "take_interrupt (Task ''tick'') ?s0"
  let ?s2 = "begin_lock (basepri_backend 2 example_app) (resource_ceiling an) ''count'' ?s1"
  have "?step ?s0 ?s1"
    by (rule step_interrupt)
      (auto simp: example_app_def start_main_def basepri_backend_def basepri_lets_def basepri_reset_def)
  moreover have "?step ?s1 ?s2"
    by (rule step_lock) (auto simp: take_interrupt_def example_app_def is_lock_free_def)
  ultimately have r: "?step\<^sup>*\<^sup>* ?s0 ?s2" by simp
  have f: "fits example_app (2 ^ 2)" by code_simp
  have c: "no_conflict example_app ?s2"
    using shared_resources_exclusive [OF example_parsed a _ _ f r] by simp
  have l: "length (activations ?s2) = 2" "map fst (locks (hd (activations ?s2))) = [''count'']"
    by (simp_all add: begin_lock_def take_interrupt_def start_main_def)
  show ?thesis
    by (rule exI [of _ an], rule exI [of _ ints], rule exI [of _ ?s2], intro conjI) (rule a l c)+
qed

end
