(* ===== verification/Rtic_Mask.thy ===== *)
theory Rtic_Mask
  imports Rtic_Ceiling "HOL-Library.Word"
begin

text \<open>
  Locks on a Cortex-M without BASEPRI, where the interrupts are disabled one by one:
  \<open>rtic/src/export/cortex_source_mask.rs\<close>, and the masks that \<open>impl_mutex\<close> makes for it
  (\<open>codegen/bindings/cortex.rs\<close>). The enable bits behave as the architecture says: writing ones to \<open>ISER\<close>
  sets them, writing ones to \<open>ICER\<close> clears them. The number of an interrupt is given by the device crate;
  it is the parameter \<open>irq\<close>. Exceptions have no enable bit.
\<close>

unbundle bit_operations_syntax

section \<open>Masks\<close>

type_synonym mask = "32 word list"

definition set_mask_bit :: "nat \<Rightarrow> mask \<Rightarrow> mask option" where
  \<comment> \<open>\<open>None\<close> is the panic\<close>
  "set_mask_bit n m =
     (let block = n div 32
      in if length m \<le> block then None
         else Some (m[block := m ! block OR push_bit (n - block * 32) 1]))"

primrec set_mask_bits :: "nat list \<Rightarrow> mask \<Rightarrow> mask option" where
  "set_mask_bits [] m = Some m"
| "set_mask_bits (n # ns) m = do { m' \<leftarrow> set_mask_bit n m; set_mask_bits ns m' }"

definition create_mask :: "nat \<Rightarrow> nat list \<Rightarrow> mask option" where
  "create_mask k ns = set_mask_bits ns (replicate k 0)"

definition compute_mask_chunks :: "nat list \<Rightarrow> nat" where
  "compute_mask_chunks ids = (fold max ids 0 + 32) div 32"

definition compute_mask :: "nat \<Rightarrow> nat \<Rightarrow> nat \<Rightarrow> mask list \<Rightarrow> mask" where
  "compute_mask k from to masks = fold (\<lambda>i res. map2 (OR) res (masks ! i)) [from..<to] (replicate k 0)"

definition is_exception :: "string \<Rightarrow> bool" where
  \<comment> \<open>an exception with configurable priority\<close>
  "is_exception s \<longleftrightarrow> s \<in> {''MemoryManagement'', ''BusFault'', ''UsageFault'', ''SecureFault'', ''SVCall'',
     ''DebugMonitor'', ''PendSV'', ''SysTick''}"

definition used_lines :: "app \<Rightarrow> (nat \<Rightarrow> string option) \<Rightarrow> (string \<Rightarrow> nat) \<Rightarrow> (nat \<times> nat) list" where
  \<comment> \<open>the priorities and numbers of the interrupts in use\<close>
  "used_lines a ints irq = map (\<lambda>p. (p, irq (the (ints p)))) (dispatch_priorities a)
     @ map (\<lambda>(_, t). (hw_priority t, irq (binds t)))
         (filter (\<lambda>(_, t). \<not> is_exception (binds t)) (hardware_tasks a))"

definition mask_chunks :: "app \<Rightarrow> (nat \<Rightarrow> string option) \<Rightarrow> (string \<Rightarrow> nat) \<Rightarrow> nat" where
  "mask_chunks a ints irq = compute_mask_chunks (map snd (used_lines a ints irq))"

definition mask_table :: "app \<Rightarrow> (nat \<Rightarrow> string option) \<Rightarrow> (string \<Rightarrow> nat) \<Rightarrow> mask list option" where
  "mask_table a ints irq =
     those (map (\<lambda>i. create_mask (mask_chunks a ints irq)
       (map snd (filter (\<lambda>(p, _). p - 1 = i) (used_lines a ints irq)))) [0..<3])"

section \<open>The registers\<close>

record mask_registers =
  iser :: mask
  primask :: bool

definition read_mask :: "mask \<Rightarrow> mask \<Rightarrow> mask" where
  "read_mask m e = map2 (\<lambda>x y. if x \<noteq> 0 then y else 0) m e"

definition set_enable_mask :: "mask \<Rightarrow> mask \<Rightarrow> mask \<Rightarrow> mask" where
  "set_enable_mask m old e = map2 (\<lambda>x (y, z). if x \<noteq> 0 then z OR y else z) m (zip old e)"

definition clear_enable_mask :: "mask \<Rightarrow> mask \<Rightarrow> mask" where
  "clear_enable_mask m e = map2 (\<lambda>x y. if x \<noteq> 0 then y AND NOT x else y) m e"

definition mask_enter :: "nat \<Rightarrow> mask list \<Rightarrow> nat \<Rightarrow> mask_registers \<Rightarrow> mask_registers" where
  "mask_enter k masks c r =
     (if 4 \<le> c then r\<lparr>primask := True\<rparr>
      else r\<lparr>iser := clear_enable_mask (compute_mask k 0 c masks) (iser r)\<rparr>)"

definition mask_exit :: "nat \<Rightarrow> mask list \<Rightarrow> nat \<Rightarrow> mask_registers \<Rightarrow> mask_registers \<Rightarrow> mask_registers" where
  "mask_exit k masks c old r =
     (if 4 \<le> c then r\<lparr>primask := primask old\<rparr>
      else (let m = compute_mask k 0 c masks
            in r\<lparr>iser := set_enable_mask m (read_mask m (iser old)) (iser r)\<rparr>))"

definition mask_run :: "nat \<Rightarrow> mask_registers \<Rightarrow> mask_registers \<Rightarrow> mask_registers" where
  "mask_run p old r = r"

definition context_line :: "app \<Rightarrow> (nat \<Rightarrow> string option) \<Rightarrow> (string \<Rightarrow> nat) \<Rightarrow> context_of \<Rightarrow> nat option" where
  "context_line a ints irq c = (case c of
     Main \<Rightarrow> None
   | Task n \<Rightarrow> (case map_of (hardware_tasks a) n of
       Some t \<Rightarrow> if is_exception (binds t) then None else Some (irq (binds t))
     | None \<Rightarrow> None)
   | Dispatcher p \<Rightarrow> Some (irq (the (ints p))))"

definition line_enabled :: "mask \<Rightarrow> nat \<Rightarrow> bool" where
  "line_enabled e n \<longleftrightarrow> bit (e ! (n div 32)) (n mod 32)"

definition mask_backend ::
  "nat \<Rightarrow> mask list \<Rightarrow> (context_of \<Rightarrow> nat option) \<Rightarrow> mask_registers backend" where
  "mask_backend k masks line = \<lparr>enter_lock = mask_enter k masks, exit_lock = mask_exit k masks,
     exit_run = mask_run,
     lets_through = (\<lambda>r c. \<not> primask r \<and> (case line c of None \<Rightarrow> True | Some n \<Rightarrow> line_enabled (iser r) n))\<rparr>"

section \<open>Bits of masks\<close>

definition masks_ok :: "nat \<Rightarrow> mask list \<Rightarrow> bool" where
  "masks_ok k masks \<longleftrightarrow> length masks = 3 \<and> (\<forall>m \<in> set masks. length m = k)"

lemma compute_mask_Suc: "from \<le> to \<Longrightarrow>
    compute_mask k from (Suc to) masks = map2 (OR) (compute_mask k from to masks) (masks ! to)"
  by (simp add: compute_mask_def)

lemma length_compute_mask:
  "masks_ok k masks \<Longrightarrow> c \<le> 3 \<Longrightarrow> length (compute_mask k 0 c masks) = k"
  by (induction c) (auto simp: compute_mask_Suc masks_ok_def, simp add: compute_mask_def)

lemma compute_mask_line:
  assumes "masks_ok k masks" and "c \<le> 3" and "n < 32 * k"
  shows "line_enabled (compute_mask k 0 c masks) n \<longleftrightarrow> (\<exists>i < c. line_enabled (masks ! i) n)"
  using assms(2)
proof (induction c)
  case 0
  then show ?case using assms(3) by (simp add: compute_mask_def line_enabled_def)
next
  case (Suc c)
  have "length (masks ! c) = k" using assms(1) Suc.prems by (simp add: masks_ok_def)
  moreover have "length (compute_mask k 0 c masks) = k" using length_compute_mask [OF assms(1)] Suc.prems by simp
  moreover have "n div 32 < k" using assms(3) by (simp add: div_less_iff_less_mult mult.commute)
  ultimately have "line_enabled (compute_mask k 0 (Suc c) masks) n \<longleftrightarrow>
      line_enabled (compute_mask k 0 c masks) n \<or> line_enabled (masks ! c) n"
    by (simp add: compute_mask_Suc line_enabled_def bit_or_iff)
  then show ?case using Suc by (auto simp: less_Suc_eq)
qed

lemma set_mask_bit_Some:
  assumes "n div 32 < length m"
  shows "\<exists>m'. set_mask_bit n m = Some m' \<and> length m' = length m \<and>
    (\<forall>i. i < 32 * length m \<longrightarrow> (line_enabled m' i \<longleftrightarrow> line_enabled m i \<or> i = n))"
proof -
  let ?b = "n div 32"
  have "n - ?b * 32 = n mod 32" by (simp add: minus_div_mult_eq_mod)
  then have e: "set_mask_bit n m = Some (m[?b := m ! ?b OR push_bit (n mod 32) 1])"
    using assms by (simp add: set_mask_bit_def Let_def)
  have "line_enabled (m[?b := m ! ?b OR push_bit (n mod 32) 1]) i \<longleftrightarrow> line_enabled m i \<or> i = n"
    if "i < 32 * length m" for i
  proof (cases "i div 32 = ?b")
    case True
    then have "i mod 32 = n mod 32 \<longleftrightarrow> i = n" by (metis div_mod_decomp)
    then show ?thesis using True assms
      by (auto simp: line_enabled_def bit_or_iff bit_exp_iff possible_bit_word)
  next
    case False
    then show ?thesis by (auto simp: line_enabled_def)
  qed
  then show ?thesis using e by auto
qed

lemma set_mask_bits_Some:
  assumes "\<forall>n \<in> set ns. n div 32 < length m"
  shows "\<exists>m'. set_mask_bits ns m = Some m' \<and> length m' = length m \<and>
    (\<forall>i. i < 32 * length m \<longrightarrow> (line_enabled m' i \<longleftrightarrow> line_enabled m i \<or> i \<in> set ns))"
  using assms
proof (induction ns arbitrary: m)
  case (Cons n ns)
  then obtain m1 where m1: "set_mask_bit n m = Some m1" "length m1 = length m"
    "\<forall>i. i < 32 * length m \<longrightarrow> (line_enabled m1 i \<longleftrightarrow> line_enabled m i \<or> i = n)"
    using set_mask_bit_Some [of n m] by auto
  then obtain m2 where "set_mask_bits ns m1 = Some m2" "length m2 = length m1"
    "\<forall>i. i < 32 * length m1 \<longrightarrow> (line_enabled m2 i \<longleftrightarrow> line_enabled m1 i \<or> i \<in> set ns)"
    using Cons.IH [of m1] Cons.prems by auto
  then show ?case using m1 by auto
qed simp

lemma max_fold: "(n::nat) \<in> set ns \<Longrightarrow> n \<le> fold max ns b"
proof (induction ns arbitrary: b)
  case (Cons m ns)
  have mono: "b \<le> fold max ns b" for b :: nat and ns
    by (induction ns arbitrary: b) (auto intro: order_trans [OF max.cobounded2])
  show ?case
  proof (cases "n = m")
    case True
    then show ?thesis using mono [of "max m b" ns] by simp
  next
    case False
    then show ?thesis using Cons by simp
  qed
qed simp

lemma in_chunks: "n \<in> set ids \<Longrightarrow> n div 32 < compute_mask_chunks ids"
  using max_fold [of n ids 0] div_le_mono [of n "fold max ids 0" 32] by (simp add: compute_mask_chunks_def)

text \<open>The masks are made without a panic, and each has the lines of one priority.\<close>

lemma mask_table_Some:
  "\<exists>masks. mask_table a ints irq = Some masks \<and> masks_ok (mask_chunks a ints irq) masks \<and>
    (\<forall>(p, n) \<in> set (used_lines a ints irq). 0 < p \<and> p \<le> 3 \<longrightarrow> line_enabled (masks ! (p - 1)) n)"
proof -
  let ?k = "mask_chunks a ints irq"
  let ?ns = "\<lambda>i. map snd (filter (\<lambda>(p, _). p - 1 = i) (used_lines a ints irq))"
  have ids: "n div 32 < ?k" if "(p, n) \<in> set (used_lines a ints irq)" for p n
    unfolding mask_chunks_def by (rule in_chunks) (use that in force)
  have "\<exists>m. create_mask ?k (?ns i) = Some m \<and> length m = ?k \<and>
      (\<forall>j. j < 32 * ?k \<longrightarrow> (line_enabled m j \<longleftrightarrow> j \<in> set (?ns i)))" for i
  proof -
    have "\<not> line_enabled (replicate ?k 0) j" if "j < 32 * ?k" for j
      using that by (simp add: line_enabled_def div_less_iff_less_mult mult.commute)
    moreover have "\<forall>n \<in> set (?ns i). n div 32 < length (replicate ?k 0)" using ids by auto
    ultimately show ?thesis using set_mask_bits_Some [of "?ns i" "replicate ?k 0"] by (auto simp: create_mask_def)
  qed
  then obtain f where f: "\<And>i. create_mask ?k (?ns i) = Some (f i)" "\<And>i. length (f i) = ?k"
    "\<And>i j. j < 32 * ?k \<Longrightarrow> line_enabled (f i) j \<longleftrightarrow> j \<in> set (?ns i)"
    by metis
  have three: "[0..<3] = [0, 1, 2::nat]" by (simp add: upt_rec)
  have "mask_table a ints irq = those (map (\<lambda>i. Some (f i)) [0..<3])" unfolding mask_table_def f(1) ..
  then have "mask_table a ints irq = Some [f 0, f 1, f 2]" unfolding three by simp
  moreover have "masks_ok ?k [f 0, f 1, f 2]" by (simp add: masks_ok_def f(2))
  moreover have "line_enabled ([f 0, f 1, f 2] ! (p - 1)) n"
    if "(p, n) \<in> set (used_lines a ints irq)" "0 < p" "p \<le> 3" for p n
  proof -
    have "p - 1 \<in> {0, 1, 2}" using that by auto
    then have "[f 0, f 1, f 2] ! (p - 1) = f (p - 1)" by auto
    moreover have "n < 32 * ?k" using ids [OF that(1)] by (simp add: div_less_iff_less_mult mult.commute)
    moreover have "n \<in> set (?ns (p - 1))" using that(1) by force
    ultimately show ?thesis using f(3) by simp
  qed
  ultimately show ?thesis by blast
qed

section \<open>The interface\<close>

lemma read_set_clear:
  assumes "length m = k" and "length e = k"
  shows "set_enable_mask m (read_mask m e) (clear_enable_mask m e) = e"
  using assms
proof (intro nth_equalityI)
  fix i assume "i < length (set_enable_mask m (read_mask m e) (clear_enable_mask m e))"
  moreover have "x AND NOT y OR x = x" for x y :: "32 word"
    by (rule bit_eqI) (auto simp: bit_or_iff bit_and_iff bit_not_iff)
  ultimately show "set_enable_mask m (read_mask m e) (clear_enable_mask m e) ! i = e ! i"
    using assms by (auto simp: set_enable_mask_def read_mask_def clear_enable_mask_def)
qed (simp add: set_enable_mask_def read_mask_def clear_enable_mask_def)

lemma clear_line:
  assumes "length m = k" and "length e = k" and "n < 32 * k"
  shows "line_enabled (clear_enable_mask m e) n \<longleftrightarrow> line_enabled e n \<and> \<not> line_enabled m n"
proof -
  have "n div 32 < k" using assms(3) by (simp add: div_less_iff_less_mult mult.commute)
  then show ?thesis using assms
    by (auto simp: line_enabled_def clear_enable_mask_def bit_and_iff bit_not_iff)
qed

definition mask_good :: "nat \<Rightarrow> mask list \<Rightarrow> (context_of \<Rightarrow> nat option) \<Rightarrow> mask_registers \<Rightarrow> bool" where
  "mask_good k masks line r \<longleftrightarrow> length (iser r) = k \<and> masks_ok k masks \<and>
     (\<forall>c n. line c = Some n \<longrightarrow> n < 32 * k)"

definition mask_maskable :: "app \<Rightarrow> mask list \<Rightarrow> (context_of \<Rightarrow> nat option) \<Rightarrow> context_of \<Rightarrow> bool" where
  "mask_maskable a masks line c \<longleftrightarrow> 0 < context_priority a c \<and>
     (\<exists>n. line c = Some n \<and>
       (context_priority a c \<le> 3 \<longrightarrow> line_enabled (masks ! (context_priority a c - 1)) n))"

lemma mask_enter_lets:
  assumes g: "mask_good k masks line r" and l: "lets_through (mask_backend k masks line) (mask_enter k masks c r) i"
  shows "lets_through (mask_backend k masks line) r i"
    and "mask_maskable a masks line i \<Longrightarrow> c < context_priority a i"
proof -
  have c: "c \<le> 3" using l by (auto simp: mask_backend_def mask_enter_def split: if_splits)
  let ?m = "compute_mask k 0 c masks"
  have m: "length ?m = k" using g c by (simp add: mask_good_def length_compute_mask)
  have n: "line_enabled (iser r) n \<and> \<not> line_enabled ?m n" if "line i = Some n" for n
  proof -
    have "n < 32 * k" using g that by (auto simp: mask_good_def)
    moreover have "line_enabled (clear_enable_mask ?m (iser r)) n"
      using l c that by (simp add: mask_backend_def mask_enter_def)
    ultimately show ?thesis using clear_line [OF m] g by (simp add: mask_good_def)
  qed
  show "lets_through (mask_backend k masks line) r i"
    using l c n by (auto simp: mask_backend_def mask_enter_def split: option.splits)
  assume p: "mask_maskable a masks line i"
  then obtain v where v: "line i = Some v" "0 < context_priority a i"
    "context_priority a i \<le> 3 \<longrightarrow> line_enabled (masks ! (context_priority a i - 1)) v"
    by (auto simp: mask_maskable_def)
  have "v < 32 * k" "masks_ok k masks" using g v by (auto simp: mask_good_def)
  then have "\<not> line_enabled (masks ! j) v" if "j < c" for j
    using compute_mask_line [OF _ c, of k masks v] n [OF v(1)] that by blast
  then have "\<not> context_priority a i - 1 < c" using v c by (cases "context_priority a i \<le> 3") auto
  then show "c < context_priority a i" using v(2) by linarith
qed

lemma mask_exit_enter:
  assumes "mask_good k masks line r"
  shows "mask_exit k masks c r (mask_enter k masks c r) = r"
proof (cases "4 \<le> c")
  case False
  then have "length (compute_mask k 0 c masks) = k" using assms by (simp add: mask_good_def length_compute_mask)
  then show ?thesis using False assms read_set_clear
    by (simp add: mask_exit_def mask_enter_def mask_good_def Let_def)
qed (simp add: mask_exit_def mask_enter_def)

lemma mask_good_enter: "mask_good k masks line r \<Longrightarrow> mask_good k masks line (mask_enter k masks c r)"
  by (auto simp: mask_good_def mask_enter_def clear_enable_mask_def length_compute_mask)

interpretation source_mask: system_ceiling "mask_backend k masks line" "context_priority a"
  "mask_maskable a masks line" 255 "mask_good k masks line" for k masks line a
proof unfold_locales
  fix r c i
  assume g: "mask_good k masks line r"
  show "mask_good k masks line (enter_lock (mask_backend k masks line) c r)"
    using mask_good_enter [OF g] by (simp add: mask_backend_def)
  show "exit_lock (mask_backend k masks line) c r (enter_lock (mask_backend k masks line) c r) = r"
    using mask_exit_enter [OF g] by (simp add: mask_backend_def)
  assume "lets_through (mask_backend k masks line) (enter_lock (mask_backend k masks line) c r) i"
  then have l: "lets_through (mask_backend k masks line) (mask_enter k masks c r) i"
    by (simp add: mask_backend_def)
  show "lets_through (mask_backend k masks line) r i" by (rule mask_enter_lets(1) [OF g l])
  show "c < context_priority a i" if "mask_maskable a masks line i"
    by (rule mask_enter_lets(2) [OF g l that])
qed (simp add: mask_backend_def mask_run_def)

section \<open>Promises\<close>

lemma context_line_used:
  assumes "is_interrupt a c" and "context_line a ints irq c = Some n"
  shows "(context_priority a c, n) \<in> set (used_lines a ints irq)"
proof (cases c)
  case (Task m)
  then obtain t where t: "map_of (hardware_tasks a) m = Some t" using assms(1) by auto
  then have "\<not> is_exception (binds t)" "n = irq (binds t)"
    using assms(2) Task by (auto simp: context_line_def split: if_splits)
  then show ?thesis using Task t map_of_SomeD [OF t] by (force simp: used_lines_def)
qed (use assms in \<open>auto simp: context_line_def used_lines_def\<close>)

definition exceptions_unshared :: "app \<Rightarrow> bool" where
  \<comment> \<open>the documented limitation of this back end\<close>
  "exceptions_unshared a \<longleftrightarrow> list_all (\<lambda>(_, t). is_exception (binds t) \<longrightarrow> hw_shared t = []) (hardware_tasks a)"

lemma shared_has_line:
  assumes "exceptions_unshared a" and "is_interrupt a c" and "context_shared a c \<noteq> []"
  shows "\<exists>n. context_line a ints irq c = Some n"
proof (cases c)
  case (Task m)
  then obtain t where t: "map_of (hardware_tasks a) m = Some t" using assms(2) by auto
  then have "\<not> is_exception (binds t)" using assms(1,3) Task map_of_SomeD [OF t]
    by (auto simp: exceptions_unshared_def list_all_iff)
  then show ?thesis using Task t by (simp add: context_line_def)
qed (use assms in \<open>auto simp: context_line_def\<close>)

lemma line_in_chunks:
  assumes "is_interrupt a c" and "context_line a ints irq c = Some n"
  shows "n < 32 * mask_chunks a ints irq"
proof -
  have "n div 32 < mask_chunks a ints irq"
    unfolding mask_chunks_def by (rule in_chunks) (use context_line_used [OF assms] in force)
  then show ?thesis by (simp add: div_less_iff_less_mult mult.commute)
qed

text \<open>The lines of the contexts that are interrupts of the application.\<close>

definition interrupt_line :: "app \<Rightarrow> (nat \<Rightarrow> string option) \<Rightarrow> (string \<Rightarrow> nat) \<Rightarrow> context_of \<Rightarrow> nat option" where
  "interrupt_line a ints irq c = (if is_interrupt a c then context_line a ints irq c else None)"

text \<open>
  C16: On a Cortex-M without BASEPRI the masks can always be made, and an application that the macro accepts
  has no data race either, when no task bound to an exception uses a shared resource.
\<close>

theorem source_masks_exclusive:
  assumes "parsed a" and "compile_app a = Some (Inr (an, ints))" and "fits a 255" and "exceptions_unshared a"
  shows "\<exists>masks. mask_table a ints irq = Some masks \<and>
    (\<forall>r s. length (iser r) = mask_chunks a ints irq \<and>
      (processor_step (mask_backend (mask_chunks a ints irq) masks (interrupt_line a ints irq)) a
        (resource_ceiling an))\<^sup>*\<^sup>* (start_main r) s \<longrightarrow> no_conflict a s)"
proof -
  obtain masks where t: "mask_table a ints irq = Some masks" "masks_ok (mask_chunks a ints irq) masks"
    "\<forall>(p, n) \<in> set (used_lines a ints irq). 0 < p \<and> p \<le> 3 \<longrightarrow> line_enabled (masks ! (p - 1)) n"
    using mask_table_Some by blast
  let ?k = "mask_chunks a ints irq" and ?line = "interrupt_line a ints irq"
  have m: "mask_maskable a masks ?line c" if c: "is_interrupt a c" and sh: "context_shared a c \<noteq> []" for c
  proof -
    obtain n where n: "context_line a ints irq c = Some n" using shared_has_line [OF assms(4) c sh] by blast
    have "0 < context_priority a c" by (rule interrupt_priority [OF assms(1) c])
    then show ?thesis using t(3) context_line_used [OF c n] n c
      by (auto simp: mask_maskable_def interrupt_line_def)
  qed
  have "no_conflict a s" if "length (iser r) = ?k"
    and "(processor_step (mask_backend ?k masks ?line) a (resource_ceiling an))\<^sup>*\<^sup>* (start_main r) s" for r s
  proof -
    have "mask_good ?k masks ?line r"
      using that(1) t(2) line_in_chunks by (auto simp: mask_good_def interrupt_line_def split: if_splits)
    then show ?thesis
      by (rule source_mask.accepted_exclusive [OF assms(1,2,3) _ _ _ that(2)]) (use m in auto)
  qed
  then show ?thesis using t(1) by blast
qed

theorem source_masks_exclusive_witness:
  "\<exists>an ints masks (s :: mask_registers processor). compile_app example_app = Some (Inr (an, ints)) \<and>
    mask_table example_app ints (\<lambda>_. 7) = Some masks \<and>
    map fst (locks (hd (activations s))) = [''count''] \<and> no_conflict example_app s"
proof -
  obtain an ints where a: "compile_app example_app = Some (Inr (an, ints))" using example_accepted by blast
  let ?k = "mask_chunks example_app ints (\<lambda>_. 7)" and ?line = "interrupt_line example_app ints (\<lambda>_. 7)"
  have "fits example_app 255" "exceptions_unshared example_app" by code_simp+
  from source_masks_exclusive [OF example_parsed a this, of "\<lambda>_. 7"]
  obtain masks where t: "mask_table example_app ints (\<lambda>_. 7) = Some masks"
    and no: "\<And>r s. length (iser r) = ?k \<Longrightarrow>
      (processor_step (mask_backend ?k masks ?line) example_app (resource_ceiling an))\<^sup>*\<^sup>* (start_main r) s \<Longrightarrow>
      no_conflict example_app s" by blast
  let ?s0 = "start_main \<lparr>iser = replicate ?k 0, primask = False\<rparr>"
  let ?s1 = "begin_lock (mask_backend ?k masks ?line) (resource_ceiling an) ''count'' ?s0"
  have "processor_step (mask_backend ?k masks ?line) example_app (resource_ceiling an) ?s0 ?s1"
    by (rule step_lock) (auto simp: start_main_def example_app_def is_lock_free_def)
  then have n: "no_conflict example_app ?s1" by (intro no [of "\<lparr>iser = replicate ?k 0, primask = False\<rparr>"]) auto
  have l: "map fst (locks (hd (activations ?s1))) = [''count'']" by (simp add: begin_lock_def start_main_def)
  show ?thesis
    by (rule exI [of _ an], rule exI [of _ ints], rule exI [of _ masks], rule exI [of _ ?s1], intro conjI)
      (rule a t l n)+
qed

text \<open>An application of which one task is bound to an exception.\<close>

definition ticking_app :: app where
  "ticking_app = example_app\<lparr>
     idle := Some \<lparr>idle_name = ''idle'', idle_shared = [(''count'', Exclusive)], idle_locals = []\<rparr>,
     hardware_tasks := [(''tick'', \<lparr>binds = ''SysTick'', hw_priority = 1,
       hw_shared = [(''count'', Exclusive)], hw_locals = []\<rparr>)],
     software_tasks := [], local_resources := []\<rparr>"

text \<open>
  C38: The limitation is not checked: the macro accepts an application in which a task bound to an exception
  uses a shared resource, and while \<open>idle\<close> has it locked the exception comes and locks it too.
\<close>

theorem exception_not_masked:
  "\<exists>an ints masks s. compile_app ticking_app = Some (Inr (an, ints)) \<and>
    mask_table ticking_app ints (\<lambda>_. 0) = Some masks \<and>
    (processor_step (mask_backend (mask_chunks ticking_app ints (\<lambda>_. 0)) masks (interrupt_line ticking_app ints (\<lambda>_. 0)))
      ticking_app (resource_ceiling an))\<^sup>*\<^sup>* (start_main \<lparr>iser = [0], primask = False\<rparr>) s \<and>
    \<not> no_conflict ticking_app s"
proof -
  have "analysis_errors ticking_app = []" "check_app ticking_app = None" "check_target ticking_app = None" by code_simp+
  then obtain an ints where a: "compile_app ticking_app = Some (Inr (an, ints))"
    using compile_outcome [of ticking_app] by auto
  obtain masks where t: "mask_table ticking_app ints (\<lambda>_. 0) = Some masks" using mask_table_Some by blast
  let ?line = "interrupt_line ticking_app ints (\<lambda>_. 0)"
  let ?b = "mask_backend (mask_chunks ticking_app ints (\<lambda>_. 0)) masks ?line" and ?c = "resource_ceiling an"
  let ?step = "processor_step ?b ticking_app ?c" and ?s0 = "start_main \<lparr>iser = [0], primask = False\<rparr>"
  let ?s1 = "begin_lock ?b ?c ''count'' ?s0"
  let ?s2 = "take_interrupt (Task ''tick'') ?s1"
  let ?s3 = "begin_lock ?b ?c ''count'' ?s2"
  have "ownership_of (priorities_of (shared_resource_accesses ticking_app) ''count'') = Some (Contended 1)" by code_simp
  then have c: "?c ''count'' = 1" using accepted_ownerships [OF a, of "''count''"] by (simp add: resource_ceiling_def)
  have "?step ?s0 ?s1"
    by (rule step_lock) (auto simp: start_main_def ticking_app_def example_app_def is_lock_free_def)
  moreover have "?line (Task ''tick'') = None"
    by (simp add: interrupt_line_def context_line_def ticking_app_def is_exception_def)
  then have "?step ?s1 ?s2"
    by (intro step_interrupt)
      (auto simp: start_main_def begin_lock_def c mask_backend_def mask_enter_def ticking_app_def)
  moreover have "?step ?s2 ?s3"
    by (rule step_lock) (auto simp: take_interrupt_def ticking_app_def example_app_def is_lock_free_def)
  ultimately have r: "?step\<^sup>*\<^sup>* ?s0 ?s3" by simp
  have "touches ticking_app (activations ?s3 ! 0) ''count'' Exclusive"
    "touches ticking_app (activations ?s3 ! 1) ''count'' Exclusive" "length (activations ?s3) = 2"
    by (simp_all add: start_main_def begin_lock_def take_interrupt_def touches_def)
  then have n: "\<not> no_conflict ticking_app ?s3"
    unfolding no_conflict_def by (metis access.distinct(1) one_less_numeral_iff semiring_norm(76) zero_less_one)
  show ?thesis
    by (rule exI [of _ an], rule exI [of _ ints], rule exI [of _ masks], rule exI [of _ ?s3], intro conjI)
      (rule a t r n)+
qed

end
