(* ===== verification/Rtic_Threshold.thy ===== *)
theory Rtic_Threshold
  imports Rtic_Ceiling
begin

text \<open>
  Locks on the ESP32-C3 and ESP32-C6: \<open>rtic/src/export/riscv_esp32c3.rs\<close> and \<open>riscv_esp32c6.rs\<close>, which
  differ in the name of the register. The threshold lets interrupts of its priority and of higher ones
  through, as the code says; a critical section masks all and gives back at its end what was there.
\<close>

record threshold_registers =
  threshold :: nat
  disabled :: bool

definition threshold_enter :: "nat \<Rightarrow> threshold_registers \<Rightarrow> threshold_registers" where
  \<comment> \<open>\<open>lock\<close>, up to the closure\<close>
  "threshold_enter c r = (if c = 15 then r\<lparr>disabled := True\<rparr> else r\<lparr>threshold := c + 1\<rparr>)"

definition threshold_exit :: "nat \<Rightarrow> threshold_registers \<Rightarrow> threshold_registers \<Rightarrow> threshold_registers" where
  "threshold_exit c old r = (if c = 15 then r\<lparr>disabled := disabled old\<rparr> else r\<lparr>threshold := threshold old\<rparr>)"

definition threshold_run :: "nat \<Rightarrow> threshold_registers \<Rightarrow> threshold_registers \<Rightarrow> threshold_registers" where
  "threshold_run p old r = (if p = 1 then r\<lparr>threshold := 1\<rparr> else r\<lparr>threshold := threshold old\<rparr>)"

definition threshold_backend :: "app \<Rightarrow> threshold_registers backend" where
  "threshold_backend a = \<lparr>enter_lock = threshold_enter, exit_lock = threshold_exit, exit_run = threshold_run,
     lets_through = (\<lambda>r c. \<not> disabled r \<and> threshold r \<le> context_priority a c)\<rparr>"

text \<open>\<open>idle\<close> locks two resources of which the inner one has the lower ceiling.\<close>

definition nesting_app :: app where
  "nesting_app = example_app\<lparr>
     idle := Some \<lparr>idle_name = ''idle'', idle_shared = [(''count'', Exclusive), (''key'', Exclusive)], idle_locals = []\<rparr>,
     hardware_tasks := [
       (''low'', \<lparr>binds = ''UART0'', hw_priority = 1, hw_shared = [(''key'', Exclusive)], hw_locals = []\<rparr>),
       (''high'', \<lparr>binds = ''GPIO'', hw_priority = 2, hw_shared = [(''count'', Exclusive)], hw_locals = []\<rparr>)],
     software_tasks := [], local_resources := [], dispatchers := []\<rparr>"

text \<open>
  C17: A lock does not keep the ceiling that is in force: locking a resource of a lower ceiling inside
  another lock lowers the threshold, the task that uses the outer resource gets through, and locks it while
  it is locked.
\<close>

theorem nested_lock_opens:
  "\<exists>an s. check_app nesting_app = None \<and> analyze_app nesting_app = Some (Inr an) \<and>
    (processor_step (threshold_backend nesting_app) nesting_app (resource_ceiling an))\<^sup>*\<^sup>*
      (start_main \<lparr>threshold = 1, disabled = False\<rparr>) s \<and>
    map (map fst \<circ> locks) (activations s) = [[''count''], [''key'', ''count'']] \<and> \<not> no_conflict nesting_app s"
proof -
  have ch: "check_app nesting_app = None" by code_simp
  have "analysis_errors nesting_app = []" "check_target nesting_app = None" by code_simp+
  with ch obtain an ints where c: "compile_app nesting_app = Some (Inr (an, ints))"
    using compile_outcome [of nesting_app] by auto
  have a: "analyze_app nesting_app = Some (Inr an)" by (rule accepted_parts(5) [OF c])
  have "ownership_of (priorities_of (shared_resource_accesses nesting_app) ''count'') = Some (Contended 2)"
    "ownership_of (priorities_of (shared_resource_accesses nesting_app) ''key'') = Some (Contended 1)" by code_simp+
  then have ceil: "resource_ceiling an ''count'' = 2" "resource_ceiling an ''key'' = 1"
    using accepted_ownerships [OF c, of "''count''"] accepted_ownerships [OF c, of "''key''"]
    by (simp_all add: resource_ceiling_def)
  let ?b = "threshold_backend nesting_app" and ?c = "resource_ceiling an"
  let ?step = "processor_step ?b nesting_app ?c" and ?s0 = "start_main \<lparr>threshold = 1, disabled = False\<rparr>"
  let ?s1 = "begin_lock ?b ?c ''count'' ?s0"
  let ?s2 = "begin_lock ?b ?c ''key'' ?s1"
  let ?s3 = "take_interrupt (Task ''high'') ?s2"
  let ?s4 = "begin_lock ?b ?c ''count'' ?s3"
  have "?step ?s0 ?s1"
    by (rule step_lock) (auto simp: start_main_def nesting_app_def example_app_def is_lock_free_def)
  moreover have "?step ?s1 ?s2"
    by (rule step_lock) (auto simp: start_main_def begin_lock_def nesting_app_def example_app_def is_lock_free_def)
  moreover have "?step ?s2 ?s3"
    by (rule step_interrupt)
      (auto simp: start_main_def begin_lock_def ceil threshold_backend_def threshold_enter_def nesting_app_def)
  moreover have "?step ?s3 ?s4"
    by (rule step_lock) (auto simp: take_interrupt_def nesting_app_def example_app_def is_lock_free_def)
  ultimately have r: "?step\<^sup>*\<^sup>* ?s0 ?s4" by (meson converse_rtranclp_into_rtranclp rtranclp.rtrancl_refl)
  have l: "map (map fst \<circ> locks) (activations ?s4) = [[''count''], [''key'', ''count'']]"
    by (simp add: start_main_def begin_lock_def take_interrupt_def)
  have "touches nesting_app (activations ?s4 ! 0) ''count'' Exclusive"
    "touches nesting_app (activations ?s4 ! 1) ''count'' Exclusive" "length (activations ?s4) = 2"
    by (simp_all add: start_main_def begin_lock_def take_interrupt_def touches_def)
  then have n: "\<not> no_conflict nesting_app ?s4"
    unfolding no_conflict_def by (metis access.distinct(1) one_less_numeral_iff semiring_norm(76) zero_less_one)
  show ?thesis
    by (rule exI [of _ an], rule exI [of _ ?s4], intro conjI) (rule ch a r l n)+
qed

end
