(* ===== verification/Rtic_Executor.thy ===== *)
theory Rtic_Executor
  imports Prelude "HOL-Library.Monad_Syntax"
begin

text \<open>
  The executor of an async task (\<open>rtic/src/export/executor.rs\<close>) with the functions the macro makes around it:
  \<open>spawn\<close> and the waker (\<open>codegen/module.rs\<close>) and the dispatcher (\<open>codegen/async_dispatchers.rs\<close>). A step is one
  atomic operation on a flag, the writing of the future, the pending of the interrupt, or a call of the
  future. Any number of contexts spawn and wake; any of their steps may come between two of the dispatcher.
\<close>

section \<open>State\<close>

text \<open>
  The memory of the future: only a live one may be polled. A call of \<open>spawn\<close> begins at \<open>Allocating\<close>, that of
  a waker at \<open>Flagging\<close>; from there the two are the same.
\<close>

datatype future_memory = Uninit | Live | Completed

datatype call_stage = Allocating | Writing | Flagging | Pending_interrupt | Returned bool

datatype dispatch_stage = Asleep | Looking | Claiming_flag | Polling_future | Finishing

record executor =
  task_memory :: future_memory
  is_running :: bool
  is_pending :: bool
  interrupt :: bool
  dispatch :: dispatch_stage
  calls :: "call_stage list"

definition new_executor :: executor where
  "new_executor = \<lparr>task_memory = Uninit, is_running = False, is_pending = False, interrupt = False,
     dispatch = Asleep, calls = []\<rparr>"

section \<open>Operations\<close>

definition try_allocate :: "executor \<Rightarrow> bool \<times> executor" where
  "try_allocate s = (if is_running s then (False, s) else (True, s\<lparr>is_running := True\<rparr>))"

definition set_pending :: "executor \<Rightarrow> executor" where
  "set_pending s = s\<lparr>is_pending := True\<rparr>"

definition check_and_clear_pending :: "executor \<Rightarrow> bool \<times> executor" where
  "check_and_clear_pending s = (if is_pending s then (True, s\<lparr>is_pending := False\<rparr>) else (False, s))"

definition move_call :: "nat \<Rightarrow> call_stage \<Rightarrow> executor \<Rightarrow> executor" where
  "move_call i c s = s\<lparr>calls := (calls s)[i := c]\<rparr>"

definition call_spawn :: "executor \<Rightarrow> executor" where
  "call_spawn s = s\<lparr>calls := calls s @ [Allocating]\<rparr>"

definition call_wake :: "executor \<Rightarrow> executor" where
  "call_wake s = s\<lparr>calls := calls s @ [Flagging]\<rparr>"

definition run_call :: "nat \<Rightarrow> executor \<Rightarrow> executor" where
  \<comment> \<open>the next step of a call of \<open>spawn\<close> or of a waker\<close>
  "run_call i s = (case calls s ! i of
     Allocating \<Rightarrow> (case try_allocate s of
         (True, s') \<Rightarrow> move_call i Writing s'
       | (False, s') \<Rightarrow> move_call i (Returned False) s')
   | Writing \<Rightarrow> move_call i Flagging (s\<lparr>task_memory := Live\<rparr>)
   | Flagging \<Rightarrow> move_call i Pending_interrupt (set_pending s)
   | Pending_interrupt \<Rightarrow> move_call i (Returned True) (s\<lparr>interrupt := True\<rparr>)
   | Returned _ \<Rightarrow> s)"

definition poll_future :: "bool \<Rightarrow> executor \<Rightarrow> executor option" where
  \<comment> \<open>\<open>future.poll\<close>, with what it returns; to poll anything but a live future is undefined\<close>
  "poll_future ready s =
     (if task_memory s = Live then
        Some (if ready then s\<lparr>task_memory := Completed, dispatch := Finishing\<rparr> else s\<lparr>dispatch := Asleep\<rparr>)
      else None)"

definition run_dispatcher :: "bool \<Rightarrow> executor \<Rightarrow> executor option" where
  \<comment> \<open>the next step of the interrupt handler in \<open>poll\<close>\<close>
  "run_dispatcher ready s = (case dispatch s of
     Asleep \<Rightarrow> Some (if interrupt s then s\<lparr>interrupt := False, dispatch := Looking\<rparr> else s)
   | Looking \<Rightarrow> Some (s\<lparr>dispatch := if is_running s then Claiming_flag else Asleep\<rparr>)
   | Claiming_flag \<Rightarrow> (case check_and_clear_pending s of
         (True, s') \<Rightarrow> Some (s'\<lparr>dispatch := Polling_future\<rparr>)
       | (False, s') \<Rightarrow> Some (s'\<lparr>dispatch := Asleep\<rparr>))
   | Polling_future \<Rightarrow> poll_future ready s
   | Finishing \<Rightarrow> Some (s\<lparr>is_running := False, dispatch := Asleep\<rparr>))"

text \<open>
  The interrupt is also pended by the other tasks of the dispatcher. When \<open>undisturbed\<close>, the dispatcher does
  not come between the allocation and the writing of the future: every context that spawns has at least
  its priority, or spawns in a critical section.
\<close>

inductive executor_step :: "bool \<Rightarrow> executor \<Rightarrow> executor \<Rightarrow> bool" for undisturbed where
  step_spawn: "executor_step undisturbed s (call_spawn s)"
| step_wake: "executor_step undisturbed s (call_wake s)"
| step_call: "executor_step undisturbed s (run_call i s)" if "i < length (calls s)"
| step_pend: "executor_step undisturbed s (s\<lparr>interrupt := True\<rparr>)"
| step_dispatch: "executor_step undisturbed s s'"
    if "if undisturbed then Writing \<notin> set (calls s) else True" "run_dispatcher ready s = Some s'"

section \<open>Invariants\<close>

text \<open>A future that can be polled will be: the interrupt is pended, or about to be, or being served.\<close>

definition wake_kept :: "executor \<Rightarrow> bool" where
  "wake_kept s \<longleftrightarrow> (is_running s \<and> is_pending s \<longrightarrow>
     interrupt s \<or> dispatch s \<in> {Looking, Claiming_flag} \<or> set (calls s) \<inter> {Writing, Flagging, Pending_interrupt} \<noteq> {})"

definition memory_kept :: "executor \<Rightarrow> bool" where
  "memory_kept s \<longleftrightarrow>
     (\<forall>i j. i < length (calls s) \<and> j < length (calls s) \<and> calls s ! i = Writing \<and> calls s ! j = Writing \<longrightarrow> i = j) \<and>
     (Writing \<in> set (calls s) \<longrightarrow> is_running s \<and> task_memory s \<noteq> Live \<and> dispatch s \<in> {Asleep, Looking}) \<and>
     (is_running s \<and> Writing \<notin> set (calls s) \<longrightarrow> (if dispatch s = Finishing then task_memory s = Completed else task_memory s = Live)) \<and>
     (\<not> is_running s \<longrightarrow> task_memory s \<noteq> Live \<and> dispatch s \<in> {Asleep, Looking})"

lemma wake_kept_new: "wake_kept new_executor"
  by (simp add: wake_kept_def new_executor_def)

lemma memory_kept_new: "memory_kept new_executor"
  by (simp add: memory_kept_def new_executor_def)

lemma mem_update: "i < length xs \<Longrightarrow> x \<in> set (xs[i := y]) \<Longrightarrow> x = y \<or> x \<in> set xs"
  using set_update_subset_insert [of xs i y] by blast

lemma mem_update_other: "x \<in> set xs \<Longrightarrow> xs ! i \<noteq> x \<Longrightarrow> x \<in> set (xs[i := y])"
  by (metis in_set_conv_nth length_list_update nth_list_update_neq)

lemma mem_update_new: "i < length xs \<Longrightarrow> y \<in> set (xs[i := y])"
  by (simp add: set_update_memI)

lemma wake_kept_call:
  assumes "wake_kept s" and i: "i < length (calls s)"
  shows "wake_kept (run_call i s)"
proof -
  have other: "set ((calls s)[i := c]) \<inter> {Writing, Flagging, Pending_interrupt} \<noteq> {}"
    if "set (calls s) \<inter> {Writing, Flagging, Pending_interrupt} \<noteq> {}"
      "calls s ! i \<notin> {Writing, Flagging, Pending_interrupt} \<or> c \<in> {Writing, Flagging, Pending_interrupt}" for c
    using that mem_update_new [OF i, of c] mem_update_other [of _ "calls s" i c] by (smt (verit) disjoint_iff insert_iff)
  show ?thesis
  proof (cases "calls s ! i")
    case Allocating
    show ?thesis
    proof (cases "is_running s")
      case True
      then show ?thesis using assms(1) other Allocating
        by (auto simp: run_call_def try_allocate_def move_call_def wake_kept_def)
    next
      case False
      then show ?thesis using mem_update_new [OF i, of Writing] Allocating
        by (auto simp: run_call_def try_allocate_def move_call_def wake_kept_def)
    qed
  next
    case Writing
    then show ?thesis using mem_update_new [OF i, of Flagging]
      by (auto simp: run_call_def move_call_def wake_kept_def)
  next
    case Flagging
    then show ?thesis using mem_update_new [OF i, of Pending_interrupt]
      by (auto simp: run_call_def move_call_def wake_kept_def set_pending_def)
  next
    case Pending_interrupt
    then show ?thesis by (auto simp: run_call_def move_call_def wake_kept_def)
  next
    case (Returned r)
    then show ?thesis using assms(1) by (simp add: run_call_def)
  qed
qed

lemma wake_kept_dispatch:
  assumes "wake_kept s" and "run_dispatcher ready s = Some s'"
  shows "wake_kept s'"
  using assms
  by (auto simp: run_dispatcher_def wake_kept_def check_and_clear_pending_def poll_future_def
      split: dispatch_stage.splits if_splits)

lemma wake_kept_step:
  assumes "wake_kept s" and "executor_step undisturbed s s'"
  shows "wake_kept s'"
  using assms(2)
proof cases
  case step_call
  then show ?thesis using wake_kept_call [OF assms(1)] by simp
next
  case (step_dispatch ready)
  then show ?thesis using wake_kept_dispatch [OF assms(1)] by simp
qed (use assms(1) in \<open>auto simp: wake_kept_def call_spawn_def call_wake_def\<close>)

interpretation waking: transitions new_executor "executor_step undisturbed" wake_kept for undisturbed
  by unfold_locales (auto intro: wake_kept_new wake_kept_step)

lemma no_writing_nth: "Writing \<notin> set (calls s) \<Longrightarrow> i < length (calls s) \<Longrightarrow> calls s ! i \<noteq> Writing"
  by (metis nth_mem)

lemma memory_kept_moved:
  assumes "memory_kept s" and i: "i < length (calls s)" and "calls s ! i \<noteq> Writing" and "c \<noteq> Writing"
  shows "memory_kept (move_call i c s)"
proof -
  have "Writing \<in> set ((calls s)[i := c]) \<longleftrightarrow> Writing \<in> set (calls s)"
    using mem_update [OF i, of Writing c] mem_update_other [of Writing "calls s" i c] assms(3,4) by auto
  moreover have "(calls s)[i := c] ! j = Writing \<longleftrightarrow> calls s ! j = Writing" if "j < length (calls s)" for j
    using that assms(3,4) by (cases "j = i") auto
  ultimately show ?thesis using assms(1) by (auto simp: memory_kept_def move_call_def)
qed

lemma memory_kept_call:
  assumes k: "memory_kept s" and i: "i < length (calls s)"
  shows "memory_kept (run_call i s)"
proof (cases "calls s ! i")
  case Allocating
  show ?thesis
  proof (cases "is_running s")
    case True
    then show ?thesis using memory_kept_moved [OF k i, of "Returned False"] Allocating
      by (simp add: run_call_def try_allocate_def)
  next
    case False
    then have no: "Writing \<notin> set (calls s)" using k by (auto simp: memory_kept_def)
    have "j = i" if "j < length (calls s)" "(calls s)[i := Writing] ! j = Writing" for j
      using that no_writing_nth [OF no that(1)] by (cases "j = i") auto
    then show ?thesis using False k mem_update_new [OF i, of Writing] Allocating
      by (auto simp: run_call_def try_allocate_def move_call_def memory_kept_def)
  qed
next
  case Writing
  then have w: "Writing \<in> set (calls s)" using i by (metis nth_mem)
  have only: "calls s ! j \<noteq> Writing" if "j < length (calls s)" "j \<noteq> i" for j
    using k that i Writing by (auto simp: memory_kept_def)
  have none: "(calls s)[i := Flagging] ! j \<noteq> Writing" if "j < length (calls s)" for j
    using only that by (cases "j = i") (auto simp: i)
  then have "Writing \<notin> set ((calls s)[i := Flagging])" by (metis in_set_conv_nth length_list_update)
  with none show ?thesis using k w Writing
    by (auto simp: run_call_def move_call_def memory_kept_def)
next
  case Flagging
  have "memory_kept (set_pending s)" using k by (simp add: memory_kept_def set_pending_def)
  then show ?thesis using memory_kept_moved [of "set_pending s" i Pending_interrupt] i Flagging
    by (simp add: run_call_def set_pending_def)
next
  case Pending_interrupt
  have "memory_kept (s\<lparr>interrupt := True\<rparr>)" using k by (simp add: memory_kept_def)
  then show ?thesis using memory_kept_moved [of "s\<lparr>interrupt := True\<rparr>" i "Returned True"] i Pending_interrupt
    by (simp add: run_call_def)
next
  case (Returned r)
  then show ?thesis using k by (simp add: run_call_def)
qed

lemma memory_kept_dispatch:
  assumes "memory_kept s" and "Writing \<notin> set (calls s)" and "run_dispatcher ready s = Some s'"
  shows "memory_kept s'"
  using assms
  by (auto simp: run_dispatcher_def memory_kept_def check_and_clear_pending_def poll_future_def
      split: dispatch_stage.splits if_splits)

lemma memory_kept_appended:
  assumes "memory_kept s" and "c \<noteq> Writing"
  shows "memory_kept (s\<lparr>calls := calls s @ [c]\<rparr>)"
  using assms by (auto simp: memory_kept_def nth_append split: if_splits)

lemma memory_kept_step:
  assumes k: "memory_kept s" and "executor_step True s s'"
  shows "memory_kept s'"
  using assms(2)
proof cases
  case step_call
  then show ?thesis using memory_kept_call [OF k] by simp
next
  case (step_dispatch ready)
  then show ?thesis using memory_kept_dispatch [OF k] by simp
next
  case step_pend
  then show ?thesis using k by (simp add: memory_kept_def)
qed (use memory_kept_appended [OF k] in \<open>simp_all add: call_spawn_def call_wake_def\<close>)

interpretation spawning: transitions new_executor "executor_step True" memory_kept
  by unfold_locales (auto intro: memory_kept_new memory_kept_step)

definition has_returned :: "call_stage \<Rightarrow> bool" where
  "has_returned c = (case c of Returned _ \<Rightarrow> True | _ \<Rightarrow> False)"

section \<open>Schedules\<close>

text \<open>A schedule names the steps, so that what it reaches can be computed.\<close>

datatype executor_action = Spawn | Wake | Call nat | Pend | Dispatch bool

fun perform :: "bool \<Rightarrow> executor_action \<Rightarrow> executor \<Rightarrow> executor option" where
  "perform u Spawn s = Some (call_spawn s)"
| "perform u Wake s = Some (call_wake s)"
| "perform u (Call i) s = (if i < length (calls s) then Some (run_call i s) else None)"
| "perform u Pend s = Some (s\<lparr>interrupt := True\<rparr>)"
| "perform u (Dispatch ready) s = (if u \<and> Writing \<in> set (calls s) then None else run_dispatcher ready s)"

primrec perform_all :: "bool \<Rightarrow> executor_action list \<Rightarrow> executor \<Rightarrow> executor option" where
  "perform_all u [] s = Some s"
| "perform_all u (x # xs) s = do { s' \<leftarrow> perform u x s; perform_all u xs s' }"

lemma perform_step: "perform u x s = Some s' \<Longrightarrow> executor_step u s s'"
  by (cases x) (auto intro: executor_step.intros split: if_splits)

lemma perform_all_reaches: "perform_all u xs s = Some s' \<Longrightarrow> (executor_step u)\<^sup>*\<^sup>* s s'"
proof (induction xs arbitrary: s)
  case (Cons x xs)
  then obtain s1 where "perform u x s = Some s1" "perform_all u xs s1 = Some s'"
    by (auto split: Option.bind_splits)
  then show ?case using Cons.IH perform_step by (metis converse_rtranclp_into_rtranclp)
qed simp

definition spawned :: executor where
  "spawned = \<lparr>task_memory = Live, is_running = True, is_pending = True, interrupt = True, dispatch = Asleep,
     calls = [Returned True]\<rparr>"

lemma spawned_reached: "(executor_step u)\<^sup>*\<^sup>* new_executor spawned"
proof (rule perform_all_reaches)
  show "perform_all u [Spawn, Call 0, Call 0, Call 0, Call 0] new_executor = Some spawned"
    by (simp add: spawned_def new_executor_def call_spawn_def run_call_def try_allocate_def move_call_def set_pending_def)
qed

section \<open>Promises\<close>

text \<open>
  C6: When no context is interrupted by the dispatcher between the allocation and the writing of its future,
  the dispatcher never polls memory that holds no live future, and a spawn never overwrites a live one.
\<close>

theorem spawn_safe:
  assumes "(executor_step True)\<^sup>*\<^sup>* new_executor s"
  shows "(if Writing \<in> set (calls s) then task_memory s \<noteq> Live else run_dispatcher ready s \<noteq> None)"
  using spawning.reachable_inv [OF assms]
  by (cases "is_running s")
    (auto simp: memory_kept_def run_dispatcher_def poll_future_def check_and_clear_pending_def
      split: dispatch_stage.splits if_splits)

text \<open>
  C9: No wake-up is lost: when all calls of \<open>spawn\<close> and of wakers have returned, in any interleaving, and the
  task is running with its flag set, then the interrupt is pended or the dispatcher is
  looking at the flag, and from its sleep it polls the future in three steps.
\<close>

theorem task_polled:
  assumes "(executor_step undisturbed)\<^sup>*\<^sup>* new_executor s"
    and "is_running s" and "is_pending s" and "list_all has_returned (calls s)"
  shows "(case dispatch s of
      Asleep \<Rightarrow> interrupt s \<and>
        Option.bind (Option.bind (run_dispatcher r s) (run_dispatcher r)) (run_dispatcher r) =
          Some (s\<lparr>interrupt := False, is_pending := False, dispatch := Polling_future\<rparr>)
    | Looking \<Rightarrow> True
    | Claiming_flag \<Rightarrow> True
    | _ \<Rightarrow> interrupt s)"
proof -
  have "wake_kept s" by (rule waking.reachable_inv [OF assms(1)])
  moreover have "set (calls s) \<inter> {Writing, Flagging, Pending_interrupt} = {}"
    using assms(4) by (fastforce simp: list_all_iff has_returned_def)
  ultimately have "interrupt s \<or> dispatch s \<in> {Looking, Claiming_flag}"
    using assms(2,3) by (auto simp: wake_kept_def)
  then show ?thesis using assms(2,3)
    by (auto simp: run_dispatcher_def check_and_clear_pending_def split: dispatch_stage.splits)
qed

theorem spawn_safe_witness: "run_dispatcher True spawned \<noteq> None"
  using spawn_safe [OF spawned_reached [of True], of True] by (simp add: spawned_def)

theorem task_polled_witness:
  "interrupt spawned \<and>
    Option.bind (Option.bind (run_dispatcher True spawned) (run_dispatcher True)) (run_dispatcher True) =
      Some (spawned\<lparr>interrupt := False, is_pending := False, dispatch := Polling_future\<rparr>)"
proof -
  have "is_running spawned" "is_pending spawned" "list_all has_returned (calls spawned)"
    by (simp_all add: spawned_def has_returned_def)
  from task_polled [OF spawned_reached [of False] this, of True] show ?thesis by (simp add: spawned_def)
qed

definition late_wake :: "executor_action list" where
  \<comment> \<open>woken during its last poll, the task completes with its flag set; a spawn is interrupted\<close>
  "late_wake = [Spawn, Call 0, Call 0, Call 0, Call 0, Dispatch False, Dispatch False, Dispatch False,
     Wake, Call 1, Call 1, Dispatch True, Dispatch True, Dispatch False, Dispatch False,
     Spawn, Call 2, Pend, Dispatch False, Dispatch False, Dispatch False]"

definition early_wake :: "executor_action list" where
  \<comment> \<open>woken before it has been spawned; the spawn is interrupted\<close>
  "early_wake = [Wake, Call 0, Call 0, Spawn, Call 1, Dispatch False, Dispatch False, Dispatch False]"

text \<open>
  C19: When the dispatcher comes between the allocation and the writing of a future and the flag is left from
  an earlier wake-up, it polls memory that holds no live future: the completed one, or, when the task is
  woken before its first spawn, none at all.
\<close>

theorem spawn_race:
  "(\<exists>s. (executor_step False)\<^sup>*\<^sup>* new_executor s \<and> task_memory s = Completed \<and> run_dispatcher ready s = None) \<and>
    (\<exists>s. (executor_step False)\<^sup>*\<^sup>* new_executor s \<and> task_memory s = Uninit \<and> run_dispatcher ready s = None)"
proof -
  have "map_option (\<lambda>s. (task_memory s, dispatch s)) (perform_all False late_wake new_executor) =
      Some (Completed, Polling_future)" by code_simp
  then obtain s where s: "perform_all False late_wake new_executor = Some s" "task_memory s = Completed"
    "dispatch s = Polling_future" by auto
  have "map_option (\<lambda>s. (task_memory s, dispatch s)) (perform_all False early_wake new_executor) =
      Some (Uninit, Polling_future)" by code_simp
  then obtain t where t: "perform_all False early_wake new_executor = Some t" "task_memory t = Uninit"
    "dispatch t = Polling_future" by auto
  have "run_dispatcher ready s = None" "run_dispatcher ready t = None"
    using s t by (simp_all add: run_dispatcher_def poll_future_def)
  then show ?thesis using s(2) t(2) perform_all_reaches [OF s(1)] perform_all_reaches [OF t(1)] by blast
qed

end
