(* ===== verification/Spec2Isabelle.thy ===== *)
theory Spec2Isabelle
  imports Search_Ui Search_Teaser Toc_Headers Book_Themes Book_Sidebar Book_Keys Book_Menu Book_Buttons
    Rtic_Timer_Queue Rtic_Channel_Promises Rtic_Arbiter Rtic_Signal Rtic_Lock Rtic_Mask Rtic_Threshold
    Rtic_Executor
begin

text \<open>
  A verification library for the repository of RTIC. The scripts of the book,
  \<open>src/book/jp/book\<close>: \<open>searcher-c2a407aa.js\<close> (the search), \<open>toc-d86eca13.js\<close> (the list of chapters and
  headers) and \<open>book-a0b12cfe.js\<close> (themes, the sidebar, the keyboard, the bar above the page, the code
  blocks). And the core of the framework that the book is about: the analysis that the macro \<open>app\<close>
  makes of an application (\<open>src/rtic-macros\<close>), the locks and the executor of its run time (\<open>src/rtic\<close>), time
  and timers (\<open>src/rtic-time\<close>), the queue of tasks that wait (\<open>src/rtic-common\<close>) and the channel, the
  arbiter and the signal (\<open>src/rtic-sync\<close>).

  \<^bold>\<open>How the scripts are modelled.\<close> Every script is a set of functions on one record: the document and the
  browser (\<open>Dom\<close>, \<open>Browser\<close>, \<open>Layout\<close>) extended by the variables of the script. A function of a
  script is a function of the same name here, composed as the code composes them; a listener is a
  function too, and a datatype with one constructor per event together with a step function
  (\<open>search_step\<close>, \<open>toc_step\<close>, \<open>theme_step\<close>, \<open>sidebar_step\<close>, \<open>keys_step\<close>, \<open>menu_scrolled\<close>,
  \<open>code_step\<close>, \<open>clip_step\<close>) stands for everything the browser can tell a script. A run is a fold of
  the step function over a list of events, so every interleaving is covered. A function that can throw
  returns an \<open>outcome\<close>, \<open>Done s\<close> or \<open>Throws e s\<close>: what was written before a throw stays written.
  Calls that leave the page (scrolling, following a link, timers, preventing the default) are logged in
  \<open>effects\<close>, in order.

  \<^bold>\<open>How the framework is modelled.\<close> Tasks, interrupt handlers and the clock run interleaved, and what
  the code does in one critical section nothing interrupts. So each component is a state machine: a
  record of its data, of where every task is in its operation and of the hardware it uses, functions
  for what runs without interruption, and an inductive relation (\<open>timer_step\<close>, \<open>channel_step\<close>) that
  lets anyone who can take the next step take it. Intrusive lists are links in a memory addressed by
  numbers. What the code leaves undefined (a link that is gone, an index pushed to a full queue, a slot
  read that holds no value) is \<open>None\<close>, and a property says that no reachable state leads there. Fields
  marked so are not in the code: absolute times behind the wrapping ticks, the values sent and received.

  \<^bold>\<open>How the macro and the locks are modelled.\<close> An application is a record with the declarations that the
  parser leaves (\<open>app\<close>); \<open>parsed\<close> says what the parser guarantees, distinct names above all. \<open>compile_app\<close>
  is the macro up to the generation of code: \<open>None\<close> if it panics, \<open>Inl\<close> if it reports errors, \<open>Inr\<close> with the
  analysis and the interrupts of the dispatchers. Maps in the order of insertion are association lists.
  The processor that runs the generated code is a stack of activations (\<open>processor\<close>): an interrupt that gets
  through pushes one, locks of the running one begin and end in nested order, each one step. What a lock
  does to the registers is a \<open>backend\<close>, written down from the code for BASEPRI, for the masks of single
  interrupts and for the threshold of the ESP32-C3 and C6. That the ceilings of the analysis and a back end
  fit together is the interface \<open>system_ceiling\<close>, of which the first two are interpretations and which the
  third does not satisfy (\<open>Rtic_Threshold\<close> shows a run).

  \<^bold>\<open>The theories.\<close>
  \<^item> \<open>Prelude\<close>: outcomes, generic lemmas, and the interfaces. \<open>machine\<close> (a step function and a condition
    it keeps: the condition holds along every run), \<open>transitions\<close> (the same for a step relation and what it
    reaches), \<open>disclosure\<close> (something shown and hidden) and \<open>codec\<close> (an encoding with its inverse) are interpreted on the model's own functions in the theories
    that provide them.
  \<^item> \<open>Js\<close>: the string functions of the language the scripts call (splitting, trimming, lower case,
    percent encoding and decoding, \<open>parseInt\<close>) with their round trips.
  \<^item> \<open>Dom\<close>, \<open>Browser\<close>, \<open>Layout\<close>: the document as a store, its operations and what reading gives after
    writing; focus, addresses, history, storages, effects; where things are on the screen.
  \<^item> \<open>Search_Text\<close>, \<open>Search_Teaser\<close>, \<open>Search_Url\<close>, \<open>Search_Ui\<close>: \<open>search()\<close>. Teasers, escaping and results;
    what a teaser is, in words and separators of the body, and which window it shows; addresses and
    their parameters; the variables and all listeners.
  \<^item> \<open>Toc_Chapters\<close>, \<open>Toc_Threshold\<close>, \<open>Doc_Tree\<close>, \<open>Toc_Headers\<close>: the element of the sidebar with its
    links; the current header and the threshold that chooses it; trees as an abstract view of a part of
    the document; the list of headers built in the sidebar, and that it refines the list of headers.
  \<^item> \<open>Book_Themes\<close>, \<open>Book_Sidebar\<close>, \<open>Book_Keys\<close>, \<open>Book_Menu\<close>: \<open>themes\<close>, \<open>sidebar\<close>,
    \<open>chapterNavigation\<close>, \<open>scrollToTop\<close> and \<open>controllMenu\<close>, each its record, its functions, its
    invariant and its properties.
  \<^item> \<open>Book_Code\<close>, \<open>Book_Buttons\<close>: \<open>playground_text\<close>, \<open>codeSnippets\<close> and \<open>clipboard\<close>. The expression
    that finds the crates a block names against its meaning; the requests, each a machine of three
    stages, and what a run reports; the toolbar of a block and its listeners.
  \<^item> \<open>Rtic_Ticks\<close>: \<open>timer_queue/tick_type.rs\<close> and \<open>half_period_counter.rs\<close>. Ticks that wrap, compared as
    the instants they stand for; the time read while a half period ends.
  \<^item> \<open>Rtic_Timer_List\<close>, \<open>Rtic_Timer_Queue\<close>: \<open>linked_list.rs\<close> and \<open>timer_queue.rs\<close>. The links refine a list of
    addresses; delays, the handler and the clock keep an invariant from which memory safety, no missed
    and no early timer follow; the handler run alone ends and wakes what is due.
  \<^item> \<open>Rtic_Wait_Queue\<close>: \<open>wait_queue.rs\<close>. The doubly linked links refine a queue.
  \<^item> \<open>Rtic_Channel\<close>, \<open>Rtic_Channel_Slots\<close>, \<open>Rtic_Channel_Promises\<close>: \<open>channel.rs\<close> on top of the wait queue.
    The steps and the links of the senders; who holds which slot, contents and wake-ups; what follows,
    and two runs in which the channel falls short after its receiver is gone.
  \<^item> \<open>Rtic_Arbiter\<close>: \<open>arbiter.rs\<close> on top of the wait queue. One owner at a time, served in order, the waker of
    each first poll woken; and a run in which the access is lost. \<open>Rtic_Signal\<close>: \<open>signal.rs\<close>. The latest value reaches the reader.
  \<^item> \<open>Rtic_App\<close>, \<open>Rtic_Analysis\<close>: \<open>rtic-macros/src/syntax\<close>, \<open>analyze.rs\<close> and the check for Cortex-M. The
    declarations and the first check; the errors of the analysis against what an application must keep
    to; ownership and ceilings against the priorities of the accesses; \<open>Send\<close> and \<open>Sync\<close>; the vectors.
  \<^item> \<open>Rtic_Ceiling\<close>: contexts, the processor and the interface of the back ends. What an accepted application
    touches, whatever back end satisfies the interface.
  \<^item> \<open>Rtic_Lock\<close>, \<open>Rtic_Mask\<close>, \<open>Rtic_Threshold\<close>: \<open>cortex_basepri.rs\<close> with \<open>cortex_common.rs\<close>,
    \<open>cortex_source_mask.rs\<close>, \<open>riscv_esp32c3.rs\<close> with \<open>riscv_esp32c6.rs\<close>, all in \<open>rtic/src/export\<close>.
  \<^item> \<open>Rtic_Executor\<close>: \<open>rtic/src/export/executor.rs\<close> with the spawn, the waker and the dispatcher that the
    macro makes for a task. No future is polled that is not there, provided no spawn is interrupted by the
    dispatcher; no wake-up is lost; a run without the proviso.

  \<^bold>\<open>What the groups of lemmas show.\<close> Frames: what an operation does not touch. Reading lemmas
  (\<open>..._read\<close>, \<open>..._writes\<close>): what one operation leaves in each part of the state. Invariants: that
  each step of a component keeps what its page promises (the box and its icon, the one current header,
  one theme everywhere, the four places that say whether the sidebar is shown, the cached position of
  the bar). Functional lemmas: what an operation does on every branch, the failing ones included.
  Refinement: the list of headers read back from the document; the links of the queues read as lists. The claims,
  numbered C1 to C40, stand where their components are; each with hypotheses has a witness that
  applies it to a concrete page.

  \<^bold>\<open>Bounds and fuel.\<close> The walks up and down the document (\<open>climb\<close>, \<open>below\<close>) take the number of nodes
  as fuel; \<open>climb_complete\<close> shows that this is enough on a tree. The loops over links and the loop of the
  interrupt handler are partial functions, for which the lemmas that use them show a result
  (\<open>insert_loop_chain\<close>, \<open>delete_loop_chain\<close>, \<open>run_handler_Popping\<close>). All other loops are structural or
  come with a termination proof. Ticks are words of any length of at least two bits; the timer queue is used
  within the \<open>horizon\<close>, a quarter of their range: \<open>near\<close> and \<open>may_tick\<close> say that no delay is longer and that
  every delay is over that long after it is due, so that any two instants in use compare rightly. BASEPRI
  has at least one bit of priority and at most seven, which leaves \<open>1 << bits\<close> within a byte; priorities fit
  the hardware as the assertions of the generated code check (\<open>fits\<close>), and without BASEPRI they are at most
  255, as the type \<open>u8\<close> says. Strings are lists of code units below 256, where every code unit is one
  \<open>char\<close>; where a function of the language leaves that range the outcome is \<open>OutOfModel\<close>. Counts and
  weights are unbounded integers and naturals (the scripts stay far below \<open>2^53\<close>); positions on the
  screen are real numbers or, for the mouse, whole pixels.

  \<^bold>\<open>Parameters.\<close> The stemmer and the index of elasticlunr, the highlighter, what the anchor element
  answers, how a number is written and read, the geometry and the rendered text are arguments;
  where a claim relies on one of them the hypothesis names the documented behaviour
  (\<open>standard_anchor\<close>, which \<open>split_address\<close> satisfies). The number of an interrupt line, which the device
  crate gives, is the parameter \<open>irq\<close>. The registers of the processor (BASEPRI, PRIMASK, the enable bits,
  the threshold) behave as the architecture documents.

  \<^bold>\<open>Not modelled.\<close> The vendored libraries (highlight, elasticlunr, mark, clipboard, mermaid), the index
  data, the one-line calls that start mermaid, the generated HTML and style sheets, and the inline
  scripts of the pages: their effect is the state a model starts from. Of the framework: the parsing of
  tokens and the text of the generated code beyond what decides who runs and what it locks, the back end
  \<open>slic\<close> and those of the monotonics, the buses behind an arbiter, the loop that polls the tasks of
  priority 0 from \<open>main\<close> (which runs the same polls without an interrupt), and the resources declared in a
  task. Memory ordering
  (critical sections order everything the models share) and a future that is forgotten instead of
  dropped, which the documentation of the timer queue forbids.
\<close>

end
